(* ===== verification/Prelude.thy ===== *)
theory Prelude
  imports Main "HOL-Library.Word"
begin

text \<open>
  Shared vocabulary of the development: the machine types of types.h, the outcome of a
  kernel routine, and the generic lemmas on outcomes, lists and 32-bit words that the
  component theories rely on.
\<close>

unbundle bit_operations_syntax

section \<open>Machine types\<close>

type_synonym byte = "8 word"
type_synonym ushort = "16 word"
type_synonym uint = "32 word"
type_synonym addr = "32 word"

section \<open>Outcomes\<close>

text \<open>
  A kernel routine either returns (\<open>Ok\<close>), calls \<^verbatim>\<open>panic\<close> (\<open>Panic\<close> with the message),
  reads or writes through a pointer the C program gives no meaning to (\<open>Fault\<close>: null or
  outside the object), or has to wait for another processor or process (\<open>Block\<close>: it spins
  on a lock or sleeps on a channel).
\<close>

datatype 'a res = Ok 'a | Panic string | Fault | Block

definition bind_res :: "'a res \<Rightarrow> ('a \<Rightarrow> 'b res) \<Rightarrow> 'b res" where
  "bind_res r f = (case r of Ok x \<Rightarrow> f x | Panic m \<Rightarrow> Panic m | Fault \<Rightarrow> Fault | Block \<Rightarrow> Block)"

definition is_ok :: "'a res \<Rightarrow> bool" where
  "is_ok r = (case r of Ok x \<Rightarrow> True | _ \<Rightarrow> False)"

named_theorems res_simps

lemma bind_res_simps [simp, res_simps]:
  "bind_res (Ok x) f = f x"
  "bind_res (Panic m) f = Panic m"
  "bind_res Fault f = Fault"
  "bind_res Block f = Block"
  by (simp_all add: bind_res_def)

lemma bind_res_Ok_iff:
  "bind_res r f = Ok y \<longleftrightarrow> (\<exists>x. r = Ok x \<and> f x = Ok y)"
  by (cases r) simp_all

lemma bind_res_OkE:
  assumes "bind_res r f = Ok y"
  obtains x where "r = Ok x" "f x = Ok y"
  using assms by (auto simp: bind_res_Ok_iff)

lemma bind_res_assoc: "bind_res (bind_res r f) g = bind_res r (\<lambda>x. bind_res (f x) g)"
  by (cases r) simp_all

lemma bind_res_cong [fundef_cong]:
  "r = r' \<Longrightarrow> (\<And>x. r' = Ok x \<Longrightarrow> f x = g x) \<Longrightarrow> bind_res r f = bind_res r' g"
  by (cases r') simp_all

lemma is_ok_simps [simp, res_simps]:
  "is_ok (Ok x)" "\<not> is_ok (Panic m)" "\<not> is_ok Fault" "\<not> is_ok Block"
  by (simp_all add: is_ok_def)

lemma is_ok_iff: "is_ok r \<longleftrightarrow> (\<exists>x. r = Ok x)"
  by (cases r) simp_all

section \<open>Lists\<close>

lemma nth_list_update_if:
  "i < length xs \<Longrightarrow> (xs[i := v]) ! j = (if i = j then v else xs ! j)"
  by simp

text \<open>The first index from \<open>i\<close> on whose element satisfies \<open>P\<close>: the shape of every
  \<^verbatim>\<open>for(i = 0; i < N; i++) if(...) goto found\<close> loop of the kernel.\<close>

fun find_index :: "('a \<Rightarrow> bool) \<Rightarrow> 'a list \<Rightarrow> nat option" where
  "find_index P [] = None"
| "find_index P (x # xs) = (if P x then Some 0 else map_option Suc (find_index P xs))"

lemma find_index_None: "find_index P xs = None \<longleftrightarrow> (\<forall>x \<in> set xs. \<not> P x)"
  by (induction xs) auto

lemma find_index_Some:
  "find_index P xs = Some i \<longleftrightarrow> i < length xs \<and> P (xs ! i) \<and> (\<forall>j < i. \<not> P (xs ! j))"
proof (induction xs arbitrary: i)
  case Nil
  then show ?case by simp
next
  case (Cons x xs)
  show ?case
  proof (cases i)
    case 0
    then show ?thesis by auto
  next
    case (Suc k)
    then show ?thesis using Cons.IH [of k]
      by (auto simp: less_Suc_eq_0_disj)
  qed
qed

lemma find_index_SomeD:
  assumes "find_index P xs = Some i"
  shows "i < length xs" "P (xs ! i)" "\<And>j. j < i \<Longrightarrow> \<not> P (xs ! j)"
  using assms by (auto simp: find_index_Some)

section \<open>Words\<close>

lemma uint_no_wrap:
  fixes a b :: uint
  assumes "unat a + unat b < 4294967296"
  shows "unat (a + b) = unat a + unat b"
  using assms by (simp add: unat_word_ariths)

lemma unat_of_nat_small:
  "n < 4294967296 \<Longrightarrow> unat (word_of_nat n :: uint) = n"
  by (simp add: unat_of_nat take_bit_nat_eq_self)

end
