(* ===== verification/Mmu.thy ===== *)
theory Mmu
  imports Prelude
begin

text \<open>
  The address arithmetic of memlayout.h and mmu.h: conversion between physical and kernel
  virtual addresses, page rounding, and the three-part structure of a virtual address.
\<close>

section \<open>Constants\<close>

definition EXTMEM :: addr where "EXTMEM = 0x100000"
definition PHYSTOP :: addr where "PHYSTOP = 0xE000000"
definition DEVSPACE :: addr where "DEVSPACE = 0xFE000000"
definition KERNBASE :: addr where "KERNBASE = 0x80000000"
definition KERNLINK :: addr where "KERNLINK = KERNBASE + EXTMEM"
definition PGSIZE :: uint where "PGSIZE = 4096"
definition NPDENTRIES :: nat where "NPDENTRIES = 1024"

definition PTE_P :: uint where "PTE_P = 0x001"
definition PTE_W :: uint where "PTE_W = 0x002"
definition PTE_U :: uint where "PTE_U = 0x004"

lemmas layout_defs = EXTMEM_def PHYSTOP_def DEVSPACE_def KERNBASE_def KERNLINK_def
lemmas pte_flag_defs = PTE_P_def PTE_W_def PTE_U_def

section \<open>Address arithmetic\<close>

definition V2P :: "addr \<Rightarrow> uint" where "V2P a = a - KERNBASE"
definition P2V :: "uint \<Rightarrow> addr" where "P2V a = a + KERNBASE"

definition PDX :: "addr \<Rightarrow> uint" where "PDX va = drop_bit 22 va AND 0x3FF"
definition PTX :: "addr \<Rightarrow> uint" where "PTX va = drop_bit 12 va AND 0x3FF"
definition PGADDR :: "uint \<Rightarrow> uint \<Rightarrow> uint \<Rightarrow> addr" where
  "PGADDR d t off = push_bit 22 d OR push_bit 12 t OR off"

definition PGROUNDUP :: "uint \<Rightarrow> uint" where
  "PGROUNDUP sz = (sz + PGSIZE - 1) AND NOT (PGSIZE - 1)"
definition PGROUNDDOWN :: "uint \<Rightarrow> uint" where
  "PGROUNDDOWN a = a AND NOT (PGSIZE - 1)"

definition PTE_ADDR :: "uint \<Rightarrow> uint" where "PTE_ADDR pte = pte AND NOT 0xFFF"
definition PTE_FLAGS :: "uint \<Rightarrow> uint" where "PTE_FLAGS pte = pte AND 0xFFF"

definition page_aligned :: "addr \<Rightarrow> bool" where
  "page_aligned a \<longleftrightarrow> a mod PGSIZE = 0"

lemma V2P_P2V [simp]: "V2P (P2V a) = a"
  by (simp add: V2P_def P2V_def)

lemma P2V_V2P [simp]: "P2V (V2P a) = a"
  by (simp add: V2P_def P2V_def)

lemma V2P_inj [simp]: "V2P a = V2P b \<longleftrightarrow> a = b"
  by (simp add: V2P_def)

lemma P2V_inj [simp]: "P2V a = P2V b \<longleftrightarrow> a = b"
  by (simp add: P2V_def)

subsection \<open>Rounding\<close>

lemma unat_uint_less: "unat (a :: uint) < 4294967296"
  using unsigned_less [of a] by simp

lemma m4096_mask: "(- 4096 :: uint) = NOT (mask 12)"
  by (simp add: mask_eq_exp_minus_1)

lemma and_m4096: "(a :: uint) AND - 4096 = push_bit 12 (drop_bit 12 a)"
  unfolding m4096_mask by (rule bit_word_eqI) (auto simp: bit_simps)

lemma unat_and_m4096: "unat ((a :: uint) AND - 4096) = unat a div 4096 * 4096"
proof -
  have "unat a div 4096 * 4096 < 4294967296"
    using unat_uint_less [of a] by linarith
  then show ?thesis
    by (simp add: and_m4096 push_bit_eq_mult drop_bit_eq_div unat_word_ariths unat_div)
qed

lemma unat_PGROUNDDOWN: "unat (PGROUNDDOWN a) = unat a div 4096 * 4096"
  by (simp add: PGROUNDDOWN_def PGSIZE_def unat_and_m4096)

lemma unat_PTE_ADDR: "unat (PTE_ADDR a) = unat a div 4096 * 4096"
  by (simp add: PTE_ADDR_def unat_and_m4096)

lemma unat_mod_4096: "unat ((a :: uint) mod 4096) = unat a mod 4096"
  by (simp add: unat_mod)

lemma page_aligned_unat: "page_aligned a \<longleftrightarrow> unat a mod 4096 = 0"
  unfolding page_aligned_def PGSIZE_def unat_mod_4096 [symmetric] by (simp only: unat_eq_zero)

lemma page_aligned_0 [simp]: "page_aligned 0"
  by (simp add: page_aligned_def)

lemma page_aligned_PGROUNDDOWN [simp]: "page_aligned (PGROUNDDOWN a)"
  by (simp add: page_aligned_unat unat_PGROUNDDOWN)

lemma page_aligned_PTE_ADDR [simp]: "page_aligned (PTE_ADDR a)"
  by (simp add: page_aligned_unat unat_PTE_ADDR)

lemma PGROUNDDOWN_id: "page_aligned a \<Longrightarrow> PGROUNDDOWN a = a"
  using div_mult_mod_eq [of "unat a" 4096]
  by (simp add: page_aligned_unat word_unat_eq_iff unat_PGROUNDDOWN)

lemma PGROUNDDOWN_le: "PGROUNDDOWN a \<le> a"
  by (simp add: word_le_nat_alt unat_PGROUNDDOWN)

text \<open>Without wrap-around, rounding up gives the least multiple of the page size above.\<close>

lemma unat_PGROUNDUP:
  assumes "unat a \<le> 4294963200"
  shows "unat (PGROUNDUP a) = (unat a + 4095) div 4096 * 4096"
proof -
  have "unat (a + 4095) = unat a + 4095"
    using assms by (simp add: unat_word_ariths)
  then show ?thesis
    by (simp add: PGROUNDUP_def PGSIZE_def unat_and_m4096 add.commute)
qed

lemma PGROUNDUP_ge:
  assumes "unat a \<le> 4294963200"
  shows "a \<le> PGROUNDUP a"
proof -
  have "unat a + 4095 < (unat a + 4095) div 4096 * 4096 + 4096"
    using dividend_less_div_times [of 4096 "unat a + 4095"] by simp
  then show ?thesis unfolding word_le_nat_alt unat_PGROUNDUP [OF assms] by linarith
qed

lemma page_aligned_PGROUNDUP [simp]: "page_aligned (PGROUNDUP a)"
  by (simp add: PGROUNDUP_def PGSIZE_def page_aligned_unat unat_and_m4096)

lemma unat_diff_KERNBASE_mod: "unat (a - 0x80000000 :: uint) mod 4096 = unat a mod 4096"
proof -
  have eq: "unat (a - 0x80000000) =
    (if 2147483648 \<le> unat a then unat a - 2147483648 else unat a + 2147483648)"
    using unat_uint_less [of a] by (simp add: unat_sub_if')
  have shift: "(k + 2147483648) mod 4096 = k mod 4096" for k :: nat
    using mod_mult_self1 [of k 524288 4096] by simp
  show ?thesis
    using shift [of "unat a - 2147483648"] shift [of "unat a"]
    by (cases "2147483648 \<le> unat a") (simp_all add: eq)
qed

lemma page_aligned_V2P [simp]: "page_aligned (V2P a) = page_aligned a"
  by (simp add: page_aligned_unat V2P_def KERNBASE_def unat_diff_KERNBASE_mod)

lemma page_aligned_P2V [simp]: "page_aligned (P2V a) = page_aligned a"
  using page_aligned_V2P [of "P2V a"] by simp

lemma page_aligned_add_PGSIZE [simp]: "page_aligned (a + PGSIZE) = page_aligned a"
proof -
  have "unat (a + 4096 :: uint) mod 4096 = unat a mod 4096"
    using mod_mod_cancel [of 4096 "4294967296 :: nat" "unat a + 4096"]
    by (simp add: unat_word_ariths)
  then show ?thesis by (simp add: page_aligned_unat PGSIZE_def)
qed

subsection \<open>The parts of a virtual address\<close>

lemma mask10: "(0x3FF :: uint) = mask 10"
  by (simp add: mask_eq_exp_minus_1)

lemma mask12: "(0xFFF :: uint) = mask 12"
  by (simp add: mask_eq_exp_minus_1)

lemma unat_PDX: "unat (PDX va) = unat va div 4194304"
  unfolding PDX_def mask10 using unat_uint_less [of va]
  by (simp add: drop_bit_eq_div take_bit_eq_mod unat_div unat_mod flip: take_bit_eq_mask)

lemma unat_PTX: "unat (PTX va) = unat va div 4096 mod 1024"
  unfolding PTX_def mask10
  by (simp add: take_bit_eq_mod drop_bit_eq_div unat_div unat_mod flip: take_bit_eq_mask)

lemma unat_PTE_FLAGS: "unat (PTE_FLAGS a) = unat a mod 4096"
  unfolding PTE_FLAGS_def mask12
  by (simp add: take_bit_eq_mod unat_mod flip: take_bit_eq_mask)

lemma PDX_bound [simp]: "unat (PDX va) < 1024"
  using unat_uint_less [of va] by (simp add: unat_PDX)

lemma PTX_bound [simp]: "unat (PTX va) < 1024"
  by (simp add: unat_PTX)

lemma PGADDR_add:
  assumes "unat d < 1024" "unat t < 1024" "unat off < 4096"
  shows "PGADDR d t off = 4194304 * d + 4096 * t + off"
proof -
  from assms have "off = take_bit 12 off" "t = take_bit 10 t"
    by (simp_all add: take_bit_eq_mod word_unat_eq_iff unat_mod)
  then have lo: "\<And>n. bit off n \<Longrightarrow> n < 12" "\<And>n. bit t n \<Longrightarrow> n < 10"
    by (metis bit_take_bit_iff)+
  have 1: "push_bit 12 t AND off = 0" and 2: "push_bit 22 d AND (push_bit 12 t OR off) = 0"
    using lo by (auto intro!: bit_word_eqI simp: bit_simps; fastforce)+
  have "PGADDR d t off = push_bit 22 d + (push_bit 12 t + off)"
    unfolding PGADDR_def
    by (simp only: or.assoc disjunctive_add_eq_or [OF 1] disjunctive_add_eq_or [OF 2])
  then show ?thesis by (simp add: push_bit_eq_mult mult.commute add.assoc)
qed

lemma unat_PGADDR:
  assumes "unat d < 1024" "unat t < 1024" "unat off < 4096"
  shows "unat (PGADDR d t off) = 4194304 * unat d + 4096 * unat t + unat off"
proof -
  have "4194304 * unat d + 4096 * unat t + unat off < 4294967296"
    using assms by linarith
  then show ?thesis
    by (simp add: PGADDR_add [OF assms] unat_word_ariths mod_simps)
qed

lemma addr_parts_nat:
  "4194304 * (n div 4194304) + 4096 * (n div 4096 mod 1024) + n mod 4096 = (n :: nat)"
proof -
  have "n div 4194304 = n div 4096 div 1024"
    by (simp flip: div_mult2_eq)
  then have "4194304 * (n div 4194304) + 4096 * (n div 4096 mod 1024) = 4096 * (n div 4096)"
    using mult_div_mod_eq [of 1024 "n div 4096"] by linarith
  then show ?thesis by simp
qed

lemma PGADDR_split: "PGADDR (PDX va) (PTX va) (PTE_FLAGS va) = va"
proof -
  have "unat (PGADDR (PDX va) (PTX va) (PTE_FLAGS va)) =
      4194304 * unat (PDX va) + 4096 * unat (PTX va) + unat (PTE_FLAGS va)"
    by (rule unat_PGADDR) (simp_all add: unat_PTE_FLAGS)
  then show ?thesis
    by (simp add: word_unat_eq_iff unat_PDX unat_PTX unat_PTE_FLAGS addr_parts_nat)
qed

lemma PDX_PTX_PGADDR:
  assumes "unat d < 1024" "unat t < 1024" "unat off < 4096"
  shows "PDX (PGADDR d t off) = d" "PTX (PGADDR d t off) = t" "PTE_FLAGS (PGADDR d t off) = off"
proof -
  have n: "unat (PGADDR d t off) = unat off + 4096 * (1024 * unat d + unat t)"
    using assms by (simp add: unat_PGADDR)
  show "PDX (PGADDR d t off) = d"
    using assms by (simp add: word_unat_eq_iff unat_PDX unat_PGADDR)
  show "PTX (PGADDR d t off) = t"
    using assms by (simp add: word_unat_eq_iff unat_PTX n del: distrib_left_numeral)
  show "PTE_FLAGS (PGADDR d t off) = off"
    using assms by (simp add: word_unat_eq_iff unat_PTE_FLAGS n del: distrib_left_numeral)
qed

text \<open>Two page-aligned addresses with the same directory and table index are equal.\<close>

lemma PDX_PTX_inj:
  assumes "page_aligned a" "page_aligned b" "PDX a = PDX b" "PTX a = PTX b"
  shows "a = b"
proof -
  have "PTE_FLAGS a = PTE_FLAGS b"
    using assms(1,2) by (simp add: word_unat_eq_iff unat_PTE_FLAGS page_aligned_unat)
  then show ?thesis
    using assms(3,4) by (metis PGADDR_split)
qed

subsection \<open>Page table entries\<close>

lemma flags_take_bit: "unat (f :: uint) < 4096 \<longleftrightarrow> take_bit 12 f = f"
proof -
  have "take_bit 12 f = f \<longleftrightarrow> unat f mod 4096 = unat f"
    by (simp add: take_bit_eq_mod word_unat_eq_iff unat_mod)
  also have "\<dots> \<longleftrightarrow> unat f < 4096"
    by (metis mod_less mod_less_divisor zero_less_numeral)
  finally show ?thesis by simp
qed

lemma pte_or_add:
  assumes "page_aligned a" "unat f < 4096"
  shows "a OR f = a + f"
proof -
  have a: "push_bit 12 (drop_bit 12 a) = a"
    using PGROUNDDOWN_id [OF assms(1)] by (simp add: PGROUNDDOWN_def PGSIZE_def and_m4096)
  have f: "take_bit 12 f = f"
    using assms(2) by (simp add: flags_take_bit)
  have "push_bit 12 (drop_bit 12 a) AND take_bit 12 f = 0"
    by (rule bit_word_eqI) (simp add: bit_simps)
  then have "a AND f = 0" by (simp add: a f)
  then show ?thesis by (simp add: disjunctive_add_eq_or)
qed

lemma page_room: "page_aligned a \<Longrightarrow> unat a \<le> 4294963200"
  using unat_uint_less [of a] by (auto simp: page_aligned_unat)

lemma unat_pte_or:
  assumes "page_aligned a" "unat f < 4096"
  shows "unat (a OR f) = unat a + unat f"
proof -
  have "unat a + unat f < 4294967296"
    using assms page_room [of a] by linarith
  then show ?thesis by (simp add: pte_or_add [OF assms] unat_word_ariths)
qed

lemma PTE_ADDR_or [simp]:
  assumes "page_aligned a" "unat f < 4096"
  shows "PTE_ADDR (a OR f) = a"
proof -
  have "(unat a + unat f) div 4096 * 4096 = unat a"
    using assms by (auto simp: page_aligned_unat)
  then show ?thesis
    using assms by (simp add: word_unat_eq_iff unat_PTE_ADDR unat_pte_or)
qed

lemma PTE_FLAGS_or [simp]:
  assumes "page_aligned a" "unat f < 4096"
  shows "PTE_FLAGS (a OR f) = f"
proof -
  have "(unat a + unat f) mod 4096 = unat f"
    using assms by (auto simp: page_aligned_unat)
  then show ?thesis
    using assms by (simp add: word_unat_eq_iff unat_PTE_FLAGS unat_pte_or)
qed

lemma or_flags_less:
  fixes f g :: uint
  assumes "unat f < 4096" "unat g < 4096"
  shows "unat (f OR g) < 4096"
  using assms by (simp add: flags_take_bit)

lemma PTE_P_or [simp]: "(x OR PTE_P) AND PTE_P = PTE_P"
  by (rule bit_word_eqI) (auto simp: bit_simps)
lemma PTE_P_neq0 [simp]: "PTE_P \<noteq> 0" by (simp add: PTE_P_def)
lemma PTE_P_or3 [simp]: "(x OR PTE_P OR y OR z) AND PTE_P = PTE_P"
  by (rule bit_word_eqI) (auto simp: bit_simps)

lemma PTE_P_or2 [simp]: "(x OR y OR PTE_P) AND PTE_P = PTE_P"
  by (rule bit_word_eqI) (auto simp: bit_simps)

subsection \<open>Ranges of pages\<close>

lemma page_aligned_dvd: "page_aligned a \<longleftrightarrow> 4096 dvd unat a"
  by (simp add: page_aligned_unat dvd_eq_mod_eq_0)

lemma page_aligned_minus [simp]:
  assumes "page_aligned a" "page_aligned b"
  shows "page_aligned (a - b)"
proof (cases "unat b \<le> unat a")
  case True
  then show ?thesis using assms by (simp add: page_aligned_dvd unat_sub_if' dvd_diff_nat)
next
  case False
  have "(4096 :: nat) dvd 4294967296" by simp
  then have "4096 dvd unat a + 4294967296 - unat b"
    using assms by (intro dvd_diff_nat dvd_add) (simp_all add: page_aligned_dvd)
  then show ?thesis using False by (simp add: page_aligned_dvd unat_sub_if')
qed

lemma page_aligned_ge: "page_aligned a \<Longrightarrow> a \<noteq> 0 \<Longrightarrow> PGSIZE \<le> a"
  using dvd_imp_le [of 4096 "unat a"]
  by (simp add: page_aligned_dvd PGSIZE_def word_le_nat_alt unat_gt_0)

lemma PDX_PTX_page_of [simp]: "PDX (PGROUNDDOWN x) = PDX x" "PTX (PGROUNDDOWN x) = PTX x"
proof -
  have "unat x div 4096 * 4096 div 4194304 = unat x div 4194304"
    using div_mult2_eq [of "unat x" 4096 1024] div_mult2_eq [of "unat x div 4096 * 4096" 4096 1024] by simp
  then show "PDX (PGROUNDDOWN x) = PDX x"
    by (simp add: word_unat_eq_iff unat_PDX unat_PGROUNDDOWN)
  show "PTX (PGROUNDDOWN x) = PTX x"
    by (simp add: word_unat_eq_iff unat_PTX unat_PGROUNDDOWN)
qed

lemma same_page_iff:
  assumes "page_aligned a"
  shows "PDX x = PDX a \<and> PTX x = PTX a \<longleftrightarrow> PGROUNDDOWN x = a"
  using PDX_PTX_inj [of "PGROUNDDOWN x" a] assms by auto

lemma range_step:
  assumes "page_aligned a" "page_aligned lst" "page_aligned q" "a \<noteq> lst"
  shows "q - (a + PGSIZE) \<le> lst - (a + PGSIZE) \<longleftrightarrow> q \<noteq> a \<and> q - a \<le> lst - a"
proof -
  have l: "4096 \<le> unat (lst - a)"
    using page_aligned_ge [of "lst - a"] assms by (simp add: PGSIZE_def word_le_nat_alt)
  have eq: "q - (a + PGSIZE) = q - a - PGSIZE" "lst - (a + PGSIZE) = lst - a - PGSIZE"
    by (simp_all only: diff_diff_add)
  have l': "unat (lst - a - PGSIZE) = unat (lst - a) - 4096"
    using l by (simp add: PGSIZE_def unat_sub_if')
  show ?thesis
  proof (cases "q = a")
    case True
    have "unat (lst - a) < 4294967296" by (rule unat_uint_less)
    moreover have "unat (0 - PGSIZE) = 4294963200" by (simp add: PGSIZE_def)
    ultimately show ?thesis using True l l' unfolding eq by (simp add: word_le_nat_alt)
  next
    case False
    then have "4096 \<le> unat (q - a)"
      using page_aligned_ge [of "q - a"] assms by (simp add: PGSIZE_def word_le_nat_alt)
    moreover from this have "unat (q - a - PGSIZE) = unat (q - a) - 4096"
      by (simp add: PGSIZE_def unat_sub_if')
    ultimately show ?thesis using False l l' unfolding eq word_le_nat_alt by auto
  qed
qed

lemma next_page_le:
  assumes "page_aligned a" "page_aligned q" "a < a + PGSIZE"
  shows "a \<le> q \<longleftrightarrow> q = a \<or> a + PGSIZE \<le> q"
proof
  assume le: "a \<le> q"
  have u: "unat (a + PGSIZE) = unat a + 4096"
    using assms(3) page_room [OF assms(1)]
    by (cases "unat a + 4096 < 4294967296") (auto simp: PGSIZE_def unat_word_ariths word_less_nat_alt not_less)
  show "q = a \<or> a + PGSIZE \<le> q"
  proof (cases "q = a")
    case False
    then have "PGSIZE \<le> q - a" using assms by (intro page_aligned_ge) auto
    then have "4096 \<le> unat q - unat a" using le by (simp add: word_le_nat_alt unat_sub_if' PGSIZE_def)
    then show ?thesis unfolding word_le_nat_alt u by linarith
  qed simp
qed (use assms(3) in auto)

lemma PGROUNDDOWN_one_page: "page_aligned a \<Longrightarrow> PGROUNDDOWN (a + PGSIZE - 1) = a"
proof -
  assume a: "page_aligned a"
  then obtain k where k: "unat a = 4096 * k" by (auto simp: page_aligned_dvd)
  have eq: "a + PGSIZE - 1 = a + 4095" by (simp add: PGSIZE_def)
  have "k < 1048576" using unat_uint_less [of a] k by simp
  then have "unat a + 4095 < 4294967296" using k by linarith
  then have "unat (a + 4095) = 4096 * k + 4095" using k by (simp add: unat_word_ariths)
  moreover have "(4096 * k + 4095) div 4096 = k" by simp
  ultimately show ?thesis unfolding eq word_unat_eq_iff unat_PGROUNDDOWN using k by simp
qed

lemma page_le_minus:
  assumes "page_aligned q" "page_aligned c" "c \<noteq> 0"
  shows "q \<le> c - PGSIZE \<longleftrightarrow> q < c"
proof -
  obtain k l where "unat q = 4096 * k" "unat c = 4096 * l" using assms by (auto simp: page_aligned_dvd elim!: dvdE)
  moreover from this(2) have "l \<noteq> 0" using assms(3) by (auto simp: word_unat_eq_iff)
  ultimately show ?thesis
    by (auto simp: word_le_nat_alt word_less_nat_alt PGSIZE_def unat_sub_if')
qed

lemma PGROUNDDOWN_minus_1:
  assumes "page_aligned c"
  shows "PGROUNDDOWN (c - 1) = c - PGSIZE"
proof -
  have "c - PGSIZE + PGSIZE - 1 = c - 1" by simp
  then show ?thesis using PGROUNDDOWN_one_page [of "c - PGSIZE"] assms
    by (metis page_aligned_add_PGSIZE diff_add_cancel)
qed

lemma PTE_FLAGS_P: "e AND PTE_P \<noteq> 0 \<Longrightarrow> PTE_FLAGS e OR PTE_P = PTE_FLAGS e"
proof -
  assume "e AND PTE_P \<noteq> 0"
  then have "bit e 0" by (simp add: PTE_P_def and_one_eq odd_iff_mod_2_eq_one bit_0 flip: odd_iff_mod_2_eq_one)
  then show ?thesis
    by (intro bit_word_eqI) (auto simp: PTE_FLAGS_def mask12 bit_simps PTE_P_def)
qed

end
