(* ===== verification/Memory.thy ===== *)
theory Memory
  imports Mmu
begin

text \<open>
  Physical memory as the kernel sees it: one byte per kernel virtual address. 32-bit loads
  and stores are little-endian, as on the x86. The lemmas say when an access leaves another
  access, or a whole page, alone.
\<close>

type_synonym mem = "addr \<Rightarrow> byte"

section \<open>Loads and stores\<close>

definition load32 :: "mem \<Rightarrow> addr \<Rightarrow> uint" where
  "load32 m a = ucast (m a) OR push_bit 8 (ucast (m (a + 1)))
     OR push_bit 16 (ucast (m (a + 2))) OR push_bit 24 (ucast (m (a + 3)))"

definition store32 :: "mem \<Rightarrow> addr \<Rightarrow> uint \<Rightarrow> mem" where
  "store32 m a v = m(a := ucast v, a + 1 := ucast (drop_bit 8 v),
     a + 2 := ucast (drop_bit 16 v), a + 3 := ucast (drop_bit 24 v))"

text \<open>The x86 \<^verbatim>\<open>rep stosb\<close> (x86.h): fill \<open>n\<close> bytes from \<open>dst\<close> with \<open>c\<close>.\<close>

definition stosb :: "mem \<Rightarrow> addr \<Rightarrow> byte \<Rightarrow> nat \<Rightarrow> mem" where
  "stosb m dst c n = (\<lambda>x. if unat (x - dst) < n then c else m x)"

definition aligned4 :: "addr \<Rightarrow> bool" where
  "aligned4 a \<longleftrightarrow> unat a mod 4 = 0"

abbreviation page_of :: "addr \<Rightarrow> addr" where
  "page_of \<equiv> PGROUNDDOWN"

lemma load32_store32_same [simp]: "load32 (store32 m a v) a = v"
proof -
  have ne: "a + 1 \<noteq> a" "a + 2 \<noteq> a" "a + 3 \<noteq> a" "a + 2 \<noteq> a + 1" "a + 3 \<noteq> a + 1" "a + 3 \<noteq> a + 2"
    by simp_all
  show ?thesis
  proof (rule bit_word_eqI)
    fix n assume "n < LENGTH(32)"
    consider "n < 8" | "8 \<le> n" "n < 16" | "16 \<le> n" "n < 24" | "24 \<le> n" by linarith
    then show "bit (load32 (store32 m a v) a) n = bit v n"
      unfolding load32_def store32_def using \<open>n < LENGTH(32)\<close>
      by cases (auto simp: ne bit_simps)
  qed
qed

lemma unat_add_aligned4:
  assumes "aligned4 a" "k < 4"
  shows "unat (a + word_of_nat k) = unat a + k"
proof -
  have "unat a + k < 4294967296"
    using assms unat_uint_less [of a] by (auto simp: aligned4_def)
  then show ?thesis
    using assms(2) by (simp add: unat_word_ariths unat_of_nat_small)
qed

lemma aligned4_offsets_differ:
  assumes "aligned4 a" "aligned4 b" "a \<noteq> b" "i < 4" "j < 4"
  shows "a + word_of_nat i \<noteq> b + word_of_nat j"
proof
  assume "a + word_of_nat i = b + word_of_nat j"
  then have eq: "unat a + i = unat b + j"
    using assms unat_add_aligned4 by metis
  have "unat a div 4 = (unat a + i) div 4" "unat b div 4 = (unat b + j) div 4"
    using assms by (simp_all add: aligned4_def div_add1_eq)
  then have "unat a div 4 = unat b div 4" using eq by simp
  then have "unat a = unat b"
    using assms(1,2) by (metis aligned4_def mod_0_imp_dvd dvd_mult_div_cancel)
  then show False using assms(3) by (simp add: word_unat_eq_iff)
qed

lemma load32_store32_other:
  assumes "aligned4 a" "aligned4 b" "a \<noteq> b"
  shows "load32 (store32 m a v) b = load32 m b"
proof -
  have "\<And>i j. i < 4 \<Longrightarrow> j < 4 \<Longrightarrow> b + word_of_nat i \<noteq> a + word_of_nat j"
    using aligned4_offsets_differ assms by metis
  from this [of 0 0] this [of 0 1] this [of 0 2] this [of 0 3]
    this [of 1 0] this [of 1 1] this [of 1 2] this [of 1 3]
    this [of 2 0] this [of 2 1] this [of 2 2] this [of 2 3]
    this [of 3 0] this [of 3 1] this [of 3 2] this [of 3 3]
  show ?thesis
    unfolding load32_def store32_def by simp
qed

section \<open>Pages\<close>

lemma page_of_eq_iff: "page_of x = page_of y \<longleftrightarrow> unat x div 4096 = unat y div 4096"
  by (simp add: word_unat_eq_iff unat_PGROUNDDOWN)

lemma page_of_page [simp]: "page_aligned p \<Longrightarrow> page_of p = p"
  by (rule PGROUNDDOWN_id)

lemma page_of_add:
  assumes "page_aligned p" "unat off < 4096"
  shows "page_of (p + off) = p"
proof -
  have u: "unat (p + off) = unat p + unat off"
    using assms page_room [of p] by (simp add: unat_word_ariths)
  have "(unat p + unat off) div 4096 = unat p div 4096"
    using assms by (simp add: page_aligned_unat div_add1_eq)
  then have "page_of (p + off) = page_of p"
    unfolding page_of_eq_iff u .
  then show ?thesis using assms by simp
qed

lemma in_page_iff:
  assumes "page_aligned p"
  shows "page_of x = p \<longleftrightarrow> unat (x - p) < 4096"
proof
  assume "page_of x = p"
  then have "unat p = unat x div 4096 * 4096"
    using unat_PGROUNDDOWN [of x] by simp
  then show "unat (x - p) < 4096"
    by (simp add: unat_sub word_le_nat_alt)
next
  assume "unat (x - p) < 4096"
  then show "page_of x = p"
    using page_of_add [OF assms, of "x - p"] by simp
qed

lemma page_of_aligned4:
  assumes "aligned4 a" "i < 4"
  shows "page_of (a + word_of_nat i) = page_of a"
proof -
  have "(unat a + i) div 4 = unat a div 4"
    using assms by (simp add: aligned4_def div_add1_eq)
  then have "(unat a + i) div 4 div 1024 = unat a div 4 div 1024" by simp
  then show ?thesis
    by (simp add: page_of_eq_iff unat_add_aligned4 [OF assms] flip: div_mult2_eq)
qed

lemma page_of_aligned4_simps:
  assumes "aligned4 a"
  shows "page_of (a + 1) = page_of a" "page_of (a + 2) = page_of a" "page_of (a + 3) = page_of a"
  using page_of_aligned4 [OF assms, of 1] page_of_aligned4 [OF assms, of 2]
    page_of_aligned4 [OF assms, of 3] by simp_all

lemma page_aligned_aligned4: "page_aligned p \<Longrightarrow> aligned4 p"
  using mod_mod_cancel [of 4 4096 "unat p"] by (simp add: page_aligned_unat aligned4_def)

text \<open>Two memories agree on a page.\<close>

definition agree_page :: "addr \<Rightarrow> mem \<Rightarrow> mem \<Rightarrow> bool" where
  "agree_page p m m' \<longleftrightarrow> (\<forall>x. page_of x = p \<longrightarrow> m' x = m x)"

lemma agree_page_refl [simp]: "agree_page p m m"
  by (simp add: agree_page_def)

lemma agree_page_trans: "agree_page p m m' \<Longrightarrow> agree_page p m' m'' \<Longrightarrow> agree_page p m m''"
  by (simp add: agree_page_def)

lemma agree_page_store32:
  assumes "aligned4 a" "page_of a \<noteq> p"
  shows "agree_page p m (store32 m a v)"
  using assms page_of_aligned4_simps [OF assms(1)]
  by (auto simp: agree_page_def store32_def)

lemma load32_agree:
  assumes "agree_page p m m'" "aligned4 a" "page_of a = p"
  shows "load32 m' a = load32 m a"
  using assms page_of_aligned4_simps [OF assms(2)]
  by (simp add: load32_def agree_page_def)

lemma stosb_page:
  assumes "page_aligned p"
  shows "stosb m p c 4096 x = (if page_of x = p then c else m x)"
  using in_page_iff [OF assms] by (simp add: stosb_def)

lemma agree_page_stosb:
  assumes "page_aligned q" "p \<noteq> q"
  shows "agree_page p m (stosb m q c 4096)"
  using assms by (simp add: agree_page_def stosb_page)

lemma load32_stosb_page:
  assumes "page_aligned p" "aligned4 a" "page_of a = p"
  shows "load32 (stosb m p 0 4096) a = 0"
  using assms page_of_aligned4_simps [OF assms(2)]
  by (simp add: load32_def stosb_page)

text \<open>The \<open>i\<close>-th 32-bit entry of a page, as \<^verbatim>\<open>pgdir[i]\<close> addresses it.\<close>

definition entry :: "addr \<Rightarrow> uint \<Rightarrow> addr" where
  "entry p i = p + 4 * i"

lemma unat_entry:
  assumes "page_aligned p" "unat i < 1024"
  shows "unat (entry p i) = unat p + 4 * unat i"
proof -
  have "unat (4 * i) = 4 * unat i" using assms(2) by (simp add: unat_word_ariths)
  moreover have "unat p + 4 * unat i < 4294967296" using assms page_room [of p] by linarith
  ultimately show ?thesis by (simp add: entry_def unat_word_ariths)
qed

lemma page_of_entry [simp]:
  assumes "page_aligned p" "unat i < 1024"
  shows "page_of (entry p i) = p"
  unfolding entry_def using assms by (intro page_of_add) (simp_all add: unat_word_ariths)

lemma aligned4_entry [simp]:
  assumes "page_aligned p" "unat i < 1024"
  shows "aligned4 (entry p i)"
  using page_aligned_aligned4 [OF assms(1)] by (simp add: aligned4_def unat_entry [OF assms])

lemma entry_inj [simp]:
  assumes "page_aligned p" "unat i < 1024" "unat j < 1024"
  shows "entry p i = entry p j \<longleftrightarrow> i = j"
  using assms by (auto simp: word_unat_eq_iff unat_entry)

end
