(* ===== verification/Cstring.thy ===== *)
theory Cstring
  imports Memory
begin

text \<open>
  The kernel's memory and string routines (string.c). \<open>memset\<close> and \<open>memmove\<close> act on
  memory; the comparing and copying routines act on C objects, a byte list holding the bytes
  from the pointer to the end of the object, and \<open>None\<close> stands for a read or write outside it.
\<close>

section \<open>Definitions\<close>

text \<open>\<^verbatim>\<open>rep stosl\<close> (x86.h): store the word \<open>v\<close> at \<open>n\<close> successive words from \<open>dst\<close>.\<close>

fun stosl :: "mem \<Rightarrow> addr \<Rightarrow> uint \<Rightarrow> nat \<Rightarrow> mem" where
  "stosl m dst v 0 = m"
| "stosl m dst v (Suc n) = stosl (store32 m dst v) (dst + 4) v n"

definition memset :: "mem \<Rightarrow> addr \<Rightarrow> uint \<Rightarrow> uint \<Rightarrow> mem" where
  "memset m dst c n =
     (if sint dst mod 4 = 0 \<and> n mod 4 = 0
      then (let c' = c AND 0xFF
            in stosl m dst (push_bit 24 c' OR push_bit 16 c' OR push_bit 8 c' OR c') (unat (n div 4)))
      else stosb m dst (ucast c) (unat n))"

fun move_back :: "mem \<Rightarrow> addr \<Rightarrow> addr \<Rightarrow> nat \<Rightarrow> mem" where
  "move_back m d s 0 = m"
| "move_back m d s (Suc n) = move_back (m(d - 1 := m (s - 1))) (d - 1) (s - 1) n"

fun move_fwd :: "mem \<Rightarrow> addr \<Rightarrow> addr \<Rightarrow> nat \<Rightarrow> mem" where
  "move_fwd m d s 0 = m"
| "move_fwd m d s (Suc n) = move_fwd (m(d := m s)) (d + 1) (s + 1) n"

definition memmove :: "mem \<Rightarrow> addr \<Rightarrow> addr \<Rightarrow> uint \<Rightarrow> mem" where
  "memmove m dst src n =
     (if src < dst \<and> src + n > dst then move_back m (dst + n) (src + n) (unat n)
      else move_fwd m dst src (unat n))"

definition memcpy :: "mem \<Rightarrow> addr \<Rightarrow> addr \<Rightarrow> uint \<Rightarrow> mem" where
  "memcpy m dst src n = memmove m dst src n"

fun memcmp :: "byte list \<Rightarrow> byte list \<Rightarrow> nat \<Rightarrow> int option" where
  "memcmp s1 s2 0 = Some 0"
| "memcmp (c # s1) (d # s2) (Suc n) =
     (if c \<noteq> d then Some (uint c - uint d) else memcmp s1 s2 n)"
| "memcmp _ _ (Suc n) = None"

fun strncmp :: "byte list \<Rightarrow> byte list \<Rightarrow> nat \<Rightarrow> int option" where
  "strncmp p q 0 = Some 0"
| "strncmp (c # p) (d # q) (Suc n) =
     (if c \<noteq> 0 \<and> c = d then strncmp p q n else Some (uint c - uint d))"
| "strncmp _ _ (Suc n) = None"

text \<open>The first loop of \<^verbatim>\<open>strncpy\<close> copies up to and including the NUL, the second pads.\<close>

fun strncpy_pad :: "byte list \<Rightarrow> nat \<Rightarrow> byte list option" where
  "strncpy_pad s 0 = Some s"
| "strncpy_pad (x # s) (Suc n) = map_option (\<lambda>r. 0 # r) (strncpy_pad s n)"
| "strncpy_pad [] (Suc n) = None"

fun strncpy_nat :: "byte list \<Rightarrow> byte list \<Rightarrow> nat \<Rightarrow> byte list option" where
  "strncpy_nat s t 0 = Some s"
| "strncpy_nat (x # s) (c # t) (Suc n) =
     map_option (\<lambda>r. c # r) (if c \<noteq> 0 then strncpy_nat s t n else strncpy_pad s n)"
| "strncpy_nat _ _ (Suc n) = None"

definition strncpy :: "byte list \<Rightarrow> byte list \<Rightarrow> int \<Rightarrow> byte list option" where
  "strncpy s t n = strncpy_nat s t (nat n)"

text \<open>\<^verbatim>\<open>while(--n > 0 && (*s++ = *t++) != 0); *s = 0\<close>, with \<open>n\<close> the value before the decrement.
  After a NUL was copied the final store hits the byte after it.\<close>

fun safestrcpy_nat :: "byte list \<Rightarrow> byte list \<Rightarrow> nat \<Rightarrow> byte list option" where
  "safestrcpy_nat (x # s) t 0 = Some (0 # s)"
| "safestrcpy_nat (x # s) t (Suc 0) = Some (0 # s)"
| "safestrcpy_nat (x # s) (c # t) (Suc (Suc n)) =
     map_option (\<lambda>r. c # r)
       (if c \<noteq> 0 then safestrcpy_nat s t (Suc n)
        else case s of [] \<Rightarrow> None | y # s' \<Rightarrow> Some (0 # s'))"
| "safestrcpy_nat _ _ _ = None"

definition safestrcpy :: "byte list \<Rightarrow> byte list \<Rightarrow> int \<Rightarrow> byte list option" where
  "safestrcpy s t n = (if n \<le> 0 then Some s else safestrcpy_nat s t (nat n))"

fun strlen :: "byte list \<Rightarrow> nat option" where
  "strlen [] = None"
| "strlen (c # s) = (if c = 0 then Some 0 else map_option Suc (strlen s))"

section \<open>Filling memory\<close>

lemma store32_bytes:
  fixes c :: byte
  assumes "v = push_bit 24 (ucast c) OR push_bit 16 (ucast c) OR push_bit 8 (ucast c) OR ucast c"
  shows "store32 m dst v x = (if unat (x - dst) < 4 then c else m x)"
proof -
  have b: "ucast v = c" "ucast (drop_bit 8 v) = c" "ucast (drop_bit 16 v) = c"
    "ucast (drop_bit 24 v) = c"
    unfolding assms by (rule bit_word_eqI, auto simp: bit_simps dest: bit_imp_le_length)+
  have "unat (x - dst) < 4 \<longleftrightarrow> x - dst = 0 \<or> x - dst = 1 \<or> x - dst = 2 \<or> x - dst = 3"
    by (auto simp: word_unat_eq_iff)
  then have "unat (x - dst) < 4 \<longleftrightarrow> x = dst \<or> x = dst + 1 \<or> x = dst + 2 \<or> x = dst + 3"
    by (auto simp: algebra_simps)
  then show ?thesis by (auto simp: store32_def b)
qed

lemma unat_minus_4:
  "unat (y - 4 :: uint) = (if 4 \<le> unat y then unat y - 4 else unat y + 4294967292)"
  using unat_sub_if' [of y 4] unat_uint_less [of y] by simp

lemma unat_minus_1:
  "unat (y - 1 :: uint) = (if unat y = 0 then 4294967295 else unat y - 1)"
  using unat_sub_if' [of y 1] unat_uint_less [of y] by auto

lemma stosl_eq_stosb:
  fixes c :: byte
  assumes "v = push_bit 24 (ucast c) OR push_bit 16 (ucast c) OR push_bit 8 (ucast c) OR ucast c"
    and "4 * n \<le> 4294967296"
  shows "stosl m dst v n = stosb m dst c (4 * n)"
  using assms(2)
proof (induction n arbitrary: m dst)
  case 0
  then show ?case by (simp add: stosb_def)
next
  case (Suc n)
  have "stosl m dst v (Suc n) x = stosb m dst c (4 * Suc n) x" for x
  proof -
    have "stosl m dst v (Suc n) x = stosb (store32 m dst v) (dst + 4) c (4 * n) x"
      using Suc by simp
    also have "\<dots> = (if unat (x - dst - 4) < 4 * n then c
        else if unat (x - dst) < 4 then c else m x)"
      by (simp add: stosb_def store32_bytes [OF assms(1)] diff_diff_add)
    also have "\<dots> = stosb m dst c (4 * Suc n) x"
      using Suc.prems unfolding stosb_def unat_minus_4 by auto
    finally show ?thesis .
  qed
  then show ?case by blast
qed

lemma memset_eq_stosb: "memset m dst c n = stosb m dst (ucast c) (unat n)"
proof (cases "sint dst mod 4 = 0 \<and> n mod 4 = 0")
  case True
  let ?c = "ucast c :: byte"
  have ff: "(0xFF :: uint) = mask 8" by (simp add: mask_eq_exp_minus_1)
  have "ucast ?c = c AND 0xFF"
    unfolding ff by (rule bit_word_eqI) (auto simp: bit_simps)
  moreover have "4 * unat (n div 4) = unat n"
  proof -
    have "unat (n mod 4) = 0" using True by simp
    then have "unat n mod 4 = 0" by (simp add: unat_mod)
    then show ?thesis by (simp add: unat_div mod_0_imp_dvd)
  qed
  ultimately show ?thesis
    using True stosl_eq_stosb [of _ ?c "unat (n div 4)" m dst] unat_uint_less [of n]
    by (simp add: memset_def Let_def)
next
  case False
  then show ?thesis by (auto simp: memset_def)
qed

section \<open>Moving memory\<close>

lemma move_fwd_spec:
  assumes "n \<le> 4294967296" "unat (d - s) = 0 \<or> n \<le> unat (d - s)"
  shows "move_fwd m d s n = (\<lambda>x. if unat (x - d) < n then m (s + (x - d)) else m x)"
  using assms
proof (induction n arbitrary: m d s)
  case 0
  then show ?case by simp
next
  case (Suc n)
  have IH: "move_fwd (m(d := m s)) (d + 1) (s + 1) n =
    (\<lambda>x. if unat (x - (d + 1)) < n then (m(d := m s)) (s + 1 + (x - (d + 1))) else (m(d := m s)) x)"
    using Suc.prems by (intro Suc.IH) auto
  show ?case
  proof (rule ext)
    fix x
    let ?y = "x - d"
    have IHx: "move_fwd m d s (Suc n) x =
        (if unat (?y - 1) < n then (m(d := m s)) (s + ?y) else (m(d := m s)) x)"
      using fun_cong [OF IH, of x] by (simp add: diff_diff_add [symmetric])
    show "move_fwd m d s (Suc n) x = (if unat ?y < Suc n then m (s + ?y) else m x)"
    proof (cases "?y = 0")
      case True
      then have "x = d" by simp
      then show ?thesis using Suc.prems(1) unfolding IHx unat_minus_1 by simp
    next
      case False
      then have pos: "0 < unat ?y" and "x \<noteq> d" by (auto simp: unat_gt_0)
      have "s + ?y \<noteq> d" if "unat ?y < Suc n"
      proof
        assume "s + ?y = d"
        then have "d - s = ?y" by (metis add_diff_cancel_left')
        then have "unat (d - s) = unat ?y" by (rule arg_cong)
        then show False using Suc.prems(2) that pos by linarith
      qed
      then show ?thesis using \<open>x \<noteq> d\<close> pos unfolding IHx unat_minus_1 by auto
    qed
  qed
qed

lemma move_back_spec:
  assumes "n \<le> 4294967296" "unat (s - d) = 0 \<or> n \<le> unat (s - d)"
  shows "move_back m (d + word_of_nat n) (s + word_of_nat n) n =
    (\<lambda>x. if unat (x - d) < n then m (s + (x - d)) else m x)"
  using assms
proof (induction n arbitrary: m)
  case 0
  then show ?case by simp
next
  case (Suc n)
  let ?n = "word_of_nat n :: uint"
  let ?m = "m(d + ?n := m (s + ?n))"
  have un: "unat ?n = n" using Suc.prems(1) by (simp add: unat_of_nat_small)
  have "move_back m (d + word_of_nat (Suc n)) (s + word_of_nat (Suc n)) (Suc n) =
      move_back ?m (d + ?n) (s + ?n) n"
    by simp
  also have "\<dots> = (\<lambda>x. if unat (x - d) < n then ?m (s + (x - d)) else ?m x)"
    using Suc.prems by (intro Suc.IH) auto
  also have "\<dots> = (\<lambda>x. if unat (x - d) < Suc n then m (s + (x - d)) else m x)"
  proof (rule ext)
    fix x
    let ?y = "x - d"
    have x: "x = d + ?n \<longleftrightarrow> unat ?y = n"
    proof
      assume "unat ?y = n"
      then have "?y = ?n" by (simp only: word_unat_eq_iff un)
      then show "x = d + ?n" by (simp only: diff_eq_eq add.commute)
    qed (simp add: un)
    have "s + ?y \<noteq> d + ?n" if "unat ?y < n"
    proof
      assume "s + ?y = d + ?n"
      then have "s = d + ?n - ?y" by (simp only: eq_diff_eq)
      also have "\<dots> = d + (?n - ?y)" by (rule add_diff_eq [symmetric])
      finally have "s - d = ?n - ?y" by (metis add_diff_cancel_left')
      moreover have "unat (?n - ?y) = n - unat ?y"
        using that un by (simp add: unat_sub_if')
      ultimately have "unat (s - d) = n - unat ?y" by metis
      then show False using Suc.prems(2) that by linarith
    qed
    moreover have "s + ?y = s + ?n" if "unat ?y = n"
      using that x by simp
    ultimately show "(if unat ?y < n then ?m (s + ?y) else ?m x) =
        (if unat ?y < Suc n then m (s + ?y) else m x)"
      using x by (cases "unat ?y" n rule: linorder_cases) auto
  qed
  finally show ?case .
qed

lemma memmove_copies:
  assumes "unat src + unat n < 4294967296" "unat dst + unat n \<le> 4294967296"
  shows "memmove m dst src n =
    (\<lambda>x. if unat (x - dst) < unat n then m (src + (x - dst)) else m x)"
proof (cases "src < dst \<and> src + n > dst")
  case True
  have "unat (src - dst) = 0 \<or> unat n \<le> unat (src - dst)"
    using True assms by (auto simp: unat_sub_if' word_less_nat_alt)
  then show ?thesis
    using move_back_spec [of "unat n" src dst m] True unat_uint_less [of n]
    by (simp add: memmove_def)
next
  case False
  have "unat (src + n) = unat src + unat n" using assms(1) by (simp add: unat_word_ariths)
  then have "unat (dst - src) = 0 \<or> unat n \<le> unat (dst - src)"
    using False assms by (auto simp: unat_sub_if' word_less_nat_alt word_le_nat_alt not_less)
  then show ?thesis
    using move_fwd_spec [of "unat n" dst src m] False unat_uint_less [of n]
    by (auto simp: memmove_def)
qed

section \<open>C strings\<close>

text \<open>The string an object holds: its bytes before the first NUL.\<close>

definition cstr :: "byte list \<Rightarrow> byte list" where
  "cstr s = takeWhile (\<lambda>c. c \<noteq> 0) s"

lemma cstr_simps [simp]:
  "cstr [] = []" "cstr (c # s) = (if c = 0 then [] else c # cstr s)"
  by (simp_all add: cstr_def)

lemma cstr_nonzero: "c \<in> set (cstr s) \<Longrightarrow> c \<noteq> 0"
  by (auto simp: cstr_def dest: set_takeWhileD)

lemma cstr_length_le: "length (cstr s) \<le> length s"
  by (simp add: cstr_def length_takeWhile_le)

lemma cstr_append_zero: "0 \<notin> set xs \<Longrightarrow> cstr (xs @ 0 # ys) = xs"
  by (induction xs) auto

lemma strlen_cstr: "strlen s = (if 0 \<in> set s then Some (length (cstr s)) else None)"
  by (induction s) auto

lemma strncmp_defined:
  assumes "n \<le> length p" "n \<le> length q"
  shows "\<exists>r. strncmp p q n = Some r"
  using assms by (induction p q n rule: strncmp.induct) auto

lemma strncmp_zero_iff:
  assumes "n \<le> length p" "n \<le> length q"
  shows "strncmp p q n = Some 0 \<longleftrightarrow> take n (cstr p) = take n (cstr q)"
  using assms
  by (induction p q n rule: strncmp.induct)
    (auto simp: uint_0_iff dest: word_uint_eq_iff [THEN iffD2])

lemma memcmp_zero_iff:
  assumes "n \<le> length p" "n \<le> length q"
  shows "memcmp p q n = Some 0 \<longleftrightarrow> take n p = take n q"
  using assms
  by (induction p q n rule: memcmp.induct) (auto dest: word_uint_eq_iff [THEN iffD2])

lemma strncpy_pad_spec:
  "n \<le> length s \<Longrightarrow> strncpy_pad s n = Some (replicate n 0 @ drop n s)"
  by (induction s n rule: strncpy_pad.induct) auto

lemma strncpy_nat_spec:
  assumes "n \<le> length s" "0 \<in> set t \<or> n \<le> length t"
  shows "strncpy_nat s t n =
    Some (take n (cstr t) @ replicate (n - length (cstr t)) 0 @ drop n s)"
  using assms
proof (induction s t n rule: strncpy_nat.induct)
  case (2 x s c t n)
  then show ?case by (cases "c = 0") (auto simp: strncpy_pad_spec)
qed auto

lemma safestrcpy_nat_spec:
  assumes "0 < n" "n \<le> length s" "0 \<in> set t \<or> n \<le> length t"
  shows "\<exists>r. safestrcpy_nat s t n = Some r \<and> length r = length s \<and> cstr r = take (n - 1) (cstr t)"
  using assms
proof (induction s t n rule: safestrcpy_nat.induct)
  case (3 x s c t n)
  then show ?case by (cases "c = 0"; cases s) auto
qed auto
end
