(* ===== verification/Kalloc.thy ===== *)
theory Kalloc
  imports Cstring
begin

text \<open>
  The physical page allocator (kalloc.c). The free list is threaded through the free pages
  themselves: the first word of a free page is the address of the next one. The state is the
  kernel memory with the list head; \<open>kend\<close> and \<open>kdata\<close> are the linker symbols \<^verbatim>\<open>end\<close>, the
  first address after the kernel image, and \<^verbatim>\<open>data\<close>, where its writable part starts. The critical section under \<^verbatim>\<open>kmem.lock\<close> is one step.
\<close>

section \<open>Definitions\<close>

record kmem =
  kmem_mem :: mem
  use_lock :: bool
  freelist :: addr
  kend :: addr
  kdata :: addr

definition kfree :: "addr \<Rightarrow> kmem \<Rightarrow> kmem res" where
  "kfree v s =
     (if v mod PGSIZE \<noteq> 0 \<or> v < kend s \<or> V2P v \<ge> PHYSTOP then Panic ''kfree''
      else let m = memset (kmem_mem s) v 1 PGSIZE
           in Ok (s\<lparr>kmem_mem := store32 m v (freelist s), freelist := v\<rparr>))"

definition kalloc :: "kmem \<Rightarrow> addr \<times> kmem" where
  "kalloc s =
     (let r = freelist s
      in if r \<noteq> 0 then (r, s\<lparr>freelist := load32 (kmem_mem s) r\<rparr>) else (r, s))"

lemma kfree_Ok_below:
  "kfree p s = Ok s' \<Longrightarrow> \<not> V2P p \<ge> PHYSTOP"
  by (auto simp: kfree_def split: if_splits)

lemma freerange_decr:
  assumes "p + PGSIZE \<le> vend" "\<not> V2P p \<ge> PHYSTOP"
  shows "unat (vend - (p + PGSIZE)) < unat (vend - p)"
proof -
  have "unat p < 4294963200"
    using assms(2) by (auto simp: V2P_def PHYSTOP_def KERNBASE_def word_less_nat_alt
        not_le unat_sub_if' split: if_splits)
  then have "unat (p + PGSIZE) = unat p + 4096"
    by (simp add: PGSIZE_def unat_word_ariths)
  then show ?thesis
    using assms(1) by (simp add: unat_sub_if' word_le_nat_alt)
qed

function freerange_loop :: "addr \<Rightarrow> addr \<Rightarrow> kmem \<Rightarrow> kmem res" where
  "freerange_loop p vend s =
     (if p + PGSIZE \<le> vend
      then (case kfree p s of
              Ok s' \<Rightarrow> freerange_loop (p + PGSIZE) vend s'
            | Panic msg \<Rightarrow> Panic msg | Fault \<Rightarrow> Fault | Block \<Rightarrow> Block)
      else Ok s)"
  by pat_completeness auto
termination
  by (relation "measure (\<lambda>(p, vend, s). unat (vend - p))")
    (auto intro!: freerange_decr dest: kfree_Ok_below)

declare freerange_loop.simps [simp del]

definition freerange :: "addr \<Rightarrow> addr \<Rightarrow> kmem \<Rightarrow> kmem res" where
  "freerange vstart vend s = freerange_loop (PGROUNDUP vstart) vend s"

definition kinit1 :: "addr \<Rightarrow> addr \<Rightarrow> kmem \<Rightarrow> kmem res" where
  "kinit1 vstart vend s = freerange vstart vend (s\<lparr>use_lock := False\<rparr>)"

definition kinit2 :: "addr \<Rightarrow> addr \<Rightarrow> kmem \<Rightarrow> kmem res" where
  "kinit2 vstart vend s = bind_res (freerange vstart vend s) (\<lambda>s'. Ok (s'\<lparr>use_lock := True\<rparr>))"

section \<open>The free list\<close>

text \<open>A page the allocator may hold: page-aligned, after the kernel, below \<^verbatim>\<open>PHYSTOP\<close>.\<close>

definition usable_page :: "kmem \<Rightarrow> addr \<Rightarrow> bool" where
  "usable_page s p \<longleftrightarrow> page_aligned p \<and> kend s \<le> p \<and> V2P p < PHYSTOP"

text \<open>\<open>free_chain m p ps\<close>: following the links in memory from \<open>p\<close> visits exactly \<open>ps\<close>.\<close>

fun free_chain :: "mem \<Rightarrow> addr \<Rightarrow> addr list \<Rightarrow> bool" where
  "free_chain m p [] = (p = 0)"
| "free_chain m p (x # xs) = (p = x \<and> x \<noteq> 0 \<and> free_chain m (load32 m x) xs)"

definition free_pages :: "kmem \<Rightarrow> addr list \<Rightarrow> bool" where
  "free_pages s ps \<longleftrightarrow> free_chain (kmem_mem s) (freelist s) ps \<and> distinct ps
     \<and> (\<forall>p \<in> set ps. usable_page s p) \<and> KERNBASE < kend s"

lemma usable_page_aligned: "usable_page s p \<Longrightarrow> page_aligned p"
  by (simp add: usable_page_def)

lemma usable_page_nonzero: "usable_page s p \<Longrightarrow> KERNBASE < kend s \<Longrightarrow> p \<noteq> 0"
  by (auto simp: usable_page_def KERNBASE_def)

lemma usable_page_V2P: "usable_page s p \<Longrightarrow> KERNBASE < kend s \<Longrightarrow> V2P p \<noteq> 0"
  by (auto simp: usable_page_def V2P_def)

lemma usable_page_cong: "kend s' = kend s \<Longrightarrow> usable_page s' p = usable_page s p"
  by (simp add: usable_page_def)

lemma free_chain_agree:
  assumes "\<And>p. p \<in> set ps \<Longrightarrow> page_aligned p \<and> agree_page p m m'"
  shows "free_chain m' x ps = free_chain m x ps"
  using assms
proof (induction ps arbitrary: x)
  case (Cons p ps)
  have "load32 m' p = load32 m p"
    using Cons.prems [of p] by (intro load32_agree) (auto simp: page_aligned_aligned4)
  then show ?case using Cons by auto
qed simp

text \<open>Writes outside the free pages leave the free list as it is.\<close>

lemma free_pages_frame:
  assumes "free_pages s ps" "freelist s' = freelist s" "kend s' = kend s"
    and "\<And>p. p \<in> set ps \<Longrightarrow> agree_page p (kmem_mem s) (kmem_mem s')"
  shows "free_pages s' ps"
  using assms free_chain_agree [of ps "kmem_mem s" "kmem_mem s'" "freelist s"]
  by (simp add: free_pages_def usable_page_def)

lemma kalloc_empty: "free_pages s [] \<Longrightarrow> kalloc s = (0, s)"
  by (simp add: free_pages_def kalloc_def)

lemma kalloc_Cons:
  assumes "free_pages s (p # ps)"
  shows "kalloc s = (p, s\<lparr>freelist := load32 (kmem_mem s) p\<rparr>)"
    "free_pages (s\<lparr>freelist := load32 (kmem_mem s) p\<rparr>) ps"
  using assms by (auto simp: free_pages_def kalloc_def usable_page_def)

lemma kfree_usable:
  assumes "usable_page s p"
  shows "kfree p s = Ok (s\<lparr>kmem_mem := store32 (stosb (kmem_mem s) p 1 4096) p (freelist s),
    freelist := p\<rparr>)"
  using assms by (auto simp: kfree_def usable_page_def page_aligned_def memset_eq_stosb PGSIZE_def Let_def)

lemma kfree_unusable: "\<not> usable_page s p \<Longrightarrow> kfree p s = Panic ''kfree''"
  by (auto simp: kfree_def usable_page_def page_aligned_def not_le not_less)

lemma kfree_agree:
  assumes "kfree p s = Ok s'" "q \<noteq> p"
  shows "agree_page q (kmem_mem s) (kmem_mem s')"
proof -
  have u: "usable_page s p" using assms(1) kfree_unusable by fastforce
  then have p: "page_aligned p" by (rule usable_page_aligned)
  have "agree_page q (kmem_mem s) (stosb (kmem_mem s) p 1 4096)"
    using p assms(2) by (rule agree_page_stosb)
  moreover have "agree_page q (stosb (kmem_mem s) p 1 4096)
      (store32 (stosb (kmem_mem s) p 1 4096) p (freelist s))"
    using p assms(2) by (intro agree_page_store32) (auto simp: page_aligned_aligned4)
  ultimately have "agree_page q (kmem_mem s)
      (store32 (stosb (kmem_mem s) p 1 4096) p (freelist s))"
    by (rule agree_page_trans)
  then show ?thesis using assms(1) by (auto simp: kfree_usable [OF u])
qed

lemma kfree_free_pages:
  assumes "free_pages s ps" "kfree p s = Ok s'" "p \<notin> set ps"
  shows "free_pages s' (p # ps)"
proof -
  have u: "usable_page s p" using assms(2) kfree_unusable by fastforce
  have s': "freelist s' = p" "kend s' = kend s" "load32 (kmem_mem s') p = freelist s"
    using assms(2) by (auto simp: kfree_usable [OF u])
  have "free_chain (kmem_mem s') (freelist s) ps = free_chain (kmem_mem s) (freelist s) ps"
    using assms by (intro free_chain_agree)
      (auto simp: free_pages_def usable_page_def intro: kfree_agree [OF assms(2)])
  moreover have "p \<noteq> 0" using assms(1) u usable_page_nonzero by (auto simp: free_pages_def)
  ultimately show ?thesis
    using assms u s' by (simp add: free_pages_def usable_page_def)
qed

lemma kfree_frame:
  "kfree p s = Ok s' \<Longrightarrow> kend s' = kend s \<and> kdata s' = kdata s \<and> use_lock s' = use_lock s"
  by (auto simp: kfree_def Let_def split: if_splits)

lemma kalloc_frame:
  "kalloc s = (r, s') \<Longrightarrow> kmem_mem s' = kmem_mem s \<and> kend s' = kend s \<and> kdata s' = kdata s
    \<and> use_lock s' = use_lock s"
  by (auto simp: kalloc_def Let_def split: if_splits)

lemma kfree_contract:
  assumes "free_pages s ps" "usable_page s p" "p \<notin> set ps"
  shows "\<exists>s'. kfree p s = Ok s' \<and> free_pages s' (p # ps) \<and> usable_page s' = usable_page s
    \<and> (\<forall>q. q \<noteq> p \<longrightarrow> agree_page q (kmem_mem s) (kmem_mem s'))"
proof -
  obtain s' where s': "kfree p s = Ok s'" using kfree_usable [OF assms(2)] by blast
  moreover have "usable_page s' = usable_page s"
    using kfree_frame [OF s'] by (simp add: fun_eq_iff usable_page_def)
  ultimately show ?thesis
    using kfree_free_pages [OF assms(1) s' assms(3)] kfree_agree [OF s'] by blast
qed

section \<open>The allocator's contract\<close>

text \<open>
  What a client of the allocator relies on: an abstract list of free pages, from which \<open>alloc\<close>
  takes one and to which \<open>free\<close> gives one back without touching any other page.
\<close>

locale page_allocator =
  fixes alloc :: "'s \<Rightarrow> addr \<times> 's"
    and free :: "addr \<Rightarrow> 's \<Rightarrow> 's res"
    and content :: "'s \<Rightarrow> mem"
    and frees :: "'s \<Rightarrow> addr list \<Rightarrow> bool"
    and usable :: "'s \<Rightarrow> addr \<Rightarrow> bool"
  assumes frees_distinct: "frees s ps \<Longrightarrow> distinct ps"
    and frees_usable: "frees s ps \<Longrightarrow> p \<in> set ps \<Longrightarrow> usable s p"
    and frees_nonzero: "frees s ps \<Longrightarrow> 0 \<notin> set ps"
    and alloc_none: "frees s [] \<Longrightarrow> alloc s = (0, s)"
    and alloc_page: "frees s (p # ps) \<Longrightarrow>
      \<exists>s'. alloc s = (p, s') \<and> frees s' ps \<and> content s' = content s \<and> usable s' = usable s"
    and free_page: "frees s ps \<Longrightarrow> usable s p \<Longrightarrow> p \<notin> set ps \<Longrightarrow>
      \<exists>s'. free p s = Ok s' \<and> frees s' (p # ps) \<and> usable s' = usable s
         \<and> (\<forall>q. q \<noteq> p \<longrightarrow> agree_page q (content s) (content s'))"
begin

text \<open>A successful allocation takes a usable page off the free list; the page is then in no
  later allocation until it is freed.\<close>

lemma alloc_fresh:
  assumes "frees s ps" "alloc s = (r, s')" "r \<noteq> 0"
  shows "usable s r \<and> (\<exists>qs. ps = r # qs \<and> frees s' qs \<and> r \<notin> set qs) \<and> content s' = content s"
proof (cases ps)
  case Nil
  then show ?thesis using assms alloc_none by fastforce
next
  case (Cons p qs)
  then show ?thesis
    using assms alloc_page [of s p qs] frees_distinct [of s ps] frees_usable [of s ps p] by auto
qed

lemma alloc_fails_iff: "frees s ps \<Longrightarrow> fst (alloc s) = 0 \<longleftrightarrow> ps = []"
  using alloc_none alloc_page frees_nonzero by (cases ps) fastforce+

lemma alloc_then_free:
  assumes "frees s (p # ps)" "alloc s = (r, s')"
  shows "\<exists>s''. free r s' = Ok s'' \<and> frees s'' (p # ps)"
proof -
  have r: "r = p" "frees s' ps" "usable s' = usable s"
    using alloc_page [OF assms(1)] assms(2) by auto
  have "p \<notin> set ps" "usable s p"
    using frees_distinct [OF assms(1)] frees_usable [OF assms(1)] by auto
  then show ?thesis using free_page [of s' ps p] r by auto
qed

fun alloc_n :: "nat \<Rightarrow> 's \<Rightarrow> addr list \<times> 's" where
  "alloc_n 0 s = ([], s)"
| "alloc_n (Suc n) s = (let (p, s1) = alloc s; (ps, s2) = alloc_n n s1 in (p # ps, s2))"

lemma alloc_n_spec:
  "frees s ps \<Longrightarrow> n \<le> length ps \<Longrightarrow>
    fst (alloc_n n s) = take n ps \<and> frees (snd (alloc_n n s)) (drop n ps)"
proof (induction n arbitrary: s ps)
  case 0
  then show ?case by simp
next
  case (Suc n)
  then obtain p qs where ps: "ps = p # qs" by (cases ps) auto
  then obtain s1 where s1: "alloc s = (p, s1)" "frees s1 qs"
    using Suc.prems alloc_page by blast
  then show ?case using Suc.IH [of s1 qs] Suc.prems ps by (auto split: prod.splits)
qed

end

interpretation ka: page_allocator kalloc kfree kmem_mem free_pages usable_page
proof unfold_locales
  fix s p ps
  show "free_pages s ps \<Longrightarrow> distinct ps" by (simp add: free_pages_def)
  show "free_pages s ps \<Longrightarrow> p \<in> set ps \<Longrightarrow> usable_page s p" by (simp add: free_pages_def)
  show "free_pages s ps \<Longrightarrow> 0 \<notin> set ps"
    using usable_page_nonzero by (fastforce simp: free_pages_def)
  show "free_pages s [] \<Longrightarrow> kalloc s = (0, s)" by (rule kalloc_empty)
  show "free_pages s (p # ps) \<Longrightarrow> \<exists>s'. kalloc s = (p, s') \<and> free_pages s' ps
      \<and> kmem_mem s' = kmem_mem s \<and> usable_page s' = usable_page s"
    by (auto simp: kalloc_Cons fun_eq_iff usable_page_def)
  show "free_pages s ps \<Longrightarrow> usable_page s p \<Longrightarrow> p \<notin> set ps \<Longrightarrow>
      \<exists>s'. kfree p s = Ok s' \<and> free_pages s' (p # ps) \<and> usable_page s' = usable_page s
         \<and> (\<forall>q. q \<noteq> p \<longrightarrow> agree_page q (kmem_mem s) (kmem_mem s'))"
    by (rule kfree_contract)
qed

section \<open>Initialising the allocator\<close>

text \<open>The \<open>n\<close> pages from \<open>p\<close> on.\<close>

fun pages_from :: "addr \<Rightarrow> nat \<Rightarrow> addr list" where
  "pages_from p 0 = []"
| "pages_from p (Suc n) = p # pages_from (p + PGSIZE) n"

lemma freerange_loop_spec:
  assumes "page_aligned p" "kend s \<le> p" "p \<le> P2V PHYSTOP" "vend \<le> P2V PHYSTOP"
    and "free_pages s ps" "\<And>q. q \<in> set ps \<Longrightarrow> q < p \<or> vend \<le> q"
  shows "\<exists>s'. freerange_loop p vend s = Ok s'
    \<and> free_pages s' (rev (pages_from p ((unat vend - unat p) div 4096)) @ ps)"
  using assms
proof (induction p vend s arbitrary: ps rule: freerange_loop.induct)
  case (1 p vend s)
  note IH = 1(1) and al = 1(2) and lo = 1(3) and hi = 1(4) and vhi = 1(5) and fr = 1(6) and out = 1(7)
  have unat_p: "unat p \<le> 2382364672" and unat_v: "unat vend \<le> 2382364672"
    using hi vhi by (simp_all add: P2V_def PHYSTOP_def KERNBASE_def word_le_nat_alt)
  have next_p: "unat (p + PGSIZE) = unat p + 4096"
    using unat_p by (simp add: PGSIZE_def unat_word_ariths)
  show ?case
  proof (cases "p + PGSIZE \<le> vend")
    case False
    then have "(unat vend - unat p) div 4096 = 0"
      using next_p by (auto simp: word_le_nat_alt)
    then show ?thesis using False fr by (simp add: freerange_loop.simps [of p vend s])
  next
    case True
    have kb: "2147483648 \<le> unat (kend s)"
      using fr by (simp add: free_pages_def KERNBASE_def word_less_nat_alt)
    have "unat p < 2382364672" using True next_p unat_v by (simp add: word_le_nat_alt)
    then have "V2P p < PHYSTOP"
      using lo kb by (simp add: V2P_def PHYSTOP_def KERNBASE_def word_less_nat_alt word_le_nat_alt unat_sub_if')
    then have u: "usable_page s p" using al lo by (simp add: usable_page_def)
    have notin: "p \<notin> set ps"
      using out [of p] True next_p by (auto simp: word_le_nat_alt)
    obtain s1 where s1: "kfree p s = Ok s1" "free_pages s1 (p # ps)"
      using kfree_contract [OF fr u notin] by blast
    have "q < p + PGSIZE \<or> vend \<le> q" if "q \<in> set (p # ps)" for q
      using that out [of q] next_p by (auto simp: word_less_nat_alt)
    then obtain s2 where s2: "freerange_loop (p + PGSIZE) vend s1 = Ok s2"
      "free_pages s2 (rev (pages_from (p + PGSIZE) ((unat vend - unat (p + PGSIZE)) div 4096)) @ p # ps)"
      using IH [OF True s1(1), of "p # ps"] al s1 True vhi lo next_p kfree_frame [OF s1(1)]
      by (auto simp: word_le_nat_alt)
    have "(unat vend - unat p) div 4096 = Suc ((unat vend - unat (p + PGSIZE)) div 4096)"
      using True next_p by (simp add: word_le_nat_alt)
    then show ?thesis using s2 s1 True by (simp add: freerange_loop.simps [of p vend s])
  qed
qed

lemma freerange_loop_use_lock:
  "freerange_loop p vend s = Ok s' \<Longrightarrow> use_lock s' = use_lock s"
proof (induction p vend s rule: freerange_loop.induct)
  case (1 p vend s)
  show ?case
  proof (cases "p + PGSIZE \<le> vend")
    case True
    with 1(2) obtain s1 where s1: "kfree p s = Ok s1" "freerange_loop (p + PGSIZE) vend s1 = Ok s'"
      by (subst (asm) freerange_loop.simps) (auto split: res.splits)
    with 1(1) [OF True] kfree_frame show ?thesis by fastforce
  next
    case False
    with 1(2) show ?thesis by (subst (asm) freerange_loop.simps) simp
  qed
qed

section \<open>Properties\<close>

text \<open>C16: \<open>kinit1\<close> on an empty free list frees every whole page of the range, so that the
  free list threaded through memory is exactly those pages, the highest first.\<close>

theorem kinit1_free_list:
  assumes "free_pages s []" "kend s \<le> PGROUNDUP vstart" "PGROUNDUP vstart \<le> P2V PHYSTOP"
    and "vend \<le> P2V PHYSTOP"
  shows "\<exists>s'. kinit1 vstart vend s = Ok s' \<and> \<not> use_lock s' \<and>
    free_pages s' (rev (pages_from (PGROUNDUP vstart) ((unat vend - unat (PGROUNDUP vstart)) div 4096)))"
proof -
  let ?s = "s\<lparr>use_lock := False\<rparr>"
  have "free_pages ?s []" using assms(1) by (simp add: free_pages_def)
  then obtain s' where "freerange_loop (PGROUNDUP vstart) vend ?s = Ok s'"
    "free_pages s' (rev (pages_from (PGROUNDUP vstart) ((unat vend - unat (PGROUNDUP vstart)) div 4096)))"
    using freerange_loop_spec [of "PGROUNDUP vstart" ?s vend "[]"] assms by auto
  moreover from this(1) have "\<not> use_lock s'"
    using freerange_loop_use_lock by fastforce
  ultimately show ?thesis by (simp add: kinit1_def freerange_def)
qed

theorem kinit1_free_list_witness:
  "\<exists>s'. kinit1 0x80113400 0x80116000
      \<lparr>kmem_mem = (\<lambda>_. 0), use_lock = True, freelist = 0, kend = 0x80113400, kdata = 0x80109000\<rparr> = Ok s'
    \<and> \<not> use_lock s' \<and> free_pages s' [0x80115000, 0x80114000]"
proof -
  have "pages_from 0x80114000 2 = [0x80114000, 0x80115000]"
    by (simp add: numeral_2_eq_2 PGSIZE_def)
  then show ?thesis
    using kinit1_free_list [of
      "\<lparr>kmem_mem = (\<lambda>_. 0), use_lock = True, freelist = 0, kend = 0x80113400, kdata = 0x80109000\<rparr>"
      "0x80113400" "0x80116000"]
    by (simp add: free_pages_def PGROUNDUP_def layout_defs PGSIZE_def P2V_def KERNBASE_def)
qed

text \<open>C17: as long as pages are handed out and given back through \<open>kalloc\<close> and \<open>kfree\<close>, an
  allocation returns a page of the free list, aligned and inside physical memory, that no later
  allocation returns, and no memory changes.\<close>

theorem kalloc_fresh_page:
  assumes "free_pages s ps" "kalloc s = (r, s')" "r \<noteq> 0"
  shows "page_aligned r \<and> kend s \<le> r \<and> V2P r < PHYSTOP \<and> kmem_mem s' = kmem_mem s
    \<and> (\<exists>qs. ps = r # qs \<and> free_pages s' qs \<and> r \<notin> set qs)"
  using ka.alloc_fresh [OF assms] by (auto simp: usable_page_def)

theorem kalloc_fresh_page_witness:
  "\<exists>s'. kalloc \<lparr>kmem_mem = (\<lambda>_. 0), use_lock = True, freelist = 0x80400000, kend = 0x80113400, kdata = 0x80109000\<rparr>
      = (0x80400000, s') \<and> free_pages s' []"
proof -
  let ?s = "\<lparr>kmem_mem = (\<lambda>_. 0), use_lock = True, freelist = 0x80400000, kend = 0x80113400, kdata = 0x80109000\<rparr>"
  have "free_pages ?s [0x80400000]"
    by (simp add: free_pages_def usable_page_def load32_def page_aligned_def PGSIZE_def layout_defs V2P_def KERNBASE_def)
  moreover have "kalloc ?s = (0x80400000, ?s\<lparr>freelist := 0\<rparr>)" by (simp add: kalloc_def load32_def)
  ultimately show ?thesis using kalloc_fresh_page [of ?s "[0x80400000]" "0x80400000" "?s\<lparr>freelist := 0\<rparr>"] by simp
qed

text \<open>C18: \<open>kfree\<close> accepts exactly the aligned pages between the kernel image and \<^verbatim>\<open>PHYSTOP\<close>.
  It then puts the page at the head of the free list and changes no byte of any other page; on
  any other address it panics.\<close>

theorem kfree_correct:
  assumes "free_pages s ps" "p \<notin> set ps"
  shows "if page_aligned p \<and> kend s \<le> p \<and> V2P p < PHYSTOP
    then \<exists>s'. kfree p s = Ok s' \<and> free_pages s' (p # ps)
      \<and> (\<forall>a. page_of a \<noteq> p \<longrightarrow> kmem_mem s' a = kmem_mem s a)
    else kfree p s = Panic ''kfree''"
proof (cases "usable_page s p")
  case True
  then show ?thesis
    using kfree_contract [OF assms(1) True assms(2)]
    by (fastforce simp: usable_page_def agree_page_def)
next
  case False
  then show ?thesis using kfree_unusable [OF False] by (simp add: usable_page_def)
qed

theorem kfree_correct_witness:
  "kfree 0x80400010 \<lparr>kmem_mem = (\<lambda>_. 0), use_lock = True, freelist = 0, kend = 0x80113400, kdata = 0x80109000\<rparr>
    = Panic ''kfree''"
  using kfree_correct [of "\<lparr>kmem_mem = (\<lambda>_. 0), use_lock = True, freelist = 0, kend = 0x80113400, kdata = 0x80109000\<rparr>"
    "[]" "0x80400010"]
  by (simp add: free_pages_def page_aligned_def PGSIZE_def layout_defs KERNBASE_def)

end
