(* ===== verification/Vm.thy ===== *)
theory Vm
  imports Kalloc
begin

text \<open>
  Page tables (vm.c): walking and filling the two-level table, growing, shrinking, copying
  and freeing an address space. Page tables live in kernel memory; a pointer to an entry is
  its kernel address, and 0 is the null pointer. \<open>Block\<close> marks a loop that cannot end
  because its counter has wrapped around.
\<close>

section \<open>Definitions\<close>

definition walkpgdir :: "addr \<Rightarrow> addr \<Rightarrow> bool \<Rightarrow> kmem \<Rightarrow> addr \<times> kmem" where
  "walkpgdir pgdir va alloc s =
     (let pde = entry pgdir (PDX va); v = load32 (kmem_mem s) pde
      in if v AND PTE_P \<noteq> 0 then (entry (P2V (PTE_ADDR v)) (PTX va), s)
         else if \<not> alloc then (0, s)
         else let (pgtab, s1) = kalloc s
              in if pgtab = 0 then (0, s1)
                 else let m1 = memset (kmem_mem s1) pgtab 0 PGSIZE;
                          m2 = store32 m1 pde (V2P pgtab OR PTE_P OR PTE_W OR PTE_U)
                      in (entry pgtab (PTX va), s1\<lparr>kmem_mem := m2\<rparr>))"

lemma map_loop_decr:
  fixes a lst :: addr
  assumes "a \<noteq> lst" "PGSIZE \<le> lst - a"
  shows "unat (lst - (a + PGSIZE)) < unat (lst - a)"
proof -
  have eq: "lst - (a + PGSIZE) = lst - a - PGSIZE" by (simp only: diff_diff_add)
  have "unat (lst - a - PGSIZE) = unat (lst - a) - 4096"
    using assms(2) by (simp add: PGSIZE_def unat_sub_if' word_le_nat_alt)
  moreover have "0 < unat (lst - a)" using assms(1) by (simp add: unat_gt_0)
  ultimately show ?thesis unfolding eq by linarith
qed

function mappages_loop :: "addr \<Rightarrow> addr \<Rightarrow> addr \<Rightarrow> uint \<Rightarrow> uint \<Rightarrow> kmem \<Rightarrow> (int \<times> kmem) res" where
  "mappages_loop pgdir a lst pa perm s =
     (let (pte, s1) = walkpgdir pgdir a True s
      in if pte = 0 then Ok (-1, s1)
         else if load32 (kmem_mem s1) pte AND PTE_P \<noteq> 0 then Panic ''remap''
         else let s2 = s1\<lparr>kmem_mem := store32 (kmem_mem s1) pte (pa OR perm OR PTE_P)\<rparr>
              in if a = lst then Ok (0, s2)
                 else if lst - a < PGSIZE then Block
                 else mappages_loop pgdir (a + PGSIZE) lst (pa + PGSIZE) perm s2)"
  by pat_completeness auto
termination
  by (relation "measure (\<lambda>(pgdir, a, lst, pa, perm, s). unat (lst - a))")
    (auto intro!: map_loop_decr simp: not_less)

declare mappages_loop.simps [simp del]

definition mappages :: "addr \<Rightarrow> addr \<Rightarrow> uint \<Rightarrow> uint \<Rightarrow> uint \<Rightarrow> kmem \<Rightarrow> (int \<times> kmem) res" where
  "mappages pgdir va sz pa perm s =
     mappages_loop pgdir (PGROUNDDOWN va) (PGROUNDDOWN (va + sz - 1)) pa perm s"

text \<open>\<^verbatim>\<open>deallocuvm\<close>: one turn of its loop frees the page at \<open>a\<close>, or skips the rest of an absent
  table; the first component is the next value of \<open>a\<close>.\<close>

definition dealloc_step :: "addr \<Rightarrow> addr \<Rightarrow> kmem \<Rightarrow> (addr \<times> kmem) res" where
  "dealloc_step pgdir a s =
     (let (pte, s1) = walkpgdir pgdir a False s
      in if pte = 0 then Ok (PGADDR (PDX a + 1) 0 0 - PGSIZE + PGSIZE, s1)
         else let v = load32 (kmem_mem s1) pte
              in if v AND PTE_P \<noteq> 0
                 then let pa = PTE_ADDR v
                      in if pa = 0 then Panic ''kfree''
                         else bind_res (kfree (P2V pa) s1) (\<lambda>s2.
                           Ok (a + PGSIZE, s2\<lparr>kmem_mem := store32 (kmem_mem s2) pte 0\<rparr>))
                 else Ok (a + PGSIZE, s1))"

function dealloc_loop :: "addr \<Rightarrow> addr \<Rightarrow> addr \<Rightarrow> kmem \<Rightarrow> kmem res" where
  "dealloc_loop pgdir a oldsz s =
     (if a < oldsz
      then (case dealloc_step pgdir a s of
              Ok (a', s') \<Rightarrow> if a' \<le> a then Block else dealloc_loop pgdir a' oldsz s'
            | Panic msg \<Rightarrow> Panic msg | Fault \<Rightarrow> Fault | Block \<Rightarrow> Block)
      else Ok s)"
  by pat_completeness auto
termination
  by (relation "measure (\<lambda>(pgdir, a, oldsz, s). unat oldsz - unat a)")
    (auto simp: word_less_nat_alt word_le_nat_alt)

declare dealloc_loop.simps [simp del]

definition deallocuvm :: "addr \<Rightarrow> uint \<Rightarrow> uint \<Rightarrow> kmem \<Rightarrow> (uint \<times> kmem) res" where
  "deallocuvm pgdir oldsz newsz s =
     (if newsz \<ge> oldsz then Ok (oldsz, s)
      else bind_res (dealloc_loop pgdir (PGROUNDUP newsz) oldsz s) (\<lambda>s'. Ok (newsz, s')))"

text \<open>\<^verbatim>\<open>allocuvm\<close>: the loop returns \<open>newsz\<close>, or 0 after undoing its work.\<close>

function alloc_loop :: "addr \<Rightarrow> addr \<Rightarrow> uint \<Rightarrow> uint \<Rightarrow> kmem \<Rightarrow> (uint \<times> kmem) res" where
  "alloc_loop pgdir a oldsz newsz s =
     (if a < newsz
      then let (mem, s1) = kalloc s
           in if mem = 0
              then bind_res (deallocuvm pgdir newsz oldsz s1) (\<lambda>(_, s2). Ok (0, s2))
              else let s2 = s1\<lparr>kmem_mem := memset (kmem_mem s1) mem 0 PGSIZE\<rparr>
                   in (case mappages pgdir a PGSIZE (V2P mem) (PTE_W OR PTE_U) s2 of
                         Ok (r, s3) \<Rightarrow>
                           if r < 0
                           then bind_res (deallocuvm pgdir newsz oldsz s3) (\<lambda>(_, s4).
                                bind_res (kfree mem s4) (\<lambda>s5. Ok (0, s5)))
                           else if a + PGSIZE \<le> a then Block
                           else alloc_loop pgdir (a + PGSIZE) oldsz newsz s3
                       | Panic msg \<Rightarrow> Panic msg | Fault \<Rightarrow> Fault | Block \<Rightarrow> Block)
      else Ok (newsz, s))"
  by pat_completeness auto
termination
  by (relation "measure (\<lambda>(pgdir, a, oldsz, newsz, s). unat newsz - unat a)")
    (auto simp: word_less_nat_alt word_le_nat_alt)

declare alloc_loop.simps [simp del]

definition allocuvm :: "addr \<Rightarrow> uint \<Rightarrow> uint \<Rightarrow> kmem \<Rightarrow> (uint \<times> kmem) res" where
  "allocuvm pgdir oldsz newsz s =
     (if newsz \<ge> KERNBASE then Ok (0, s)
      else if newsz < oldsz then Ok (oldsz, s)
      else alloc_loop pgdir (PGROUNDUP oldsz) oldsz newsz s)"

text \<open>\<^verbatim>\<open>freevm\<close>: free the user pages, then every page table, then the directory.\<close>

fun free_tables :: "addr \<Rightarrow> nat list \<Rightarrow> kmem \<Rightarrow> kmem res" where
  "free_tables pgdir [] s = Ok s"
| "free_tables pgdir (i # is) s =
     (let pde = load32 (kmem_mem s) (entry pgdir (word_of_nat i))
      in if pde AND PTE_P \<noteq> 0
         then bind_res (kfree (P2V (PTE_ADDR pde)) s) (free_tables pgdir is)
         else free_tables pgdir is s)"

definition freevm :: "addr \<Rightarrow> kmem \<Rightarrow> kmem res" where
  "freevm pgdir s =
     (if pgdir = 0 then Panic ''freevm: no pgdir''
      else bind_res (deallocuvm pgdir KERNBASE 0 s) (\<lambda>(_, s1).
           bind_res (free_tables pgdir [0..<NPDENTRIES] s1) (kfree pgdir)))"

text \<open>The kernel's mappings, present in every page table.\<close>

definition kmap :: "kmem \<Rightarrow> (addr \<times> uint \<times> uint \<times> uint) list" where
  "kmap s = [(KERNBASE, 0, EXTMEM, PTE_W),
             (KERNLINK, V2P KERNLINK, V2P (kdata s), 0),
             (kdata s, V2P (kdata s), PHYSTOP, PTE_W),
             (DEVSPACE, DEVSPACE, 0, PTE_W)]"

fun map_kernel :: "addr \<Rightarrow> (addr \<times> uint \<times> uint \<times> uint) list \<Rightarrow> kmem \<Rightarrow> (addr \<times> kmem) res" where
  "map_kernel pgdir [] s = Ok (pgdir, s)"
| "map_kernel pgdir ((virt, phys_start, phys_end, perm) # ks) s =
     bind_res (mappages pgdir virt (phys_end - phys_start) phys_start perm s) (\<lambda>(r, s1).
       if r < 0 then bind_res (freevm pgdir s1) (\<lambda>s2. Ok (0, s2))
       else map_kernel pgdir ks s1)"

definition setupkvm :: "kmem \<Rightarrow> (addr \<times> kmem) res" where
  "setupkvm s =
     (let (pgdir, s1) = kalloc s
      in if pgdir = 0 then Ok (0, s1)
         else let s2 = s1\<lparr>kmem_mem := memset (kmem_mem s1) pgdir 0 PGSIZE\<rparr>
              in if P2V PHYSTOP > DEVSPACE then Panic ''PHYSTOP too high''
                 else map_kernel pgdir (kmap s2) s2)"

text \<open>Bytes written at successive addresses, for \<^verbatim>\<open>memmove\<close> from an object outside the
  modelled memory.\<close>

fun write_bytes :: "mem \<Rightarrow> addr \<Rightarrow> byte list \<Rightarrow> mem" where
  "write_bytes m a [] = m"
| "write_bytes m a (b # bs) = write_bytes (m(a := b)) (a + 1) bs"

definition inituvm :: "addr \<Rightarrow> byte list \<Rightarrow> kmem \<Rightarrow> kmem res" where
  "inituvm pgdir init s =
     (if length init \<ge> unat PGSIZE then Panic ''inituvm: more than a page''
      else let (mem, s1) = kalloc s
           in if mem = 0 then Fault
              else bind_res (mappages pgdir 0 PGSIZE (V2P mem) (PTE_W OR PTE_U)
                     (s1\<lparr>kmem_mem := memset (kmem_mem s1) mem 0 PGSIZE\<rparr>)) (\<lambda>(_, s2).
                   Ok (s2\<lparr>kmem_mem := write_bytes (kmem_mem s2) mem init\<rparr>)))"

definition clearpteu :: "addr \<Rightarrow> addr \<Rightarrow> kmem \<Rightarrow> kmem res" where
  "clearpteu pgdir uva s =
     (let (pte, s1) = walkpgdir pgdir uva False s
      in if pte = 0 then Panic ''clearpteu''
         else Ok (s1\<lparr>kmem_mem := store32 (kmem_mem s1) pte (load32 (kmem_mem s1) pte AND NOT PTE_U)\<rparr>))"

text \<open>\<^verbatim>\<open>copyuvm\<close>: copy the pages below \<open>sz\<close> one by one; on failure free the new table.\<close>

function copy_loop :: "addr \<Rightarrow> addr \<Rightarrow> uint \<Rightarrow> uint \<Rightarrow> kmem \<Rightarrow> (addr \<times> kmem) res" where
  "copy_loop d pgdir i sz s =
     (if i < sz
      then let (pte, s0) = walkpgdir pgdir i False s
           in if pte = 0 then Panic ''copyuvm: pte should exist''
              else let v = load32 (kmem_mem s0) pte
                   in if v AND PTE_P = 0 then Panic ''copyuvm: page not present''
                      else let (mem, s1) = kalloc s0
                           in if mem = 0 then bind_res (freevm d s1) (\<lambda>s2. Ok (0, s2))
                              else let s2 = s1\<lparr>kmem_mem := memmove (kmem_mem s1) mem (P2V (PTE_ADDR v)) PGSIZE\<rparr>
                                   in (case mappages d i PGSIZE (V2P mem) (PTE_FLAGS v) s2 of
                                         Ok (r, s3) \<Rightarrow>
                                           if r < 0 then bind_res (freevm d s3) (\<lambda>s4. Ok (0, s4))
                                           else if i + PGSIZE \<le> i then Block
                                           else copy_loop d pgdir (i + PGSIZE) sz s3
                                       | Panic msg \<Rightarrow> Panic msg | Fault \<Rightarrow> Fault | Block \<Rightarrow> Block)
      else Ok (d, s))"
  by pat_completeness auto
termination
  by (relation "measure (\<lambda>(d, pgdir, i, sz, s). unat sz - unat i)")
    (auto simp: word_less_nat_alt word_le_nat_alt)

declare copy_loop.simps [simp del]

definition copyuvm :: "addr \<Rightarrow> uint \<Rightarrow> kmem \<Rightarrow> (addr \<times> kmem) res" where
  "copyuvm pgdir sz s =
     bind_res (setupkvm s) (\<lambda>(d, s1). if d = 0 then Ok (0, s1) else copy_loop d pgdir 0 sz s1)"

definition uva2ka :: "addr \<Rightarrow> addr \<Rightarrow> kmem \<Rightarrow> addr res" where
  "uva2ka pgdir uva s =
     (let (pte, s1) = walkpgdir pgdir uva False s
      in if pte = 0 then Fault
         else let v = load32 (kmem_mem s1) pte
              in if v AND PTE_P = 0 then Ok 0
                 else if v AND PTE_U = 0 then Ok 0
                 else Ok (P2V (PTE_ADDR v)))"

function copyout :: "addr \<Rightarrow> uint \<Rightarrow> byte list \<Rightarrow> kmem \<Rightarrow> (int \<times> kmem) res" where
  "copyout pgdir va buf s =
     (if buf = [] then Ok (0, s)
      else let va0 = PGROUNDDOWN va
           in (case uva2ka pgdir va0 s of
                 Ok pa0 \<Rightarrow>
                   if pa0 = 0 then Ok (-1, s)
                   else let n = min (unat (PGSIZE - (va - va0))) (length buf);
                            s1 = s\<lparr>kmem_mem := write_bytes (kmem_mem s) (pa0 + (va - va0)) (take n buf)\<rparr>
                        in if n = 0 then Block
                           else copyout pgdir (va0 + PGSIZE) (drop n buf) s1
               | Panic msg \<Rightarrow> Panic msg | Fault \<Rightarrow> Fault | Block \<Rightarrow> Block))"
  by pat_completeness auto
termination
  by (relation "measure (\<lambda>(pgdir, va, buf, s). length buf)") auto

declare copyout.simps [simp del]

section \<open>What a page table maps\<close>

text \<open>The page table that a directory entry points to, and the entry for an address.\<close>

definition pde_present :: "mem \<Rightarrow> addr \<Rightarrow> uint \<Rightarrow> bool" where
  "pde_present m pgdir d \<longleftrightarrow> load32 m (entry pgdir d) AND PTE_P \<noteq> 0"

definition pgtab_of :: "mem \<Rightarrow> addr \<Rightarrow> uint \<Rightarrow> addr" where
  "pgtab_of m pgdir d = P2V (PTE_ADDR (load32 m (entry pgdir d)))"

definition pte_loc :: "mem \<Rightarrow> addr \<Rightarrow> addr \<Rightarrow> addr" where
  "pte_loc m pgdir va = entry (pgtab_of m pgdir (PDX va)) (PTX va)"

text \<open>The translation: the entry of a mapped page, \<open>None\<close> where nothing is mapped.\<close>

definition vmap :: "mem \<Rightarrow> addr \<Rightarrow> addr \<Rightarrow> uint option" where
  "vmap m pgdir va =
     (if pde_present m pgdir (PDX va) \<and> load32 m (pte_loc m pgdir va) AND PTE_P \<noteq> 0
      then Some (load32 m (pte_loc m pgdir va)) else None)"

text \<open>The pages a page table is made of.\<close>

definition pt_pages :: "mem \<Rightarrow> addr \<Rightarrow> addr set" where
  "pt_pages m pgdir = insert pgdir (pgtab_of m pgdir ` {d. unat d < 1024 \<and> pde_present m pgdir d})"

text \<open>Well-formed: the directory and its tables are distinct pages, none of them free.\<close>

definition wf_pgdir :: "mem \<Rightarrow> addr \<Rightarrow> addr set \<Rightarrow> bool" where
  "wf_pgdir m pgdir F \<longleftrightarrow> page_aligned pgdir \<and> pgdir \<notin> F \<and> pgdir \<noteq> 0
     \<and> (\<forall>d. unat d < 1024 \<longrightarrow> pde_present m pgdir d \<longrightarrow>
           pgtab_of m pgdir d \<noteq> pgdir \<and> pgtab_of m pgdir d \<notin> F \<and> pgtab_of m pgdir d \<noteq> 0)
     \<and> (\<forall>d e. unat d < 1024 \<longrightarrow> unat e < 1024 \<longrightarrow> pde_present m pgdir d \<longrightarrow> pde_present m pgdir e \<longrightarrow>
           pgtab_of m pgdir d = pgtab_of m pgdir e \<longrightarrow> d = e)"

lemma page_aligned_pgtab_of [simp]: "page_aligned (pgtab_of m pgdir d)"
  by (simp add: pgtab_of_def)

lemma wf_pgdirD:
  assumes "wf_pgdir m pgdir F"
  shows "page_aligned pgdir" "pgdir \<notin> F" "pgdir \<noteq> 0"
    "\<And>d. unat d < 1024 \<Longrightarrow> pde_present m pgdir d \<Longrightarrow> pgtab_of m pgdir d \<noteq> pgdir"
    "\<And>d. unat d < 1024 \<Longrightarrow> pde_present m pgdir d \<Longrightarrow> pgtab_of m pgdir d \<notin> F"
    "\<And>d. unat d < 1024 \<Longrightarrow> pde_present m pgdir d \<Longrightarrow> pgtab_of m pgdir d \<noteq> 0"
    "\<And>d e. unat d < 1024 \<Longrightarrow> unat e < 1024 \<Longrightarrow> pde_present m pgdir d \<Longrightarrow> pde_present m pgdir e \<Longrightarrow>
       pgtab_of m pgdir d = pgtab_of m pgdir e \<Longrightarrow> d = e"
  using assms by (auto simp: wf_pgdir_def)

lemma wf_pgdir_mono: "wf_pgdir m pgdir F \<Longrightarrow> G \<subseteq> F \<Longrightarrow> wf_pgdir m pgdir G"
  by (auto simp: wf_pgdir_def)

lemma pde_agree:
  assumes "agree_page pgdir m m'" "page_aligned pgdir" "unat d < 1024"
  shows "load32 m' (entry pgdir d) = load32 m (entry pgdir d)"
  using assms by (intro load32_agree) simp_all

text \<open>Memory changes outside the pages of a page table do not change what it maps.\<close>

lemma page_table_frame:
  assumes "page_aligned pgdir" "\<forall>p \<in> pt_pages m pgdir. agree_page p m m'"
  shows "unat d < 1024 \<Longrightarrow> pde_present m' pgdir d = pde_present m pgdir d"
    "unat d < 1024 \<Longrightarrow> pgtab_of m' pgdir d = pgtab_of m pgdir d"
    "pt_pages m' pgdir = pt_pages m pgdir"
    "vmap m' pgdir va = vmap m pgdir va"
    "wf_pgdir m' pgdir F = wf_pgdir m pgdir F"
proof -
  have "agree_page pgdir m m'" using assms(2) by (simp add: pt_pages_def)
  then have pde: "unat d < 1024 \<Longrightarrow> load32 m' (entry pgdir d) = load32 m (entry pgdir d)" for d
    using assms(1) by (rule pde_agree)
  show p: "unat d < 1024 \<Longrightarrow> pde_present m' pgdir d = pde_present m pgdir d"
    and t: "unat d < 1024 \<Longrightarrow> pgtab_of m' pgdir d = pgtab_of m pgdir d" for d
    by (simp_all add: pde_present_def pgtab_of_def pde)
  show "pt_pages m' pgdir = pt_pages m pgdir"
    by (auto simp: pt_pages_def p t intro!: image_cong)
  show "wf_pgdir m' pgdir F = wf_pgdir m pgdir F"
    by (simp add: wf_pgdir_def p t)
  have "load32 m' (pte_loc m pgdir va) = load32 m (pte_loc m pgdir va)" if "pde_present m pgdir (PDX va)"
    using that assms(2) unfolding pte_loc_def
    by (intro load32_agree [of "pgtab_of m pgdir (PDX va)"]) (auto simp: pt_pages_def)
  then show "vmap m' pgdir va = vmap m pgdir va"
    by (cases "pde_present m pgdir (PDX va)") (simp_all add: vmap_def p pte_loc_def t)
qed

section \<open>Walking\<close>

lemma walkpgdir_noalloc:
  "walkpgdir pgdir va False s =
     (if pde_present (kmem_mem s) pgdir (PDX va) then (pte_loc (kmem_mem s) pgdir va, s) else (0, s))"
  by (simp add: walkpgdir_def pde_present_def pte_loc_def pgtab_of_def Let_def)

lemma walkpgdir_present:
  "pde_present (kmem_mem s) pgdir (PDX va) \<Longrightarrow>
     walkpgdir pgdir va b s = (pte_loc (kmem_mem s) pgdir va, s)"
  by (simp add: walkpgdir_def pde_present_def pte_loc_def pgtab_of_def Let_def)

text \<open>
  One step of building a page table: the free list loses a prefix, the table stays well-formed
  and grows only by pages taken from the free list, and every other page keeps its content.
\<close>

definition pt_step :: "addr \<Rightarrow> kmem \<Rightarrow> addr list \<Rightarrow> kmem \<Rightarrow> addr list \<Rightarrow> bool" where
  "pt_step pgdir s ps s' ps' \<longleftrightarrow>
     free_pages s' ps' \<and> (\<exists>us. ps = us @ ps') \<and> wf_pgdir (kmem_mem s') pgdir (set ps')
     \<and> pt_pages (kmem_mem s') pgdir = pt_pages (kmem_mem s) pgdir \<union> (set ps - set ps')
     \<and> (\<forall>q. q \<notin> set ps \<longrightarrow> q \<notin> pt_pages (kmem_mem s) pgdir \<longrightarrow> agree_page q (kmem_mem s) (kmem_mem s'))
     \<and> kend s' = kend s \<and> kdata s' = kdata s \<and> use_lock s' = use_lock s"

lemma pt_step_refl:
  "free_pages s ps \<Longrightarrow> wf_pgdir (kmem_mem s) pgdir (set ps) \<Longrightarrow> pt_step pgdir s ps s ps"
  by (simp add: pt_step_def)

lemma pt_stepD:
  assumes "pt_step pgdir s ps s' ps'"
  shows "free_pages s' ps'" "set ps' \<subseteq> set ps" "wf_pgdir (kmem_mem s') pgdir (set ps')"
    "pt_pages (kmem_mem s) pgdir \<subseteq> pt_pages (kmem_mem s') pgdir"
    "pt_pages (kmem_mem s') pgdir = pt_pages (kmem_mem s) pgdir \<union> (set ps - set ps')"
    "\<And>q. q \<notin> set ps \<Longrightarrow> q \<notin> pt_pages (kmem_mem s) pgdir \<Longrightarrow> agree_page q (kmem_mem s) (kmem_mem s')"
    "kend s' = kend s" "kdata s' = kdata s" "use_lock s' = use_lock s"
  using assms by (auto simp: pt_step_def)

lemma pt_step_trans:
  assumes "pt_step pgdir s ps s1 ps1" "pt_step pgdir s1 ps1 s2 ps2"
  shows "pt_step pgdir s ps s2 ps2"
proof -
  note d1 = pt_stepD [OF assms(1)] and d2 = pt_stepD [OF assms(2)]
  have "agree_page q (kmem_mem s) (kmem_mem s2)"
    if "q \<notin> set ps" "q \<notin> pt_pages (kmem_mem s) pgdir" for q
    using that d1 d2 by (blast intro: agree_page_trans)
  moreover have "\<exists>us. ps = us @ ps2" using assms by (auto simp: pt_step_def)
  ultimately show ?thesis
    unfolding pt_step_def using d1 d2 by (intro conjI allI impI) (simp_all, blast+)
qed

lemma entry_nonzero: "page_aligned p \<Longrightarrow> p \<noteq> 0 \<Longrightarrow> unat i < 1024 \<Longrightarrow> entry p i \<noteq> 0"
  by (auto simp: word_unat_eq_iff unat_entry)

lemma pte_loc_nonzero:
  "wf_pgdir m pgdir F \<Longrightarrow> pde_present m pgdir (PDX va) \<Longrightarrow> pte_loc m pgdir va \<noteq> 0"
  by (simp add: pte_loc_def entry_nonzero wf_pgdirD)

text \<open>Storing an entry of an existing table changes the translation of that page only.\<close>

lemma store_pte:
  assumes "free_pages s ps" "wf_pgdir (kmem_mem s) pgdir (set ps)"
    and "pde_present (kmem_mem s) pgdir (PDX va)"
    and s': "s' = s\<lparr>kmem_mem := store32 (kmem_mem s) (pte_loc (kmem_mem s) pgdir va) v\<rparr>"
  shows "pt_step pgdir s ps s' ps"
    and "vmap (kmem_mem s') pgdir x =
      (if PDX x = PDX va \<and> PTX x = PTX va then if v AND PTE_P \<noteq> 0 then Some v else None
       else vmap (kmem_mem s) pgdir x)"
proof -
  let ?m = "kmem_mem s" and ?t = "pgtab_of (kmem_mem s) pgdir (PDX va)"
  let ?l = "pte_loc ?m pgdir va" and ?m' = "kmem_mem s'"
  note wf = wf_pgdirD [OF assms(2)]
  have l: "aligned4 ?l" "page_of ?l = ?t" by (simp_all add: pte_loc_def)
  have t: "?t \<noteq> pgdir" "?t \<notin> set ps" "?t \<in> pt_pages ?m pgdir"
    using wf(4,5) assms(3) by (auto simp: pt_pages_def)
  have m': "?m' = store32 ?m ?l v" by (simp add: s')
  have other: "q \<noteq> ?t \<Longrightarrow> agree_page q ?m ?m'" for q
    unfolding m' using l by (intro agree_page_store32) auto
  have pde: "unat d < 1024 \<Longrightarrow> load32 ?m' (entry pgdir d) = load32 ?m (entry pgdir d)" for d
    using other t(1) wf(1) by (intro pde_agree) auto
  have p: "unat d < 1024 \<Longrightarrow> pde_present ?m' pgdir d = pde_present ?m pgdir d"
    and tab: "unat d < 1024 \<Longrightarrow> pgtab_of ?m' pgdir d = pgtab_of ?m pgdir d" for d
    by (simp_all add: pde_present_def pgtab_of_def pde)
  have pp: "pt_pages ?m' pgdir = pt_pages ?m pgdir"
    by (auto simp: pt_pages_def p tab intro!: image_cong)
  have fp: "free_pages s' ps"
    using assms(1)
  proof (rule free_pages_frame)
    fix p assume "p \<in> set ps"
    then show "agree_page p ?m ?m'" using t(2) by (intro other) auto
  qed (simp_all add: s')
  have wf': "wf_pgdir ?m' pgdir (set ps)" using assms(2) by (simp add: wf_pgdir_def p tab)
  have fr: "q \<notin> pt_pages ?m pgdir \<Longrightarrow> agree_page q ?m ?m'" for q
    using other [of q] t(3) by metis
  show "pt_step pgdir s ps s' ps"
    unfolding pt_step_def using fp wf' fr by (simp add: pp) (simp add: s')
  have loc: "pte_loc ?m' pgdir x = pte_loc ?m pgdir x" by (simp add: pte_loc_def tab)
  show "vmap ?m' pgdir x = (if PDX x = PDX va \<and> PTX x = PTX va
      then if v AND PTE_P \<noteq> 0 then Some v else None else vmap ?m pgdir x)"
  proof (cases "PDX x = PDX va \<and> PTX x = PTX va")
    case True
    then have "pte_loc ?m pgdir x = ?l" by (simp add: pte_loc_def)
    moreover have "load32 ?m' ?l = v" by (simp add: m')
    ultimately show ?thesis using True assms(3) by (simp add: vmap_def p loc)
  next
    case False
    have "load32 ?m' (pte_loc ?m pgdir x) = load32 ?m (pte_loc ?m pgdir x)"
      if "pde_present ?m pgdir (PDX x)"
    proof -
      have "pte_loc ?m pgdir x \<noteq> ?l"
      proof
        assume eq: "pte_loc ?m pgdir x = ?l"
        then have "page_of (pte_loc ?m pgdir x) = page_of ?l" by simp
        then have "pgtab_of ?m pgdir (PDX x) = ?t" by (simp add: pte_loc_def)
        then have "PDX x = PDX va" using wf(7) that assms(3) by simp
        moreover from this eq have "PTX x = PTX va" by (simp add: pte_loc_def)
        ultimately show False using False by simp
      qed
      then show ?thesis unfolding m' using l(1) by (intro load32_store32_other) (auto simp: pte_loc_def)
    qed
    then show ?thesis using False
      by (cases "pde_present ?m pgdir (PDX x)") (auto simp: vmap_def p loc)
  qed
qed

text \<open>Walking with allocation: no change, or a new empty table, or out of memory.\<close>

lemma new_table:
  assumes "free_pages s (p # ps)" "wf_pgdir (kmem_mem s) pgdir (set (p # ps))"
    and "\<not> pde_present (kmem_mem s) pgdir (PDX va)"
    and s': "s' = s\<lparr>freelist := load32 (kmem_mem s) p, kmem_mem :=
       store32 (stosb (kmem_mem s) p 0 4096) (entry pgdir (PDX va)) (V2P p OR PTE_P OR PTE_W OR PTE_U)\<rparr>"
  shows "pt_step pgdir s (p # ps) s' ps" "pde_present (kmem_mem s') pgdir (PDX va)"
    "pgtab_of (kmem_mem s') pgdir (PDX va) = p"
    "vmap (kmem_mem s') pgdir x = vmap (kmem_mem s) pgdir x"
proof -
  let ?m = "kmem_mem s" and ?d = "PDX va" and ?m1 = "stosb (kmem_mem s) p 0 4096"
  let ?m' = "kmem_mem s'"
  have p: "page_aligned p" "p \<notin> set ps" "p \<noteq> 0" "p \<noteq> pgdir"
    using assms(1,2) usable_page_nonzero by (auto simp: free_pages_def usable_page_def wf_pgdir_def)
  note wf = wf_pgdirD [OF assms(2)]
  have m': "?m' = store32 ?m1 (entry pgdir ?d) (V2P p OR PTE_P OR PTE_W OR PTE_U)"
    by (simp add: s')
  have e: "aligned4 (entry pgdir ?d)" "page_of (entry pgdir ?d) = pgdir" using wf(1) by simp_all
  have other: "q \<noteq> pgdir \<Longrightarrow> q \<noteq> p \<Longrightarrow> agree_page q ?m ?m'" for q
    unfolding m' using p(1) e
    by (blast intro: agree_page_trans agree_page_stosb agree_page_store32)
  have pde_other: "load32 ?m' (entry pgdir d) = load32 ?m (entry pgdir d)"
    if "unat d < 1024" "d \<noteq> ?d" for d
  proof -
    have "load32 ?m' (entry pgdir d) = load32 ?m1 (entry pgdir d)"
      unfolding m' using that wf(1) by (intro load32_store32_other) auto
    also have "\<dots> = load32 ?m (entry pgdir d)"
      using that wf(1) p by (intro pde_agree agree_page_stosb) auto
    finally show ?thesis .
  qed
  have fl: "PTE_P OR PTE_W OR PTE_U = 7" by (simp add: pte_flag_defs)
  have pde_here: "load32 ?m' (entry pgdir ?d) = V2P p OR 7"
    unfolding m' by (simp add: or.assoc fl)
  have "(V2P p OR 7) AND PTE_P = PTE_P"
    by (rule bit_word_eqI) (auto simp: bit_simps PTE_P_def bit_1_iff)
  then show here: "pde_present ?m' pgdir ?d" by (simp add: pde_present_def pde_here)
  show tab_here: "pgtab_of ?m' pgdir ?d = p"
    using p(1) by (simp add: pgtab_of_def pde_here)
  have pres: "pde_present ?m' pgdir d \<longleftrightarrow> d = ?d \<or> pde_present ?m pgdir d"
    and tab: "d \<noteq> ?d \<Longrightarrow> pgtab_of ?m' pgdir d = pgtab_of ?m pgdir d" if "unat d < 1024" for d
    using that here pde_other [of d] by (cases "d = ?d"; simp add: pde_present_def pgtab_of_def)+
  have pp: "pt_pages ?m' pgdir = insert p (pt_pages ?m pgdir)"
  proof -
    have "{d. unat d < 1024 \<and> pde_present ?m' pgdir d} =
        insert ?d {d. unat d < 1024 \<and> pde_present ?m pgdir d}"
      using pres by auto
    moreover have "pgtab_of ?m' pgdir ` {d. unat d < 1024 \<and> pde_present ?m pgdir d} =
        pgtab_of ?m pgdir ` {d. unat d < 1024 \<and> pde_present ?m pgdir d}"
      using tab assms(3) by (intro image_cong) auto
    ultimately show ?thesis by (auto simp: pt_pages_def tab_here)
  qed
  have wf': "wf_pgdir ?m' pgdir (set ps)"
    unfolding wf_pgdir_def
  proof (intro conjI allI impI)
    fix d e assume *: "unat d < 1024" "unat e < 1024" "pde_present ?m' pgdir d"
      "pde_present ?m' pgdir e" "pgtab_of ?m' pgdir d = pgtab_of ?m' pgdir e"
    show "d = e"
    proof (cases "d = ?d \<or> e = ?d")
      case True
      then show ?thesis using * pres tab tab_here wf(5) by (metis list.set_intros(1))
    next
      case False
      then show ?thesis using * pres tab wf(7) by metis
    qed
  next
    fix d assume *: "unat d < 1024" "pde_present ?m' pgdir d"
    show "pgtab_of ?m' pgdir d \<noteq> pgdir" "pgtab_of ?m' pgdir d \<notin> set ps" "pgtab_of ?m' pgdir d \<noteq> 0"
      using * pres [of d] tab [of d] tab_here p wf(4,5,6) [of d] by (cases "d = ?d"; auto)+
  qed (use wf in auto)
  have fp: "free_pages s' ps"
    using kalloc_Cons(2) [OF assms(1)]
  proof (rule free_pages_frame)
    fix q assume "q \<in> set ps"
    then have "q \<noteq> pgdir" "q \<noteq> p" using p wf(2) by auto
    then show "agree_page q (kmem_mem (s\<lparr>freelist := load32 (kmem_mem s) p\<rparr>)) ?m'"
      using other by simp
  qed (simp_all add: s')
  have fr: "agree_page q ?m ?m'" if "q \<notin> set (p # ps)" "q \<notin> pt_pages ?m pgdir" for q
    using that other by (auto simp: pt_pages_def)
  show "pt_step pgdir s (p # ps) s' ps"
    unfolding pt_step_def using fp wf' fr p by (simp add: pp) (auto simp: s')
  show "vmap ?m' pgdir x = vmap ?m pgdir x"
  proof (cases "PDX x = ?d")
    case True
    have "load32 ?m' (pte_loc ?m' pgdir x) = 0"
    proof -
      have l: "aligned4 (pte_loc ?m' pgdir x)" "page_of (pte_loc ?m' pgdir x) = p"
        using True tab_here p(1) by (simp_all add: pte_loc_def)
      have "agree_page p ?m1 ?m'"
        unfolding m' using p(4) e by (intro agree_page_store32) auto
      then show ?thesis using load32_agree l load32_stosb_page [OF p(1) l] by metis
    qed
    then show ?thesis using True assms(3) by (simp add: vmap_def)
  next
    case False
    have "load32 ?m' (pte_loc ?m pgdir x) = load32 ?m (pte_loc ?m pgdir x)"
      if "pde_present ?m pgdir (PDX x)"
      using that wf(4,5) [of "PDX x"] unfolding pte_loc_def
      by (intro load32_agree [of "pgtab_of ?m pgdir (PDX x)"] other) auto
    then show ?thesis using False pres [of "PDX x"] tab [of "PDX x"]
      by (cases "pde_present ?m pgdir (PDX x)") (auto simp: vmap_def pte_loc_def)
  qed
qed

lemma walkpgdir_alloc:
  assumes "free_pages s ps" "wf_pgdir (kmem_mem s) pgdir (set ps)"
    and "walkpgdir pgdir va True s = (pte, s')"
  shows "pte = 0 \<and> ps = [] \<and> s' = s \<and> \<not> pde_present (kmem_mem s) pgdir (PDX va)
    \<or> pte \<noteq> 0 \<and> pte = pte_loc (kmem_mem s') pgdir va \<and> pde_present (kmem_mem s') pgdir (PDX va)
      \<and> (\<forall>x. vmap (kmem_mem s') pgdir x = vmap (kmem_mem s) pgdir x)
      \<and> (\<exists>ps'. pt_step pgdir s ps s' ps')"
proof (cases "pde_present (kmem_mem s) pgdir (PDX va)")
  case True
  then show ?thesis
    using assms pte_loc_nonzero [OF assms(2) True] pt_step_refl [OF assms(1,2)]
    by (auto simp: walkpgdir_present)
next
  case False
  then have absent: "\<not> load32 (kmem_mem s) (entry pgdir (PDX va)) AND PTE_P \<noteq> 0"
    by (simp add: pde_present_def)
  show ?thesis
  proof (cases ps)
    case Nil
    then show ?thesis using assms False absent kalloc_empty [of s] by (simp add: walkpgdir_def)
  next
    case (Cons p qs)
    let ?s' = "s\<lparr>freelist := load32 (kmem_mem s) p, kmem_mem :=
       store32 (stosb (kmem_mem s) p 0 4096) (entry pgdir (PDX va)) (V2P p OR PTE_P OR PTE_W OR PTE_U)\<rparr>"
    have fr: "free_pages s (p # qs)" and wf: "wf_pgdir (kmem_mem s) pgdir (set (p # qs))"
      using assms Cons by simp_all
    have "p \<noteq> 0" using ka.frees_nonzero [OF fr] by auto
    then have w: "walkpgdir pgdir va True s = (entry p (PTX va), ?s')"
      using absent by (simp add: walkpgdir_def kalloc_Cons(1) [OF fr] memset_eq_stosb PGSIZE_def)
    note nt = new_table [OF fr wf False refl]
    have "entry p (PTX va) = pte_loc (kmem_mem ?s') pgdir va"
      using nt(3) by (simp add: pte_loc_def)
    moreover have "pte_loc (kmem_mem ?s') pgdir va \<noteq> 0"
      using nt(2) pt_stepD(3) [OF nt(1)] by (rule pte_loc_nonzero [rotated])
    moreover have "pte = entry p (PTX va)" "s' = ?s'" using assms(3) w by simp_all
    ultimately show ?thesis using nt Cons by metis
  qed
qed

end
