(* ===== verification/Vm_Map.thy ===== *)
theory Vm_Map
  imports Vm
begin

text \<open>
  What \<^verbatim>\<open>mappages\<close> does to the translation of a page table.
\<close>

section \<open>Mapping a range\<close>

lemma map_one:
  assumes "free_pages s ps" "wf_pgdir (kmem_mem s) pgdir (set ps)" "page_aligned a"
    and "walkpgdir pgdir a True s = (pte, s1)" "pte \<noteq> 0"
  shows "load32 (kmem_mem s1) pte AND PTE_P \<noteq> 0 \<longleftrightarrow> vmap (kmem_mem s) pgdir a \<noteq> None"
    and "s2 = s1\<lparr>kmem_mem := store32 (kmem_mem s1) pte v\<rparr> \<Longrightarrow> \<exists>ps2. pt_step pgdir s ps s2 ps2"
    and "s2 = s1\<lparr>kmem_mem := store32 (kmem_mem s1) pte v\<rparr> \<Longrightarrow> v AND PTE_P \<noteq> 0 \<Longrightarrow>
      vmap (kmem_mem s2) pgdir x = (if PGROUNDDOWN x = a then Some v else vmap (kmem_mem s) pgdir x)"
proof -
  obtain ps1 where w: "pte = pte_loc (kmem_mem s1) pgdir a" "pde_present (kmem_mem s1) pgdir (PDX a)"
    "\<And>x. vmap (kmem_mem s1) pgdir x = vmap (kmem_mem s) pgdir x" "pt_step pgdir s ps s1 ps1"
    using walkpgdir_alloc [OF assms(1,2,4)] assms(5) by blast
  show "load32 (kmem_mem s1) pte AND PTE_P \<noteq> 0 \<longleftrightarrow> vmap (kmem_mem s) pgdir a \<noteq> None"
    unfolding w(3) [symmetric] using w(1,2) by (simp add: vmap_def)
  assume s2: "s2 = s1\<lparr>kmem_mem := store32 (kmem_mem s1) pte v\<rparr>"
  note st = store_pte [OF pt_stepD(1,3) [OF w(4)] w(2) s2 [unfolded w(1)]]
  show "\<exists>ps2. pt_step pgdir s ps s2 ps2" using pt_step_trans [OF w(4) st(1)] by blast
  show "v AND PTE_P \<noteq> 0 \<Longrightarrow>
      vmap (kmem_mem s2) pgdir x = (if PGROUNDDOWN x = a then Some v else vmap (kmem_mem s) pgdir x)"
    using st(2) [of x] by (simp add: same_page_iff [OF assms(3)] w(3))
qed

text \<open>The pages from \<open>a\<close> up to and including \<open>lst\<close>, and what \<^verbatim>\<open>mappages\<close> writes for them.\<close>

definition in_range :: "addr \<Rightarrow> addr \<Rightarrow> addr \<Rightarrow> bool" where
  "in_range a lst x \<longleftrightarrow> PGROUNDDOWN x - a \<le> lst - a"

definition new_pte :: "addr \<Rightarrow> uint \<Rightarrow> uint \<Rightarrow> addr \<Rightarrow> uint" where
  "new_pte a pa perm x = (pa + (PGROUNDDOWN x - a)) OR perm OR PTE_P"

definition mapped_to :: "mem \<Rightarrow> mem \<Rightarrow> addr \<Rightarrow> addr \<Rightarrow> addr \<Rightarrow> uint \<Rightarrow> uint \<Rightarrow> bool" where
  "mapped_to m m' pgdir a lst pa perm \<longleftrightarrow>
     (\<forall>x. vmap m' pgdir x = (if in_range a lst x then Some (new_pte a pa perm x) else vmap m pgdir x))"

definition mapped_part :: "mem \<Rightarrow> mem \<Rightarrow> addr \<Rightarrow> addr \<Rightarrow> addr \<Rightarrow> uint \<Rightarrow> uint \<Rightarrow> bool" where
  "mapped_part m m' pgdir a lst pa perm \<longleftrightarrow>
     (\<forall>x. vmap m' pgdir x = vmap m pgdir x
        \<or> in_range a lst x \<and> vmap m pgdir x = None \<and> vmap m' pgdir x = Some (new_pte a pa perm x))"

lemma in_range_step:
  "page_aligned a \<Longrightarrow> page_aligned lst \<Longrightarrow> a \<noteq> lst \<Longrightarrow>
    in_range (a + PGSIZE) lst x \<longleftrightarrow> PGROUNDDOWN x \<noteq> a \<and> in_range a lst x"
  by (simp add: in_range_def range_step)

lemma in_range_last: "page_aligned a \<Longrightarrow> in_range a a x \<longleftrightarrow> PGROUNDDOWN x = a"
  by (auto simp: in_range_def)

lemma in_range_first [simp]: "page_aligned a \<Longrightarrow> in_range a lst a"
  by (simp add: in_range_def PGROUNDDOWN_id)

lemma new_pte_step [simp]: "new_pte (a + PGSIZE) (pa + PGSIZE) perm x = new_pte a pa perm x"
  by (simp add: new_pte_def)

lemma new_pte_first: "page_aligned a \<Longrightarrow> PGROUNDDOWN x = a \<Longrightarrow> new_pte a pa perm x = pa OR perm OR PTE_P"
  by (simp add: new_pte_def)

text \<open>The loop of \<^verbatim>\<open>mappages\<close>: all mapped, or out of memory half-way, or a page was mapped before.\<close>

definition mappages_post :: "addr \<Rightarrow> addr \<Rightarrow> addr \<Rightarrow> uint \<Rightarrow> uint \<Rightarrow> kmem \<Rightarrow> addr list \<Rightarrow> (int \<times> kmem) res \<Rightarrow> bool" where
  "mappages_post pgdir a lst pa perm s ps res = (case res of
       Ok (r, s') \<Rightarrow> (\<exists>ps'. pt_step pgdir s ps s' ps' \<and>
           (r = 0 \<and> mapped_to (kmem_mem s) (kmem_mem s') pgdir a lst pa perm
              \<and> (\<forall>x. in_range a lst x \<longrightarrow> vmap (kmem_mem s) pgdir x = None)
            \<or> r = -1 \<and> ps' = [] \<and> mapped_part (kmem_mem s) (kmem_mem s') pgdir a lst pa perm
              \<and> vmap (kmem_mem s') pgdir lst = vmap (kmem_mem s) pgdir lst))
     | Panic msg \<Rightarrow> msg = ''remap'' \<and> (\<exists>x. in_range a lst x \<and> vmap (kmem_mem s) pgdir x \<noteq> None)
     | _ \<Rightarrow> False)"

lemma vmap_page: "vmap m pgdir (PGROUNDDOWN x) = vmap m pgdir x"
  by (simp add: vmap_def pte_loc_def)

lemma mappages_post_step:
  assumes "page_aligned a" "page_aligned lst" "a \<noteq> lst" "vmap (kmem_mem s) pgdir a = None"
    and "pt_step pgdir s ps s2 ps2"
    and "\<And>x. vmap (kmem_mem s2) pgdir x =
      (if PGROUNDDOWN x = a then Some (pa OR perm OR PTE_P) else vmap (kmem_mem s) pgdir x)"
    and "mappages_post pgdir (a + PGSIZE) lst (pa + PGSIZE) perm s2 ps2 res"
  shows "mappages_post pgdir a lst pa perm s ps res"
proof -
  note rng = in_range_step [OF assms(1-3)] and first = new_pte_first [OF assms(1)]
  have none: "vmap (kmem_mem s) pgdir x = None" if "PGROUNDDOWN x = a" for x
    using that assms(4) vmap_page [of "kmem_mem s" pgdir x] by simp
  have inr: "in_range a lst x" if "PGROUNDDOWN x = a" for x
    using that by (simp add: in_range_def)
  show ?thesis
  proof (cases res)
    case (Ok v)
    obtain r s' where v: "v = (r, s')" by (cases v)
    then obtain ps' where st: "pt_step pgdir s2 ps2 s' ps'" and
      post: "r = 0 \<and> mapped_to (kmem_mem s2) (kmem_mem s') pgdir (a + PGSIZE) lst (pa + PGSIZE) perm
              \<and> (\<forall>x. in_range (a + PGSIZE) lst x \<longrightarrow> vmap (kmem_mem s2) pgdir x = None)
            \<or> r = -1 \<and> ps' = [] \<and> mapped_part (kmem_mem s2) (kmem_mem s') pgdir (a + PGSIZE) lst (pa + PGSIZE) perm
              \<and> vmap (kmem_mem s') pgdir lst = vmap (kmem_mem s2) pgdir lst"
      using assms(7) Ok by (auto simp: mappages_post_def)
    note tr = pt_step_trans [OF assms(5) st]
    from post show ?thesis
    proof (elim disjE conjE)
      assume p: "r = 0" "mapped_to (kmem_mem s2) (kmem_mem s') pgdir (a + PGSIZE) lst (pa + PGSIZE) perm"
        "\<forall>x. in_range (a + PGSIZE) lst x \<longrightarrow> vmap (kmem_mem s2) pgdir x = None"
      have "mapped_to (kmem_mem s) (kmem_mem s') pgdir a lst pa perm"
        using p(2) by (auto simp: mapped_to_def rng assms(6) first inr)
      moreover have "\<forall>x. in_range a lst x \<longrightarrow> vmap (kmem_mem s) pgdir x = None"
        using p(3) none by (force simp: rng assms(6))
      ultimately show ?thesis using tr Ok v p(1) by (auto simp: mappages_post_def)
    next
      assume p: "r = -1" "ps' = []"
        "mapped_part (kmem_mem s2) (kmem_mem s') pgdir (a + PGSIZE) lst (pa + PGSIZE) perm"
        "vmap (kmem_mem s') pgdir lst = vmap (kmem_mem s2) pgdir lst"
      have "vmap (kmem_mem s') pgdir lst = vmap (kmem_mem s) pgdir lst"
        using p(4) assms(3) by (simp add: assms(6) PGROUNDDOWN_id [OF assms(2)])
      moreover have "mapped_part (kmem_mem s) (kmem_mem s') pgdir a lst pa perm"
        unfolding mapped_part_def
      proof
        fix x
        show "vmap (kmem_mem s') pgdir x = vmap (kmem_mem s) pgdir x \<or> in_range a lst x
          \<and> vmap (kmem_mem s) pgdir x = None \<and> vmap (kmem_mem s') pgdir x = Some (new_pte a pa perm x)"
          using p(3) [unfolded mapped_part_def, THEN spec, of x] none [of x]
          by (cases "PGROUNDDOWN x = a") (auto simp: rng assms(6) first inr)
      qed
      ultimately show ?thesis using tr Ok v p(1,2) by (auto simp: mappages_post_def)
    qed
  qed (use assms(7) in \<open>auto simp: mappages_post_def rng assms(6)\<close>)
qed

lemma mappages_loop_spec:
  assumes "free_pages s ps" "wf_pgdir (kmem_mem s) pgdir (set ps)" "page_aligned a" "page_aligned lst"
  shows "mappages_post pgdir a lst pa perm s ps (mappages_loop pgdir a lst pa perm s)"
  using assms
proof (induction pgdir a lst pa perm s arbitrary: ps rule: mappages_loop.induct)
  case (1 pgdir a lst pa perm s)
  note IH = 1(1) and fr = 1(2) and wf = 1(3) and al = 1(4,5)
  obtain pte s1 where w: "walkpgdir pgdir a True s = (pte, s1)" by (cases "walkpgdir pgdir a True s")
  show ?case
  proof (cases "pte = 0")
    case True
    then have "ps = []" "s1 = s" using walkpgdir_alloc [OF fr wf w] by auto
    then show ?thesis using w True pt_step_refl [OF fr wf]
      by (simp add: mappages_loop.simps [of pgdir a] mappages_post_def mapped_part_def)
  next
    case False
    note one = map_one [OF fr wf al(1) w False]
    show ?thesis
    proof (cases "load32 (kmem_mem s1) pte AND PTE_P = 0")
      case False
      then show ?thesis
        using w \<open>pte \<noteq> 0\<close> one(1) in_range_first [OF al(1), of lst]
        by (fastforce simp: mappages_loop.simps [of pgdir a] mappages_post_def)
    next
      case True
      define s2 where "s2 = s1\<lparr>kmem_mem := store32 (kmem_mem s1) pte (pa OR perm OR PTE_P)\<rparr>"
      obtain ps2 where st: "pt_step pgdir s ps s2 ps2" using one(2) [OF s2_def] by blast
      have vm: "vmap (kmem_mem s2) pgdir x =
        (if PGROUNDDOWN x = a then Some (pa OR perm OR PTE_P) else vmap (kmem_mem s) pgdir x)" for x
        by (rule one(3) [OF s2_def]) (simp add: PTE_P_or PTE_P_or3)
      have none: "vmap (kmem_mem s) pgdir a = None" using one(1) True by simp
      show ?thesis
      proof (cases "a = lst")
        case end_: True
        have "mapped_to (kmem_mem s) (kmem_mem s2) pgdir a lst pa perm"
          using end_ al vm by (simp add: mapped_to_def in_range_last new_pte_first)
        moreover have "\<forall>x. in_range a lst x \<longrightarrow> vmap (kmem_mem s) pgdir x = None"
          using end_ al none vmap_page [of "kmem_mem s" pgdir] by (auto simp: in_range_last)
        moreover have "mappages_loop pgdir a lst pa perm s = Ok (0, s2)"
          by (subst mappages_loop.simps) (use w False True end_ in \<open>simp add: s2_def\<close>)
        ultimately show ?thesis using st by (auto simp: mappages_post_def)
      next
        case ne: False
        have ge: "\<not> lst - a < PGSIZE" using page_aligned_ge [of "lst - a"] al ne by (simp add: not_less)
        have "mappages_post pgdir (a + PGSIZE) lst (pa + PGSIZE) perm s2 ps2
            (mappages_loop pgdir (a + PGSIZE) lst (pa + PGSIZE) perm s2)"
          using IH [OF w [symmetric] refl False _ s2_def ne ge, of ps2] True pt_stepD(1,3) [OF st] al by simp
        from mappages_post_step [OF al ne none st vm this] show ?thesis
          using w False True ne ge by (simp add: mappages_loop.simps [of pgdir a] Let_def s2_def)
      qed
    qed
  qed
qed

end
