(* ===== verification/Vm_Space.thy ===== *)
theory Vm_Space
  imports Vm_Map
begin

text \<open>
  Address spaces that own their pages: shrinking one (\<^verbatim>\<open>deallocuvm\<close>) and freeing it (\<^verbatim>\<open>freevm\<close>).
\<close>

section \<open>Address spaces\<close>

text \<open>The physical frame of an entry, by its kernel address.\<close>

definition frame :: "uint \<Rightarrow> addr" where
  "frame e = P2V (PTE_ADDR e)"

text \<open>
  An address space that owns its memory: its tables and the frames of its user part are usable
  pages, none of them free, and no frame is a table or is mapped twice.
\<close>

definition wf_space :: "kmem \<Rightarrow> addr \<Rightarrow> addr list \<Rightarrow> bool" where
  "wf_space s pgdir ps \<longleftrightarrow> free_pages s ps \<and> wf_pgdir (kmem_mem s) pgdir (set ps)
     \<and> (\<forall>p \<in> pt_pages (kmem_mem s) pgdir. usable_page s p)
     \<and> (\<forall>x e. x < KERNBASE \<longrightarrow> vmap (kmem_mem s) pgdir x = Some e \<longrightarrow>
          usable_page s (frame e) \<and> frame e \<notin> set ps
          \<and> frame e \<notin> pt_pages (kmem_mem s) pgdir)
     \<and> (\<forall>x y e f. x < KERNBASE \<longrightarrow> y < KERNBASE \<longrightarrow> vmap (kmem_mem s) pgdir x = Some e \<longrightarrow>
          vmap (kmem_mem s) pgdir y = Some f \<longrightarrow> frame e = frame f \<longrightarrow> PGROUNDDOWN x = PGROUNDDOWN y)"

lemma wf_spaceD:
  assumes "wf_space s pgdir ps"
  shows "free_pages s ps" "wf_pgdir (kmem_mem s) pgdir (set ps)"
    "\<And>p. p \<in> pt_pages (kmem_mem s) pgdir \<Longrightarrow> usable_page s p"
    "\<And>x e. x < KERNBASE \<Longrightarrow> vmap (kmem_mem s) pgdir x = Some e \<Longrightarrow> PTE_ADDR e \<noteq> 0"
    "\<And>x e. x < KERNBASE \<Longrightarrow> vmap (kmem_mem s) pgdir x = Some e \<Longrightarrow> usable_page s (frame e)"
    "\<And>x e. x < KERNBASE \<Longrightarrow> vmap (kmem_mem s) pgdir x = Some e \<Longrightarrow> frame e \<notin> set ps"
    "\<And>x e. x < KERNBASE \<Longrightarrow> vmap (kmem_mem s) pgdir x = Some e \<Longrightarrow> frame e \<notin> pt_pages (kmem_mem s) pgdir"
    "\<And>x y e f. x < KERNBASE \<Longrightarrow> y < KERNBASE \<Longrightarrow> vmap (kmem_mem s) pgdir x = Some e \<Longrightarrow>
       vmap (kmem_mem s) pgdir y = Some f \<Longrightarrow> frame e = frame f \<Longrightarrow> PGROUNDDOWN x = PGROUNDDOWN y"
proof -
  fix x e assume x: "x < KERNBASE" "vmap (kmem_mem s) pgdir x = Some e"
  have "usable_page s (frame e)" "KERNBASE < kend s"
    using assms x by (auto simp: wf_space_def free_pages_def)
  then show "PTE_ADDR e \<noteq> 0" using usable_page_V2P by (fastforce simp: frame_def)
qed (use assms in \<open>unfold wf_space_def, blast+\<close>)

text \<open>What an operation on a space leaves alone: the tables, and every page it does not name.\<close>

definition space_step :: "kmem \<Rightarrow> addr \<Rightarrow> addr set \<Rightarrow> kmem \<Rightarrow> bool" where
  "space_step s pgdir A s' \<longleftrightarrow>
     pt_pages (kmem_mem s') pgdir = pt_pages (kmem_mem s) pgdir \<and> kend s' = kend s
     \<and> kdata s' = kdata s \<and> use_lock s' = use_lock s
     \<and> (\<forall>q. q \<notin> A \<longrightarrow> q \<notin> pt_pages (kmem_mem s) pgdir \<longrightarrow> agree_page q (kmem_mem s) (kmem_mem s'))"

lemma space_step_refl [simp]: "space_step s pgdir A s"
  by (simp add: space_step_def)

lemma space_step_trans:
  "space_step s pgdir A s1 \<Longrightarrow> space_step s1 pgdir B s2 \<Longrightarrow> space_step s pgdir (A \<union> B) s2"
  by (auto simp: space_step_def intro: agree_page_trans)

lemma pde_present_pt_page: "pde_present m pgdir (PDX x) \<Longrightarrow> pgtab_of m pgdir (PDX x) \<in> pt_pages m pgdir"
  by (auto simp: pt_pages_def)

lemma vmap_SomeD:
  "vmap m pgdir x = Some e \<Longrightarrow> pde_present m pgdir (PDX x) \<and> load32 m (pte_loc m pgdir x) = e \<and> e AND PTE_P \<noteq> 0"
  by (simp add: vmap_def split: if_splits)

lemma wf_pgdir_insert: "wf_pgdir m pgdir F \<Longrightarrow> q \<notin> pt_pages m pgdir \<Longrightarrow> wf_pgdir m pgdir (insert q F)"
  unfolding wf_pgdir_def pt_pages_def by (simp add: image_iff) metis

text \<open>Freeing the frame of one page and clearing its entry.\<close>

lemma unmap_page:
  assumes "wf_space s pgdir ps" "page_aligned a" "a < KERNBASE" "vmap (kmem_mem s) pgdir a = Some e"
  obtains s1 s2 where "kfree (frame e) s = Ok s1"
    "s2 = s1\<lparr>kmem_mem := store32 (kmem_mem s1) (pte_loc (kmem_mem s) pgdir a) 0\<rparr>"
    "wf_space s2 pgdir (frame e # ps)" "space_step s pgdir {frame e} s2"
    "\<And>x. vmap (kmem_mem s2) pgdir x = (if PGROUNDDOWN x = a then None else vmap (kmem_mem s) pgdir x)"
proof -
  note D = wf_spaceD [OF assms(1)]
  let ?q = "frame e"
  obtain s1 where s1: "kfree ?q s = Ok s1" "free_pages s1 (?q # ps)" "usable_page s1 = usable_page s"
    "\<And>p. p \<noteq> ?q \<Longrightarrow> agree_page p (kmem_mem s) (kmem_mem s1)"
    using kfree_contract [OF D(1) D(5,6) [OF assms(3,4)]] by blast
  have pa: "page_aligned pgdir" using wf_pgdirD [OF D(2)] by simp
  have ag: "\<forall>p \<in> pt_pages (kmem_mem s) pgdir. agree_page p (kmem_mem s) (kmem_mem s1)"
    using D(7) [OF assms(3,4)] by (intro ballI s1(4)) auto
  note fr = page_table_frame [OF pa ag]
  have pde: "pde_present (kmem_mem s) pgdir (PDX a)" using vmap_SomeD [OF assms(4)] by simp
  have loc: "pte_loc (kmem_mem s1) pgdir a = pte_loc (kmem_mem s) pgdir a" by (simp add: pte_loc_def fr(2))
  have wf1: "wf_pgdir (kmem_mem s1) pgdir (set (?q # ps))"
    using wf_pgdir_insert [OF D(2) D(7) [OF assms(3,4)]] by (simp add: fr(5))
  define s2 where "s2 = s1\<lparr>kmem_mem := store32 (kmem_mem s1) (pte_loc (kmem_mem s) pgdir a) 0\<rparr>"
  note st = store_pte [OF s1(2) wf1 _ s2_def [folded loc]]
  have pde1: "pde_present (kmem_mem s1) pgdir (PDX a)" using pde by (simp add: fr(1))
  note d = pt_stepD [OF st(1) [OF pde1]]
  have pp: "pt_pages (kmem_mem s2) pgdir = pt_pages (kmem_mem s) pgdir"
    using d(4,5) fr(3) by auto
  have vm: "vmap (kmem_mem s2) pgdir x = (if PGROUNDDOWN x = a then None else vmap (kmem_mem s) pgdir x)" for x
    using st(2) [OF pde1, of x] by (simp add: same_page_iff [OF assms(2)] fr(4))
  have u: "usable_page s2 = usable_page s" using s1(3) by (simp add: s2_def fun_eq_iff usable_page_def)
  have "page_of (pte_loc (kmem_mem s) pgdir a) \<in> pt_pages (kmem_mem s) pgdir" "aligned4 (pte_loc (kmem_mem s) pgdir a)"
    using pde_present_pt_page [OF pde] by (simp_all add: pte_loc_def)
  then have q: "q \<noteq> ?q \<Longrightarrow> q \<notin> pt_pages (kmem_mem s) pgdir \<Longrightarrow> agree_page q (kmem_mem s) (kmem_mem s2)" for q
    using agree_page_trans [OF s1(4) agree_page_store32, of q] by (auto simp: s2_def)
  have step: "space_step s pgdir {?q} s2"
    unfolding space_step_def using pp kfree_frame [OF s1(1)] q by (simp add: s2_def)
  have "wf_space s2 pgdir (?q # ps)"
    unfolding wf_space_def pp u vm
  proof (intro conjI ballI allI impI)
    fix x f assume x: "x < KERNBASE" "(if PGROUNDDOWN x = a then None else vmap (kmem_mem s) pgdir x) = Some f"
    then have f: "PGROUNDDOWN x \<noteq> a" "vmap (kmem_mem s) pgdir x = Some f" by (auto split: if_splits)
    then show "usable_page s (frame f)" "frame f \<notin> pt_pages (kmem_mem s) pgdir"
      using D(5,7) x(1) by auto
    show "frame f \<notin> set (?q # ps)"
      using D(6) [OF x(1) f(2)] D(8) [OF x(1) assms(3) f(2) assms(4)] f(1) PGROUNDDOWN_id [OF assms(2)] by auto
  next
    show "free_pages s2 (?q # ps)" "wf_pgdir (kmem_mem s2) pgdir (set (?q # ps))" by (fact d(1), fact d(3))
    show "usable_page s p" if "p \<in> pt_pages (kmem_mem s) pgdir" for p using that by (rule D(3))
    show "PGROUNDDOWN x = PGROUNDDOWN y" if "x < KERNBASE" "y < KERNBASE"
      "(if PGROUNDDOWN x = a then None else vmap (kmem_mem s) pgdir x) = Some f"
      "(if PGROUNDDOWN y = a then None else vmap (kmem_mem s) pgdir y) = Some g" "frame f = frame g" for x y f g
      using that D(8) [of x y f g] by (simp split: if_splits)
  qed
  with that s1(1) s2_def step vm show ?thesis by blast
qed

lemma dealloc_step_spec:
  assumes "wf_space s pgdir ps" "page_aligned a" "a < KERNBASE"
  obtains a' s' us where "dealloc_step pgdir a s = Ok (a', s')" "page_aligned a'" "a < a'" "a' \<le> KERNBASE"
    "wf_space s' pgdir (us @ ps)" "space_step s pgdir (set us) s'"
    "\<And>x. vmap (kmem_mem s') pgdir x = (if PGROUNDDOWN x = a then None else vmap (kmem_mem s) pgdir x)"
    "\<And>x. a \<le> PGROUNDDOWN x \<Longrightarrow> PGROUNDDOWN x < a' \<Longrightarrow> vmap (kmem_mem s') pgdir x = None"
    "set us = {frame e | e. vmap (kmem_mem s) pgdir a = Some e}"
proof -
  have lt: "unat a < 2147483648" using assms(3) by (simp add: KERNBASE_def word_less_nat_alt)
  have nxt: "unat (a + PGSIZE) = unat a + 4096" using lt by (simp add: PGSIZE_def unat_word_ariths)
  have c: "page_aligned (a + PGSIZE)" "a < a + PGSIZE"
    using assms(2) nxt by (simp_all add: word_less_nat_alt)
  have "4096 dvd 2147483648 - unat a" using assms(2) by (simp add: page_aligned_dvd)
  then have le: "a + PGSIZE \<le> KERNBASE"
    using lt nxt dvd_imp_le [of 4096 "2147483648 - unat a"] by (simp add: KERNBASE_def word_le_nat_alt)
  have between: "PGROUNDDOWN x = a" if "a \<le> PGROUNDDOWN x" "PGROUNDDOWN x < a + PGSIZE" for x
    using page_aligned_ge [of "PGROUNDDOWN x - a"] assms(2) that nxt
    by (cases "PGROUNDDOWN x = a") (auto simp: word_le_nat_alt word_less_nat_alt unat_sub_if' PGSIZE_def)
  show ?thesis
  proof (cases "pde_present (kmem_mem s) pgdir (PDX a)")
    case False
    define a' where "a' = PGADDR (PDX a + 1) 0 0 - PGSIZE + PGSIZE"
    have a': "unat a' = 4194304 * (unat a div 4194304 + 1)"
    proof -
      have d: "unat (PDX a + 1) = unat a div 4194304 + 1"
        using lt by (simp add: unat_word_ariths unat_PDX)
      then show ?thesis using lt unat_PGADDR [of "PDX a + 1" 0 0] by (simp add: a'_def)
    qed
    have none: "vmap (kmem_mem s) pgdir x = None" if "a \<le> PGROUNDDOWN x" "PGROUNDDOWN x < a'" for x
    proof -
      have "unat a \<le> unat x"
        using that(1) PGROUNDDOWN_le [of x] by (meson order_trans word_le_nat_alt)
      then have lo: "unat a div 4194304 \<le> unat x div 4194304" by (rule div_le_mono)
      have "unat x div 4096 * 4096 < 4194304 * (unat a div 4194304 + 1)"
        using that(2) a' by (simp add: word_less_nat_alt unat_PGROUNDDOWN)
      then have "unat x div 4096 < (unat a div 4194304 + 1) * 1024" by linarith
      then have "unat x div 4096 div 1024 < unat a div 4194304 + 1" by (rule less_mult_imp_div_less)
      then have "unat x div 4194304 = unat a div 4194304"
        using lo div_mult2_eq [of "unat x" 4096 1024] by simp
      then have "PDX x = PDX a" by (simp add: word_unat_eq_iff unat_PDX)
      then show ?thesis using False by (simp add: vmap_def)
    qed
    show ?thesis
    proof (rule that [of a' s "[]"])
      show "dealloc_step pgdir a s = Ok (a', s)"
        using False by (simp add: dealloc_step_def walkpgdir_noalloc a'_def)
      show "page_aligned a'" by (simp add: page_aligned_dvd a')
      show lt': "a < a'" using a' dividend_less_times_div [of 4194304 "unat a"] by (simp add: word_less_nat_alt)
      have "unat a div 4194304 < 512" using lt by (intro less_mult_imp_div_less) simp
      then show "a' \<le> KERNBASE" using a' by (simp add: word_le_nat_alt KERNBASE_def)
      show "vmap (kmem_mem s) pgdir x = (if PGROUNDDOWN x = a then None else vmap (kmem_mem s) pgdir x)" for x
        using none [of x] lt' by simp
      show "vmap (kmem_mem s) pgdir x = None" if "a \<le> PGROUNDDOWN x" "PGROUNDDOWN x < a'" for x
        using none that by simp
    qed (use assms(1) False in \<open>simp_all add: vmap_def\<close>)
  next
    case True
    have w: "walkpgdir pgdir a False s = (pte_loc (kmem_mem s) pgdir a, s)"
      using True by (simp add: walkpgdir_noalloc)
    have nz: "pte_loc (kmem_mem s) pgdir a \<noteq> 0"
      using pte_loc_nonzero [OF wf_spaceD(2) [OF assms(1)] True] .
    show ?thesis
    proof (cases "vmap (kmem_mem s) pgdir a")
      case None
      then have np: "load32 (kmem_mem s) (pte_loc (kmem_mem s) pgdir a) AND PTE_P = 0"
        using True by (simp add: vmap_def split: if_splits)
      have vm: "vmap (kmem_mem s) pgdir x = None" if "PGROUNDDOWN x = a" for x
        using that None vmap_page [of "kmem_mem s" pgdir x] by simp
      show ?thesis
      proof (rule that [of "a + PGSIZE" s "[]"])
        show "dealloc_step pgdir a s = Ok (a + PGSIZE, s)"
          using w nz np by (simp add: dealloc_step_def)
        show "vmap (kmem_mem s) pgdir x = (if PGROUNDDOWN x = a then None else vmap (kmem_mem s) pgdir x)" for x
          using vm by simp
        show "vmap (kmem_mem s) pgdir x = None" if "a \<le> PGROUNDDOWN x" "PGROUNDDOWN x < a + PGSIZE" for x
          using vm between [OF that] by simp
      qed (use assms(1) c le None in simp_all)
    next
      case (Some e)
      note p = vmap_SomeD [OF Some]
      from unmap_page [OF assms Some] obtain s1 s2 where u: "kfree (frame e) s = Ok s1"
        "s2 = s1\<lparr>kmem_mem := store32 (kmem_mem s1) (pte_loc (kmem_mem s) pgdir a) 0\<rparr>"
        "wf_space s2 pgdir (frame e # ps)" "space_step s pgdir {frame e} s2"
        "\<And>x. vmap (kmem_mem s2) pgdir x = (if PGROUNDDOWN x = a then None else vmap (kmem_mem s) pgdir x)"
        by blast
      show ?thesis
      proof (rule that [of "a + PGSIZE" s2 "[frame e]"])
        show "dealloc_step pgdir a s = Ok (a + PGSIZE, s2)"
          using w nz p wf_spaceD(4) [OF assms(1,3) Some] u(1,2) by (simp add: dealloc_step_def frame_def)
        show "vmap (kmem_mem s2) pgdir x = None" if "a \<le> PGROUNDDOWN x" "PGROUNDDOWN x < a + PGSIZE" for x
          using u(5) between [OF that] by simp
        show "set [frame e] = {frame e | e. vmap (kmem_mem s) pgdir a = Some e}" using Some by simp
      qed (use u(3,4,5) c le in \<open>simp_all del: PGROUNDDOWN_id\<close>)
    qed
  qed
qed

lemma dealloc_loop_spec:
  assumes "wf_space s pgdir ps" "page_aligned a" "a \<le> KERNBASE" "oldsz \<le> KERNBASE"
  shows "\<exists>s' us. dealloc_loop pgdir a oldsz s = Ok s' \<and> wf_space s' pgdir (us @ ps)
    \<and> space_step s pgdir (set us) s'
    \<and> (\<forall>x. vmap (kmem_mem s') pgdir x =
         (if a \<le> PGROUNDDOWN x \<and> PGROUNDDOWN x < oldsz then None else vmap (kmem_mem s) pgdir x))
    \<and> set us = {frame e | x e. a \<le> PGROUNDDOWN x \<and> PGROUNDDOWN x < oldsz \<and> vmap (kmem_mem s) pgdir x = Some e}"
  using assms
proof (induction pgdir a oldsz s arbitrary: ps rule: dealloc_loop.induct)
  case (1 pgdir a oldsz s)
  note IH = 1(1) and wf = 1(2) and al = 1(3) and kb = 1(4,5)
  show ?case
  proof (cases "a < oldsz")
    case False
    then have "\<not> (a \<le> q \<and> q < oldsz)" for q by auto
    then show ?thesis using wf False
      by (intro exI [of _ s] exI [of _ "[]"]) (auto simp: dealloc_loop.simps [of pgdir a])
  next
    case True
    then have "a < KERNBASE" using kb by simp
    from dealloc_step_spec [OF wf al this] obtain a' s1 us where st:
      "dealloc_step pgdir a s = Ok (a', s1)" "page_aligned a'" "a < a'" "a' \<le> KERNBASE"
      "wf_space s1 pgdir (us @ ps)" "space_step s pgdir (set us) s1"
      "\<And>x. vmap (kmem_mem s1) pgdir x = (if PGROUNDDOWN x = a then None else vmap (kmem_mem s) pgdir x)"
      "\<And>x. a \<le> PGROUNDDOWN x \<Longrightarrow> PGROUNDDOWN x < a' \<Longrightarrow> vmap (kmem_mem s1) pgdir x = None"
      "set us = {frame e | e. vmap (kmem_mem s) pgdir a = Some e}" by blast
    obtain s2 vs where rec: "dealloc_loop pgdir a' oldsz s1 = Ok s2" "wf_space s2 pgdir (vs @ us @ ps)"
      "space_step s1 pgdir (set vs) s2"
      "\<And>x. vmap (kmem_mem s2) pgdir x =
         (if a' \<le> PGROUNDDOWN x \<and> PGROUNDDOWN x < oldsz then None else vmap (kmem_mem s1) pgdir x)"
      "set vs = {frame e | x e. a' \<le> PGROUNDDOWN x \<and> PGROUNDDOWN x < oldsz \<and> vmap (kmem_mem s1) pgdir x = Some e}"
      using IH [OF True st(1) refl _ st(5,2,4) kb(2)] st(3) by (auto simp: not_le)
    have vm: "vmap (kmem_mem s2) pgdir x =
         (if a \<le> PGROUNDDOWN x \<and> PGROUNDDOWN x < oldsz then None else vmap (kmem_mem s) pgdir x)" for x
      using rec(4) [of x] st(7,8) [of x] st(3) True by (auto simp: not_le)
    have "frame e \<in> set (vs @ us)" if "a \<le> PGROUNDDOWN x" "PGROUNDDOWN x < oldsz" "vmap (kmem_mem s) pgdir x = Some e" for x e
    proof (cases "PGROUNDDOWN x = a")
      case True
      then show ?thesis using that st(9) vmap_page [of "kmem_mem s" pgdir x] by auto
    next
      case False
      then have "a' \<le> PGROUNDDOWN x" using st(7,8) [of x] that by (intro leI) auto
      then have "frame e \<in> set vs" unfolding rec(5) using that st(7) [of x] False by auto
      then show ?thesis by simp
    qed
    moreover have "\<exists>x e. q = frame e \<and> a \<le> PGROUNDDOWN x \<and> PGROUNDDOWN x < oldsz \<and> vmap (kmem_mem s) pgdir x = Some e"
      if "q \<in> set (vs @ us)" for q
    proof (cases "q \<in> set us")
      case True
      then obtain e where "q = frame e" "vmap (kmem_mem s) pgdir a = Some e" unfolding st(9) by blast
      then show ?thesis using \<open>a < oldsz\<close> PGROUNDDOWN_id [OF al]
        by (intro exI [of _ a] exI [of _ e]) simp
    next
      case False
      then have "q \<in> set vs" using that by simp
      then obtain x e where x: "q = frame e" "a' \<le> PGROUNDDOWN x" "PGROUNDDOWN x < oldsz"
        "vmap (kmem_mem s1) pgdir x = Some e" unfolding rec(5) by blast
      then have "a \<le> PGROUNDDOWN x" "vmap (kmem_mem s) pgdir x = Some e"
        using st(3) st(7) [of x] by (auto split: if_splits)
      then show ?thesis using x by blast
    qed
    ultimately have "set (vs @ us) = {frame e | x e. a \<le> PGROUNDDOWN x \<and> PGROUNDDOWN x < oldsz \<and> vmap (kmem_mem s) pgdir x = Some e}"
      by blast
    moreover have "space_step s pgdir (set (vs @ us)) s2"
      using space_step_trans [OF st(6) rec(3)] by (simp add: Un_commute)
    moreover have "dealloc_loop pgdir a oldsz s = Ok s2"
      using True st(1,3) rec(1) by (simp add: dealloc_loop.simps [of pgdir a] not_le)
    ultimately show ?thesis using rec(2) vm by (intro exI [of _ s2] exI [of _ "vs @ us"]) simp
  qed
qed

lemma deallocuvm_spec:
  assumes "wf_space s pgdir ps" "newsz < oldsz" "oldsz \<le> KERNBASE"
  obtains s' us where "deallocuvm pgdir oldsz newsz s = Ok (newsz, s')" "wf_space s' pgdir (us @ ps)"
    "space_step s pgdir (set us) s'"
    "\<And>x. vmap (kmem_mem s') pgdir x =
       (if PGROUNDUP newsz \<le> PGROUNDDOWN x \<and> PGROUNDDOWN x < oldsz then None else vmap (kmem_mem s) pgdir x)"
    "set us = {frame e | x e. PGROUNDUP newsz \<le> PGROUNDDOWN x \<and> PGROUNDDOWN x < oldsz
        \<and> vmap (kmem_mem s) pgdir x = Some e}"
proof -
  have "newsz < 2147483648" using assms(2,3) by (simp add: KERNBASE_def)
  then have n: "unat newsz < 2147483648" by (simp add: word_less_nat_alt)
  then have "(unat newsz + 4095) div 4096 < 524289" by (intro less_mult_imp_div_less) simp
  then have "PGROUNDUP newsz \<le> KERNBASE"
    using n by (simp add: word_le_nat_alt KERNBASE_def unat_PGROUNDUP)
  from dealloc_loop_spec [OF assms(1) page_aligned_PGROUNDUP this assms(3)] obtain s' us where
    d: "dealloc_loop pgdir (PGROUNDUP newsz) oldsz s = Ok s'" "wf_space s' pgdir (us @ ps)"
    "space_step s pgdir (set us) s'"
    "\<forall>x. vmap (kmem_mem s') pgdir x =
       (if PGROUNDUP newsz \<le> PGROUNDDOWN x \<and> PGROUNDDOWN x < oldsz then None else vmap (kmem_mem s) pgdir x)"
    "set us = {frame e | x e. PGROUNDUP newsz \<le> PGROUNDDOWN x \<and> PGROUNDDOWN x < oldsz
        \<and> vmap (kmem_mem s) pgdir x = Some e}" by blast
  show ?thesis
    by (rule that [OF _ d(2,3) _ d(5)]) (use d(1,4) not_le [THEN iffD2, OF assms(2)] in \<open>simp_all add: deallocuvm_def\<close>)
qed

text \<open>The tables that a list of directory indices points to.\<close>

definition tables :: "mem \<Rightarrow> addr \<Rightarrow> nat list \<Rightarrow> addr list" where
  "tables m pgdir is = map (\<lambda>i. pgtab_of m pgdir (word_of_nat i)) (filter (\<lambda>i. pde_present m pgdir (word_of_nat i)) is)"

lemma tables_agree:
  assumes "agree_page pgdir m m'" "page_aligned pgdir" "\<And>i. i \<in> set is \<Longrightarrow> i < 1024"
  shows "tables m' pgdir is = tables m pgdir is"
proof -
  have "load32 m' (entry pgdir (word_of_nat i)) = load32 m (entry pgdir (word_of_nat i))" if "i \<in> set is" for i
    using pde_agree [OF assms(1,2), of "word_of_nat i"] assms(3) [OF that] by (simp add: unat_of_nat_small)
  then show ?thesis
    by (auto simp: tables_def pde_present_def pgtab_of_def intro!: map_cong filter_cong)
qed

lemma free_tables_spec:
  assumes "free_pages s ps" "page_aligned pgdir" "\<And>i. i \<in> set is \<Longrightarrow> i < 1024"
    and "distinct (tables (kmem_mem s) pgdir is)" "pgdir \<notin> set (tables (kmem_mem s) pgdir is)"
    and "\<And>t. t \<in> set (tables (kmem_mem s) pgdir is) \<Longrightarrow> usable_page s t \<and> t \<notin> set ps"
  shows "\<exists>s'. free_tables pgdir is s = Ok s' \<and> free_pages s' (rev (tables (kmem_mem s) pgdir is) @ ps)
    \<and> (\<forall>q. q \<notin> set (tables (kmem_mem s) pgdir is) \<longrightarrow> agree_page q (kmem_mem s) (kmem_mem s'))
    \<and> kend s' = kend s \<and> kdata s' = kdata s \<and> use_lock s' = use_lock s"
  using assms
proof (induction "is" arbitrary: s ps)
  case Nil
  then show ?case by (simp add: tables_def)
next
  case (Cons i "is")
  let ?T = "\<lambda>m is. tables m pgdir is" and ?t = "pgtab_of (kmem_mem s) pgdir (word_of_nat i)"
  show ?case
  proof (cases "pde_present (kmem_mem s) pgdir (word_of_nat i)")
    case False
    then have T: "?T (kmem_mem s) (i # is) = ?T (kmem_mem s) is" by (simp add: tables_def)
    show ?thesis using Cons.IH [of s ps] Cons.prems False unfolding T
      by (simp add: pde_present_def)
  next
    case True
    then have T: "?T (kmem_mem s) (i # is) = ?t # ?T (kmem_mem s) is" by (simp add: tables_def)
    have t: "usable_page s ?t" "?t \<notin> set ps" "?t \<noteq> pgdir" "?t \<notin> set (?T (kmem_mem s) is)"
      using Cons.prems(4,5,6) unfolding T by auto
    obtain s1 where s1: "kfree ?t s = Ok s1" "free_pages s1 (?t # ps)" "usable_page s1 = usable_page s"
      "\<And>q. q \<noteq> ?t \<Longrightarrow> agree_page q (kmem_mem s) (kmem_mem s1)"
      using kfree_contract [OF Cons.prems(1) t(1,2)] by blast
    have T1: "?T (kmem_mem s1) is = ?T (kmem_mem s) is"
      using s1(4) t(3) Cons.prems(2,3) by (intro tables_agree) auto
    have "\<exists>s'. free_tables pgdir is s1 = Ok s' \<and> free_pages s' (rev (?T (kmem_mem s) is) @ ?t # ps)
        \<and> (\<forall>q. q \<notin> set (?T (kmem_mem s) is) \<longrightarrow> agree_page q (kmem_mem s1) (kmem_mem s'))
        \<and> kend s' = kend s1 \<and> kdata s' = kdata s1 \<and> use_lock s' = use_lock s1"
      using Cons.IH [OF s1(2), unfolded T1] Cons.prems(2,3,4,5,6) t(4) unfolding T s1(3) by auto
    then obtain s2 where s2: "free_tables pgdir is s1 = Ok s2" "free_pages s2 (rev (?T (kmem_mem s) is) @ ?t # ps)"
      "\<And>q. q \<notin> set (?T (kmem_mem s) is) \<Longrightarrow> agree_page q (kmem_mem s1) (kmem_mem s2)"
      "kend s2 = kend s1" "kdata s2 = kdata s1" "use_lock s2 = use_lock s1" by blast
    have "agree_page q (kmem_mem s) (kmem_mem s2)" if "q \<notin> set (?t # ?T (kmem_mem s) is)" for q
      using that s1(4) s2(3) by (auto intro: agree_page_trans)
    moreover have "free_tables pgdir (i # is) s = Ok s2"
      using True s1(1) s2(1) by (simp add: pde_present_def pgtab_of_def)
    ultimately show ?thesis using s2 kfree_frame [OF s1(1)] unfolding T by simp
  qed
qed

definition user_frames :: "mem \<Rightarrow> addr \<Rightarrow> addr set" where
  "user_frames m pgdir = {frame e | x e. x < KERNBASE \<and> vmap m pgdir x = Some e}"

lemma tables_pt_pages:
  assumes "wf_pgdir m pgdir F"
  shows "set (tables m pgdir [0..<NPDENTRIES]) = pt_pages m pgdir - {pgdir}"
    and "distinct (tables m pgdir [0..<NPDENTRIES])"
proof -
  note D = wf_pgdirD [OF assms]
  have "set (tables m pgdir [0..<NPDENTRIES]) = pgtab_of m pgdir ` {d. unat d < 1024 \<and> pde_present m pgdir d}"
  proof (intro set_eqI iffI)
    fix t assume "t \<in> pgtab_of m pgdir ` {d. unat d < 1024 \<and> pde_present m pgdir d}"
    then obtain d where "t = pgtab_of m pgdir d" "unat d < 1024" "pde_present m pgdir d" by blast
    then show "t \<in> set (tables m pgdir [0..<NPDENTRIES])"
      by (auto simp: tables_def NPDENTRIES_def image_iff intro!: bexI [of _ "unat d"])
  qed (auto simp: tables_def NPDENTRIES_def unat_of_nat_small)
  moreover have "pgdir \<notin> pgtab_of m pgdir ` {d. unat d < 1024 \<and> pde_present m pgdir d}"
    using D(4) by force
  ultimately show "set (tables m pgdir [0..<NPDENTRIES]) = pt_pages m pgdir - {pgdir}"
    by (auto simp: pt_pages_def)
  have "i = j" if "i < 1024" "j < 1024" "pde_present m pgdir (word_of_nat i)" "pde_present m pgdir (word_of_nat j)"
    "pgtab_of m pgdir (word_of_nat i) = pgtab_of m pgdir (word_of_nat j)" for i j
  proof -
    have b: "unat (word_of_nat i :: uint) = i" "unat (word_of_nat j :: uint) = j"
      using that(1,2) by (intro unat_of_nat_small; simp)+
    have "(word_of_nat i :: uint) = word_of_nat j"
      by (rule D(7)) (simp_all only: b that)
    then show ?thesis using b by metis
  qed
  then show "distinct (tables m pgdir [0..<NPDENTRIES])"
    by (auto simp: tables_def distinct_map NPDENTRIES_def inj_on_def)
qed

lemma page_of_lt_KERNBASE: "PGROUNDDOWN x < KERNBASE \<longleftrightarrow> x < KERNBASE"
proof -
  have "unat x div 4096 * 4096 < 2147483648 \<longleftrightarrow> unat x < 2147483648"
    using div_less_iff_less_mult [of 4096 "unat x" 524288] by linarith
  then show ?thesis by (simp add: word_less_nat_alt KERNBASE_def unat_PGROUNDDOWN)
qed

lemma freevm_spec:
  assumes "wf_space s pgdir ps"
  shows "\<exists>s' qs. freevm pgdir s = Ok s' \<and> free_pages s' (qs @ ps)
    \<and> set qs = pt_pages (kmem_mem s) pgdir \<union> user_frames (kmem_mem s) pgdir
    \<and> (\<forall>q. q \<notin> set qs \<longrightarrow> agree_page q (kmem_mem s) (kmem_mem s'))
    \<and> kend s' = kend s \<and> kdata s' = kdata s \<and> use_lock s' = use_lock s"
proof -
  note D = wf_spaceD [OF assms]
  have "(0 :: addr) < KERNBASE" by (simp add: KERNBASE_def)
  then obtain s1 us where d: "deallocuvm pgdir KERNBASE 0 s = Ok (0, s1)" "wf_space s1 pgdir (us @ ps)"
    "space_step s pgdir (set us) s1"
    "set us = {frame e | x e. PGROUNDUP 0 \<le> PGROUNDDOWN x \<and> PGROUNDDOWN x < KERNBASE
        \<and> vmap (kmem_mem s) pgdir x = Some e}" by (rule deallocuvm_spec [OF assms _ order_refl])
  have us: "set us = user_frames (kmem_mem s) pgdir"
    unfolding d(4) user_frames_def by (simp add: page_of_lt_KERNBASE PGROUNDUP_def PGSIZE_def)
  note D1 = wf_spaceD [OF d(2)]
  note T = tables_pt_pages [OF D1(2)]
  have pp: "pt_pages (kmem_mem s1) pgdir = pt_pages (kmem_mem s) pgdir" using d(3) by (simp add: space_step_def)
  have nf: "p \<notin> set (us @ ps)" if "p \<in> pt_pages (kmem_mem s1) pgdir" for p
    using that wf_pgdirD(2,5) [OF D1(2)] by (auto simp: pt_pages_def)
  have "\<exists>s2. free_tables pgdir [0..<NPDENTRIES] s1 = Ok s2
      \<and> free_pages s2 (rev (tables (kmem_mem s1) pgdir [0..<NPDENTRIES]) @ us @ ps)
      \<and> (\<forall>q. q \<notin> set (tables (kmem_mem s1) pgdir [0..<NPDENTRIES]) \<longrightarrow> agree_page q (kmem_mem s1) (kmem_mem s2))
      \<and> kend s2 = kend s1 \<and> kdata s2 = kdata s1 \<and> use_lock s2 = use_lock s1"
    using D1(1,3) T nf wf_pgdirD(1) [OF D1(2)] by (intro free_tables_spec) (auto simp: NPDENTRIES_def)
  then obtain s2 ts where s2: "free_tables pgdir [0..<NPDENTRIES] s1 = Ok s2" "free_pages s2 (ts @ us @ ps)"
    "set ts = pt_pages (kmem_mem s1) pgdir - {pgdir}" "\<And>q. q \<notin> set ts \<Longrightarrow> agree_page q (kmem_mem s1) (kmem_mem s2)"
    "kend s2 = kend s1" "kdata s2 = kdata s1" "use_lock s2 = use_lock s1"
    using T by (metis set_rev)
  have pg: "pgdir \<in> pt_pages (kmem_mem s1) pgdir" by (simp add: pt_pages_def)
  have "usable_page s2 pgdir" using D1(3) [OF pg] s2(5) usable_page_cong by blast
  then obtain s3 where s3: "kfree pgdir s2 = Ok s3" "free_pages s3 (pgdir # ts @ us @ ps)"
    "\<And>q. q \<noteq> pgdir \<Longrightarrow> agree_page q (kmem_mem s2) (kmem_mem s3)"
    using kfree_contract [OF s2(2), of pgdir] nf [OF pg] s2(3) by auto
  have "freevm pgdir s = Ok s3" using d(1) s2(1) s3(1) wf_pgdirD(3) [OF D(2)] by (simp add: freevm_def)
  moreover have "set (pgdir # ts @ us) = pt_pages (kmem_mem s) pgdir \<union> user_frames (kmem_mem s) pgdir"
    using s2(3) us pp pg by auto
  moreover have "agree_page q (kmem_mem s) (kmem_mem s3)" if "q \<notin> set (pgdir # ts @ us)" for q
  proof -
    have "agree_page q (kmem_mem s) (kmem_mem s1)"
      using d(3) that s2(3) pp by (auto simp: space_step_def)
    then show ?thesis using that s2(4) [of q] s3(3) [of q] by (auto intro: agree_page_trans)
  qed
  moreover have "kend s3 = kend s" "kdata s3 = kdata s" "use_lock s3 = use_lock s"
    using kfree_frame [OF s3(1)] s2(5,6,7) d(3) by (simp_all add: space_step_def)
  ultimately show ?thesis using s3(2) by (intro exI [of _ s3] exI [of _ "pgdir # ts @ us"]) simp
qed

end
