(* ===== verification/Vm_Grow.thy ===== *)
theory Vm_Grow
  imports Vm_Space
begin

text \<open>
  Growing an address space (\<^verbatim>\<open>allocuvm\<close>): the new pages, and undoing the work when memory runs out.
\<close>

section \<open>Growing an address space\<close>

text \<open>All pages a space and the free list hold between them.\<close>

definition held :: "kmem \<Rightarrow> addr \<Rightarrow> addr list \<Rightarrow> addr set" where
  "held s pgdir ps = set ps \<union> pt_pages (kmem_mem s) pgdir \<union> user_frames (kmem_mem s) pgdir"

lemma user_frames_I: "x < KERNBASE \<Longrightarrow> vmap m pgdir x = Some e \<Longrightarrow> frame e \<in> user_frames m pgdir"
  by (auto simp: user_frames_def)

lemma pt_step_usable:
  assumes "wf_space s pgdir ps" "pt_step pgdir s ps s' ps'" "p \<in> pt_pages (kmem_mem s') pgdir"
  shows "usable_page s' p"
proof -
  have "usable_page s p"
    using assms(3) wf_spaceD(3) [OF assms(1)] ka.frees_usable [OF wf_spaceD(1) [OF assms(1)]]
    by (auto simp: pt_stepD(5) [OF assms(2)])
  then show ?thesis using usable_page_cong pt_stepD(7) [OF assms(2)] by blast
qed

text \<open>A space after one of its tables was extended and its translation kept.\<close>

lemma wf_space_keep:
  assumes "wf_space s pgdir ps" "pt_step pgdir s ps s' ps'"
    and "\<And>x. vmap (kmem_mem s') pgdir x = vmap (kmem_mem s) pgdir x"
  shows "wf_space s' pgdir ps'"
proof -
  note D = wf_spaceD [OF assms(1)] and d = pt_stepD [OF assms(2)]
  have u: "usable_page s' = usable_page s" using d(7) usable_page_cong by blast
  show ?thesis
    unfolding wf_space_def assms(3)
  proof (intro conjI ballI allI impI)
    fix x e assume x: "x < KERNBASE" "vmap (kmem_mem s) pgdir x = Some e"
    show "usable_page s' (frame e)" "frame e \<notin> set ps'" "frame e \<notin> pt_pages (kmem_mem s') pgdir"
      using D(5,6,7) [OF x] d(2) u by (auto simp: d(5))
  qed (use d(1,3) pt_step_usable [OF assms(1,2)] D(8) in \<open>blast+\<close>)
qed

text \<open>Adding one page to a space.\<close>

lemma wf_space_add:
  assumes "wf_space s pgdir ps" "pt_step pgdir s ps s' ps'" "page_aligned a" "a < KERNBASE"
    and "\<And>x. vmap (kmem_mem s') pgdir x = (if PGROUNDDOWN x = a then Some e else vmap (kmem_mem s) pgdir x)"
    and "usable_page s (frame e)" "frame e \<notin> held s pgdir ps"
  shows "wf_space s' pgdir ps'"
proof -
  note D = wf_spaceD [OF assms(1)] and d = pt_stepD [OF assms(2)]
  have u: "usable_page s' = usable_page s" using d(7) usable_page_cong by blast
  have new: "frame e \<notin> set ps" "frame e \<notin> pt_pages (kmem_mem s) pgdir" "frame e \<notin> user_frames (kmem_mem s) pgdir"
    using assms(7) by (auto simp: held_def)
  show ?thesis
    unfolding wf_space_def assms(5)
  proof (intro conjI ballI allI impI)
    fix x f assume x: "x < KERNBASE" "(if PGROUNDDOWN x = a then Some e else vmap (kmem_mem s) pgdir x) = Some f"
    show "usable_page s' (frame f)" "frame f \<notin> set ps'" "frame f \<notin> pt_pages (kmem_mem s') pgdir"
      using D(5,6,7) [OF x(1), of f] x(2) d(2) u new(1,2) assms(6) by (auto simp: d(5) split: if_splits)
  next
    fix x y f g
    assume *: "x < KERNBASE" "y < KERNBASE" "(if PGROUNDDOWN x = a then Some e else vmap (kmem_mem s) pgdir x) = Some f"
      "(if PGROUNDDOWN y = a then Some e else vmap (kmem_mem s) pgdir y) = Some g" "frame f = frame g"
    show "PGROUNDDOWN x = PGROUNDDOWN y"
      using * new(3) D(8) [of x y f g] user_frames_I [of x "kmem_mem s" pgdir f] user_frames_I [of y "kmem_mem s" pgdir g]
      by (auto split: if_splits)
  qed (use d(1,3) pt_step_usable [OF assms(1,2)] in \<open>blast+\<close>)
qed

lemma map_page_spec:
  assumes wf: "wf_space s pgdir ps" and a: "page_aligned a" "a < KERNBASE"
    and mem: "usable_page s mem" "mem \<notin> held s pgdir ps" "unat perm < 4096"
    and none: "vmap (kmem_mem s) pgdir a = None"
  obtains r s' ps' where "mappages pgdir a PGSIZE (V2P mem) perm s = Ok (r, s')" "pt_step pgdir s ps s' ps'"
    "wf_space s' pgdir ps'"
    "r = 0 \<and> (\<forall>x. vmap (kmem_mem s') pgdir x =
        (if PGROUNDDOWN x = a then Some (V2P mem OR perm OR PTE_P) else vmap (kmem_mem s) pgdir x))
     \<or> r = -1 \<and> (\<forall>x. vmap (kmem_mem s') pgdir x = vmap (kmem_mem s) pgdir x)"
proof -
  note D = wf_spaceD [OF wf]
  have post: "mappages_post pgdir a a (V2P mem) perm s ps (mappages pgdir a PGSIZE (V2P mem) perm s)"
    using mappages_loop_spec [OF D(1,2) a(1) a(1)] a(1)
    by (simp add: mappages_def PGROUNDDOWN_one_page PGROUNDDOWN_id)
  have nx: "vmap (kmem_mem s) pgdir x = None" if "in_range a a x" for x
    using that none vmap_page [of "kmem_mem s" pgdir x] a(1) by (simp add: in_range_last)
  then obtain r s' where ok: "mappages pgdir a PGSIZE (V2P mem) perm s = Ok (r, s')"
    using post by (cases "mappages pgdir a PGSIZE (V2P mem) perm s") (auto simp: mappages_post_def)
  then obtain ps' where st: "pt_step pgdir s ps s' ps'" and
    res: "r = 0 \<and> mapped_to (kmem_mem s) (kmem_mem s') pgdir a a (V2P mem) perm
      \<or> r = -1 \<and> mapped_part (kmem_mem s) (kmem_mem s') pgdir a a (V2P mem) perm
         \<and> vmap (kmem_mem s') pgdir a = vmap (kmem_mem s) pgdir a"
    using post by (auto simp: mappages_post_def)
  let ?e = "V2P mem OR perm OR PTE_P"
  have "unat (perm OR PTE_P) < 4096" using mem(3) by (intro or_flags_less) (simp_all add: PTE_P_def)
  then have e: "PTE_ADDR ?e = V2P mem" "frame ?e = mem"
    using mem(1) usable_page_aligned by (auto simp: frame_def or.assoc)
  from res show ?thesis
  proof (elim disjE conjE)
    assume r: "r = 0" "mapped_to (kmem_mem s) (kmem_mem s') pgdir a a (V2P mem) perm"
    then have vm: "vmap (kmem_mem s') pgdir x = (if PGROUNDDOWN x = a then Some ?e else vmap (kmem_mem s) pgdir x)" for x
      using a(1) by (simp add: mapped_to_def in_range_last new_pte_first)
    have "wf_space s' pgdir ps'"
      using wf st a vm by (rule wf_space_add) (use mem e in simp_all)
    then show ?thesis using that ok st vm r(1) by blast
  next
    assume r: "r = -1" "mapped_part (kmem_mem s) (kmem_mem s') pgdir a a (V2P mem) perm"
      "vmap (kmem_mem s') pgdir a = vmap (kmem_mem s) pgdir a"
    have vm: "vmap (kmem_mem s') pgdir x = vmap (kmem_mem s) pgdir x" for x
      using r(2) [unfolded mapped_part_def, THEN spec, of x] r(3) a(1)
        vmap_page [of "kmem_mem s" pgdir x] vmap_page [of "kmem_mem s'" pgdir x]
      by (auto simp: in_range_last)
    then show ?thesis using that ok st wf_space_keep [OF wf st vm] r(1) by blast
  qed
qed

lemma user_frames_add:
  assumes "page_aligned a" "a < KERNBASE" "vmap (kmem_mem s) pgdir a = None"
    and "\<And>x. vmap (kmem_mem s') pgdir x = (if PGROUNDDOWN x = a then Some e else vmap (kmem_mem s) pgdir x)"
  shows "user_frames (kmem_mem s') pgdir = insert (frame e) (user_frames (kmem_mem s) pgdir)"
proof (intro set_eqI iffI)
  fix q assume "q \<in> insert (frame e) (user_frames (kmem_mem s) pgdir)"
  then show "q \<in> user_frames (kmem_mem s') pgdir"
  proof
    assume "q = frame e"
    then show ?thesis using assms(4) [of a] PGROUNDDOWN_id [OF assms(1)] assms(2) user_frames_I by simp
  next
    assume "q \<in> user_frames (kmem_mem s) pgdir"
    then obtain x f where x: "q = frame f" "x < KERNBASE" "vmap (kmem_mem s) pgdir x = Some f"
      by (auto simp: user_frames_def)
    then have "PGROUNDDOWN x \<noteq> a" using assms(3) vmap_page [of "kmem_mem s" pgdir x] by auto
    then show ?thesis using x assms(4) [of x] user_frames_I by simp
  qed
qed (auto simp: user_frames_def assms(4) split: if_splits)

lemma held_add:
  assumes "pt_step pgdir s ps s' ps'" "page_aligned a" "a < KERNBASE" "vmap (kmem_mem s) pgdir a = None"
    and "\<And>x. vmap (kmem_mem s') pgdir x = (if PGROUNDDOWN x = a then Some e else vmap (kmem_mem s) pgdir x)"
  shows "held s' pgdir ps' = insert (frame e) (held s pgdir ps)"
  using pt_stepD(2,5) [OF assms(1)] user_frames_add [OF assms(2-5)] by (auto simp: held_def)

lemma held_keep:
  assumes "pt_step pgdir s ps s' ps'" "\<And>x. vmap (kmem_mem s') pgdir x = vmap (kmem_mem s) pgdir x"
  shows "held s' pgdir ps' = held s pgdir ps"
  using pt_stepD(2,5) [OF assms(1)] by (auto simp: held_def user_frames_def assms(2))

text \<open>Steps that leave the tables alone and keep the free pages apart from the space.\<close>

lemma wf_space_change:
  assumes "wf_space s pgdir ps" "free_pages s' ps'" "kend s' = kend s"
    and "\<forall>q \<in> pt_pages (kmem_mem s) pgdir. agree_page q (kmem_mem s) (kmem_mem s')"
    and "set ps' \<inter> (pt_pages (kmem_mem s) pgdir \<union> user_frames (kmem_mem s) pgdir) = {}"
  shows "wf_space s' pgdir ps'" "vmap (kmem_mem s') pgdir x = vmap (kmem_mem s) pgdir x"
    "pt_pages (kmem_mem s') pgdir = pt_pages (kmem_mem s) pgdir"
    "held s' pgdir ps' = set ps' \<union> pt_pages (kmem_mem s) pgdir \<union> user_frames (kmem_mem s) pgdir"
proof -
  note D = wf_spaceD [OF assms(1)]
  note fr = page_table_frame [OF wf_pgdirD(1) [OF D(2)] assms(4)]
  show "vmap (kmem_mem s') pgdir x = vmap (kmem_mem s) pgdir x"
    "pt_pages (kmem_mem s') pgdir = pt_pages (kmem_mem s) pgdir" by (simp_all add: fr)
  show "held s' pgdir ps' = set ps' \<union> pt_pages (kmem_mem s) pgdir \<union> user_frames (kmem_mem s) pgdir"
    by (simp add: held_def user_frames_def fr)
  have u: "usable_page s' = usable_page s" using assms(3) usable_page_cong by blast
  show "wf_space s' pgdir ps'"
    unfolding wf_space_def fr(3,4,5) u
  proof (intro conjI ballI allI impI)
    show "wf_pgdir (kmem_mem s) pgdir (set ps')"
      using D(2) assms(5) unfolding wf_pgdir_def pt_pages_def by blast
    show "frame e \<notin> set ps'" if "x < KERNBASE" "vmap (kmem_mem s) pgdir x = Some e" for x e
      using assms(5) user_frames_I [OF that] by blast
  qed (use assms(2) D(3,5,7,8) in blast)+
qed

lemma space_disjoint:
  assumes "wf_space s pgdir ps"
  shows "set ps \<inter> (pt_pages (kmem_mem s) pgdir \<union> user_frames (kmem_mem s) pgdir) = {}"
  using wf_pgdirD(2,5) [OF wf_spaceD(2) [OF assms]] wf_spaceD(6) [OF assms]
  by (auto simp: pt_pages_def user_frames_def)

text \<open>A page taken from the free list and overwritten is new to the space.\<close>

lemma kalloc_new_page:
  assumes "wf_space s pgdir (p # ps)" "\<forall>q. q \<noteq> p \<longrightarrow> agree_page q (kmem_mem s) m"
    and s1: "s1 = s\<lparr>freelist := load32 (kmem_mem s) p, kmem_mem := m\<rparr>"
  shows "kalloc s = (p, s\<lparr>freelist := load32 (kmem_mem s) p\<rparr>)" "p \<noteq> 0"
    "wf_space s1 pgdir ps" "usable_page s1 p" "p \<notin> held s1 pgdir ps"
    "held s pgdir (p # ps) = insert p (held s1 pgdir ps)"
    "vmap (kmem_mem s1) pgdir x = vmap (kmem_mem s) pgdir x"
    "pt_pages (kmem_mem s1) pgdir = pt_pages (kmem_mem s) pgdir"
proof -
  note D = wf_spaceD [OF assms(1)]
  show "kalloc s = (p, s\<lparr>freelist := load32 (kmem_mem s) p\<rparr>)" by (rule kalloc_Cons(1) [OF D(1)])
  show "p \<noteq> 0" using ka.frees_nonzero [OF D(1)] by auto
  let ?s = "s\<lparr>freelist := load32 (kmem_mem s) p\<rparr>"
  have p: "p \<notin> set ps" "usable_page s p" "p \<notin> pt_pages (kmem_mem s) pgdir" "p \<notin> user_frames (kmem_mem s) pgdir"
    using ka.frees_distinct [OF D(1)] ka.frees_usable [OF D(1)] wf_pgdirD(2,5) [OF D(2)] D(6)
    by (auto simp: pt_pages_def user_frames_def)
  have fp: "free_pages s1 ps"
    using p(1) assms(2) by (intro free_pages_frame [OF kalloc_Cons(2) [OF D(1)]]) (auto simp: s1)
  have ke: "kend s1 = kend s" by (simp add: s1)
  have ag: "\<forall>q \<in> pt_pages (kmem_mem s) pgdir. agree_page q (kmem_mem s) (kmem_mem s1)"
    using assms(2) p(3) by (auto simp: s1)
  have dis: "set ps \<inter> (pt_pages (kmem_mem s) pgdir \<union> user_frames (kmem_mem s) pgdir) = {}"
    using space_disjoint [OF assms(1)] by auto
  note ch = wf_space_change [OF assms(1) fp ke ag dis]
  show "wf_space s1 pgdir ps" "vmap (kmem_mem s1) pgdir x = vmap (kmem_mem s) pgdir x"
    "pt_pages (kmem_mem s1) pgdir = pt_pages (kmem_mem s) pgdir" by (rule ch)+
  show "usable_page s1 p" using p(2) by (simp add: usable_page_def s1)
  show "held s pgdir (p # ps) = insert p (held s1 pgdir ps)" "p \<notin> held s1 pgdir ps"
    unfolding ch(4) using p by (simp_all add: held_def)
qed

lemma kfree_other_page:
  assumes "wf_space s pgdir ps" "usable_page s p" "p \<notin> held s pgdir ps"
  obtains s' where "kfree p s = Ok s'" "wf_space s' pgdir (p # ps)"
    "\<And>x. vmap (kmem_mem s') pgdir x = vmap (kmem_mem s) pgdir x"
    "held s' pgdir (p # ps) = insert p (held s pgdir ps)"
    "pt_pages (kmem_mem s') pgdir = pt_pages (kmem_mem s) pgdir"
    "\<And>q. q \<noteq> p \<Longrightarrow> agree_page q (kmem_mem s) (kmem_mem s')"
proof -
  have p: "p \<notin> set ps" "p \<notin> pt_pages (kmem_mem s) pgdir" "p \<notin> user_frames (kmem_mem s) pgdir"
    using assms(3) by (auto simp: held_def)
  obtain s' where s': "kfree p s = Ok s'" "free_pages s' (p # ps)"
    "\<forall>q. q \<noteq> p \<longrightarrow> agree_page q (kmem_mem s) (kmem_mem s')"
    using kfree_contract [OF wf_spaceD(1) [OF assms(1)] assms(2) p(1)] by blast
  have ke: "kend s' = kend s" using kfree_frame [OF s'(1)] by simp
  have ag: "\<forall>q \<in> pt_pages (kmem_mem s) pgdir. agree_page q (kmem_mem s) (kmem_mem s')"
    using s'(3) p(2) by auto
  have dis: "set (p # ps) \<inter> (pt_pages (kmem_mem s) pgdir \<union> user_frames (kmem_mem s) pgdir) = {}"
    using space_disjoint [OF assms(1)] p by auto
  note ch = wf_space_change [OF assms(1) s'(2) ke ag dis]
  show ?thesis
    using s'(3) ch(4) by (intro that [OF s'(1) ch(1,2) _ ch(3)]) (auto simp: held_def)
qed

text \<open>What \<^verbatim>\<open>allocuvm\<close> promises: new zeroed user pages, or everything as before.\<close>

definition grown :: "kmem \<Rightarrow> kmem \<Rightarrow> addr \<Rightarrow> addr \<Rightarrow> addr \<Rightarrow> bool" where
  "grown s s' pgdir a newsz \<longleftrightarrow>
     (\<forall>x. if a \<le> PGROUNDDOWN x \<and> PGROUNDDOWN x < newsz
          then \<exists>e. vmap (kmem_mem s') pgdir x = Some e \<and> PTE_FLAGS e = PTE_W OR PTE_U OR PTE_P
                \<and> (\<forall>y. page_of y = frame e \<longrightarrow> kmem_mem s' y = 0)
          else vmap (kmem_mem s') pgdir x = vmap (kmem_mem s) pgdir x)"

definition shrunk :: "kmem \<Rightarrow> kmem \<Rightarrow> addr \<Rightarrow> addr \<Rightarrow> addr \<Rightarrow> bool" where
  "shrunk s s' pgdir a oldsz \<longleftrightarrow> (\<forall>x. vmap (kmem_mem s') pgdir x =
     (if a \<le> PGROUNDDOWN x \<and> PGROUNDDOWN x < oldsz then None else vmap (kmem_mem s) pgdir x))"

definition range_frames :: "kmem \<Rightarrow> addr \<Rightarrow> addr \<Rightarrow> addr \<Rightarrow> addr set" where
  "range_frames s pgdir a b =
     {frame e | x e. a \<le> PGROUNDDOWN x \<and> PGROUNDDOWN x < b \<and> vmap (kmem_mem s) pgdir x = Some e}"

definition unchanged_but :: "kmem \<Rightarrow> kmem \<Rightarrow> addr set \<Rightarrow> bool" where
  "unchanged_but s s' A \<longleftrightarrow> (\<forall>q. q \<notin> A \<longrightarrow> agree_page q (kmem_mem s) (kmem_mem s'))
     \<and> kend s' = kend s \<and> kdata s' = kdata s \<and> use_lock s' = use_lock s"

definition alloc_post :: "addr \<Rightarrow> addr \<Rightarrow> uint \<Rightarrow> uint \<Rightarrow> kmem \<Rightarrow> addr list \<Rightarrow> (uint \<times> kmem) res \<Rightarrow> bool" where
  "alloc_post pgdir a oldsz newsz s ps res \<longleftrightarrow>
     (\<exists>r s' ps'. res = Ok (r, s') \<and> wf_space s' pgdir ps' \<and> held s' pgdir ps' = held s pgdir ps
        \<and> (r = newsz \<and> grown s s' pgdir a newsz
             \<and> unchanged_but s s' (set ps \<union> pt_pages (kmem_mem s) pgdir)
           \<or> r = 0 \<and> shrunk s s' pgdir (PGROUNDUP oldsz) newsz
             \<and> unchanged_but s s' (set ps \<union> pt_pages (kmem_mem s) pgdir
                 \<union> range_frames s pgdir (PGROUNDUP oldsz) newsz)))"

lemma unchanged_but_trans:
  "unchanged_but s s1 A \<Longrightarrow> unchanged_but s1 s2 B \<Longrightarrow> A \<subseteq> C \<Longrightarrow> B \<subseteq> C \<Longrightarrow> unchanged_but s s2 C"
  by (simp add: unchanged_but_def) (blast intro: agree_page_trans)

lemma unchanged_but_mono: "unchanged_but s s1 A \<Longrightarrow> A \<subseteq> B \<Longrightarrow> unchanged_but s s1 B"
  by (auto simp: unchanged_but_def)

lemma space_step_unchanged:
  "space_step s pgdir A s' \<Longrightarrow> unchanged_but s s' (A \<union> pt_pages (kmem_mem s) pgdir)"
  by (auto simp: space_step_def unchanged_but_def)

lemma pt_step_unchanged:
  "pt_step pgdir s ps s' ps' \<Longrightarrow> unchanged_but s s' (set ps \<union> pt_pages (kmem_mem s) pgdir)"
  by (auto simp: pt_step_def unchanged_but_def)

lemma user_frames_shrunk:
  assumes "shrunk s s' pgdir a b" "b \<le> KERNBASE"
  shows "user_frames (kmem_mem s') pgdir \<union> range_frames s pgdir a b = user_frames (kmem_mem s) pgdir"
proof (intro set_eqI iffI)
  fix q assume "q \<in> user_frames (kmem_mem s) pgdir"
  then obtain x e where x: "q = frame e" "x < KERNBASE" "vmap (kmem_mem s) pgdir x = Some e"
    by (auto simp: user_frames_def)
  show "q \<in> user_frames (kmem_mem s') pgdir \<union> range_frames s pgdir a b"
  proof (cases "a \<le> PGROUNDDOWN x \<and> PGROUNDDOWN x < b")
    case True
    then have "q \<in> range_frames s pgdir a b" using x unfolding range_frames_def by blast
    then show ?thesis by blast
  next
    case False
    then have "vmap (kmem_mem s') pgdir x = Some e" using x assms(1) by (simp add: shrunk_def)
    then show ?thesis using user_frames_I x by blast
  qed
next
  fix q assume "q \<in> user_frames (kmem_mem s') pgdir \<union> range_frames s pgdir a b"
  then show "q \<in> user_frames (kmem_mem s) pgdir"
  proof
    assume "q \<in> user_frames (kmem_mem s') pgdir"
    then show ?thesis using assms(1) by (auto simp: user_frames_def shrunk_def split: if_splits)
  next
    assume "q \<in> range_frames s pgdir a b"
    then obtain x e where x: "q = frame e" "PGROUNDDOWN x < b" "vmap (kmem_mem s) pgdir x = Some e"
      unfolding range_frames_def by blast
    have "PGROUNDDOWN x < KERNBASE" using x(2) assms(2) by (rule less_le_trans)
    then show ?thesis using x user_frames_I by (simp add: page_of_lt_KERNBASE)
  qed
qed

lemma deallocuvm_held:
  assumes "wf_space s pgdir ps" "newsz < oldsz" "oldsz \<le> KERNBASE"
  obtains s' us where "deallocuvm pgdir oldsz newsz s = Ok (newsz, s')" "wf_space s' pgdir (us @ ps)"
    "shrunk s s' pgdir (PGROUNDUP newsz) oldsz" "held s' pgdir (us @ ps) = held s pgdir ps"
    "unchanged_but s s' (set us \<union> pt_pages (kmem_mem s) pgdir)"
    "set us = range_frames s pgdir (PGROUNDUP newsz) oldsz"
    "pt_pages (kmem_mem s') pgdir = pt_pages (kmem_mem s) pgdir"
proof (rule deallocuvm_spec [OF assms])
  fix s' us assume d: "deallocuvm pgdir oldsz newsz s = Ok (newsz, s')" "wf_space s' pgdir (us @ ps)"
    "space_step s pgdir (set us) s'"
    "\<And>x. vmap (kmem_mem s') pgdir x =
       (if PGROUNDUP newsz \<le> PGROUNDDOWN x \<and> PGROUNDDOWN x < oldsz then None else vmap (kmem_mem s) pgdir x)"
    "set us = {frame e | x e. PGROUNDUP newsz \<le> PGROUNDDOWN x \<and> PGROUNDDOWN x < oldsz
        \<and> vmap (kmem_mem s) pgdir x = Some e}"
  have sh: "shrunk s s' pgdir (PGROUNDUP newsz) oldsz" using d(4) by (simp add: shrunk_def)
  have us: "set us = range_frames s pgdir (PGROUNDUP newsz) oldsz" using d(5) by (simp add: range_frames_def)
  have pp: "pt_pages (kmem_mem s') pgdir = pt_pages (kmem_mem s) pgdir" using d(3) by (simp add: space_step_def)
  have "held s' pgdir (us @ ps) = held s pgdir ps"
    using user_frames_shrunk [OF sh assms(3)] unfolding held_def pp set_append us by blast
  then show ?thesis using that d(1,2) sh us pp space_step_unchanged [OF d(3)] by blast
qed

lemma alloc_post_step:
  assumes "vmap (kmem_mem s) pgdir a = None" "page_aligned a" "a < newsz" "a < a + PGSIZE"
    and "\<And>x. vmap (kmem_mem s3) pgdir x = (if PGROUNDDOWN x = a then Some e else vmap (kmem_mem s) pgdir x)"
    and "PTE_FLAGS e = PTE_W OR PTE_U OR PTE_P" "\<forall>y. page_of y = frame e \<longrightarrow> kmem_mem s3 y = 0"
    and "frame e \<notin> set ps3 \<union> pt_pages (kmem_mem s3) pgdir" "frame e \<in> set ps"
    and "held s3 pgdir ps3 = held s pgdir ps"
    and "set ps3 \<union> pt_pages (kmem_mem s3) pgdir \<subseteq> set ps \<union> pt_pages (kmem_mem s) pgdir"
    and "unchanged_but s s3 (set ps \<union> pt_pages (kmem_mem s) pgdir)"
    and "alloc_post pgdir (a + PGSIZE) oldsz newsz s3 ps3 res" "PGROUNDUP oldsz \<le> a"
  shows "alloc_post pgdir a oldsz newsz s ps res"
proof -
  obtain r s' ps' where *: "res = Ok (r, s')" "wf_space s' pgdir ps'" "held s' pgdir ps' = held s pgdir ps" and
    alt: "r = newsz \<and> grown s3 s' pgdir (a + PGSIZE) newsz
        \<and> unchanged_but s3 s' (set ps3 \<union> pt_pages (kmem_mem s3) pgdir)
      \<or> r = 0 \<and> shrunk s3 s' pgdir (PGROUNDUP oldsz) newsz
        \<and> unchanged_but s3 s' (set ps3 \<union> pt_pages (kmem_mem s3) pgdir
            \<union> range_frames s3 pgdir (PGROUNDUP oldsz) newsz)"
    using assms(13) assms(10) unfolding alloc_post_def by auto
  have nxt: "a \<le> q \<longleftrightarrow> q = a \<or> a + PGSIZE \<le> q" if "page_aligned q" for q
    using next_page_le [OF assms(2) that assms(4)] .
  from alt show ?thesis
  proof (elim disjE conjE)
    assume r: "r = newsz" "grown s3 s' pgdir (a + PGSIZE) newsz"
      "unchanged_but s3 s' (set ps3 \<union> pt_pages (kmem_mem s3) pgdir)"
    have z: "\<forall>y. page_of y = frame e \<longrightarrow> kmem_mem s' y = 0"
      using r(3) assms(7,8) by (simp add: unchanged_but_def agree_page_def)
    have "grown s s' pgdir a newsz"
      unfolding grown_def
    proof
      fix x
      show "if a \<le> PGROUNDDOWN x \<and> PGROUNDDOWN x < newsz
          then \<exists>e. vmap (kmem_mem s') pgdir x = Some e \<and> PTE_FLAGS e = PTE_W OR PTE_U OR PTE_P
                \<and> (\<forall>y. page_of y = frame e \<longrightarrow> kmem_mem s' y = 0)
          else vmap (kmem_mem s') pgdir x = vmap (kmem_mem s) pgdir x"
        using r(2) [unfolded grown_def, THEN spec, of x] assms(3,4,6) z nxt [of "PGROUNDDOWN x"]
        by (cases "PGROUNDDOWN x = a") (auto simp: assms(5) split: if_splits)
    qed
    moreover have "unchanged_but s s' (set ps \<union> pt_pages (kmem_mem s) pgdir)"
      using unchanged_but_trans [OF assms(12) r(3) order_refl assms(11)] .
    ultimately show ?thesis using * r(1) unfolding alloc_post_def by blast
  next
    assume r: "r = 0" "shrunk s3 s' pgdir (PGROUNDUP oldsz) newsz"
      "unchanged_but s3 s' (set ps3 \<union> pt_pages (kmem_mem s3) pgdir \<union> range_frames s3 pgdir (PGROUNDUP oldsz) newsz)"
    have "shrunk s s' pgdir (PGROUNDUP oldsz) newsz"
      using r(2) assms(3,14) by (auto simp: shrunk_def assms(5))
    moreover have "range_frames s3 pgdir (PGROUNDUP oldsz) newsz \<subseteq> set ps \<union> range_frames s pgdir (PGROUNDUP oldsz) newsz"
      using assms(9) by (auto simp: range_frames_def assms(5) split: if_splits)
    then have "unchanged_but s s' (set ps \<union> pt_pages (kmem_mem s) pgdir \<union> range_frames s pgdir (PGROUNDUP oldsz) newsz)"
      using assms(11) by (intro unchanged_but_trans [OF assms(12) r(3)]) auto
    ultimately show ?thesis using * r(1) unfolding alloc_post_def by blast
  qed
qed

lemma alloc_fail:
  assumes "wf_space s pgdir ps" "oldsz < newsz" "newsz \<le> KERNBASE"
  shows "alloc_post pgdir a oldsz newsz s ps
    (bind_res (deallocuvm pgdir newsz oldsz s) (\<lambda>(_, s'). Ok (0, s')))"
proof (rule deallocuvm_held [OF assms])
  fix s' us assume d: "deallocuvm pgdir newsz oldsz s = Ok (oldsz, s')" "wf_space s' pgdir (us @ ps)"
    "shrunk s s' pgdir (PGROUNDUP oldsz) newsz" "held s' pgdir (us @ ps) = held s pgdir ps"
    "unchanged_but s s' (set us \<union> pt_pages (kmem_mem s) pgdir)"
    "set us = range_frames s pgdir (PGROUNDUP oldsz) newsz"
  have "unchanged_but s s' (set ps \<union> pt_pages (kmem_mem s) pgdir \<union> range_frames s pgdir (PGROUNDUP oldsz) newsz)"
    using d(6) by (intro unchanged_but_mono [OF d(5)]) auto
  then show ?thesis using d(1-4) by (auto simp: alloc_post_def)
qed

text \<open>\<^verbatim>\<open>mappages\<close> ran out of memory: the page taken for the data goes back as well.\<close>

lemma alloc_fail_page:
  assumes "wf_space s pgdir (p # ps)" "\<forall>q. q \<noteq> p \<longrightarrow> agree_page q (kmem_mem s) m" "oldsz < newsz" "newsz \<le> KERNBASE"
    and s2: "s2 = s\<lparr>freelist := load32 (kmem_mem s) p, kmem_mem := m\<rparr>"
    and st: "pt_step pgdir s2 ps s3 ps3" "wf_space s3 pgdir ps3"
    and vm: "\<And>x. vmap (kmem_mem s3) pgdir x = vmap (kmem_mem s2) pgdir x"
  shows "alloc_post pgdir a oldsz newsz s (p # ps)
    (bind_res (deallocuvm pgdir newsz oldsz s3) (\<lambda>(_, s4). bind_res (kfree p s4) (\<lambda>s5. Ok (0, s5))))"
proof (rule deallocuvm_held [OF st(2) assms(3,4)])
  fix s4 us assume d: "deallocuvm pgdir newsz oldsz s3 = Ok (oldsz, s4)" "wf_space s4 pgdir (us @ ps3)"
    "shrunk s3 s4 pgdir (PGROUNDUP oldsz) newsz" "held s4 pgdir (us @ ps3) = held s3 pgdir ps3"
    "unchanged_but s3 s4 (set us \<union> pt_pages (kmem_mem s3) pgdir)"
    "set us = range_frames s3 pgdir (PGROUNDUP oldsz) newsz"
    "pt_pages (kmem_mem s4) pgdir = pt_pages (kmem_mem s3) pgdir"
  note n = kalloc_new_page [OF assms(1,2) s2]
  have h: "held s4 pgdir (us @ ps3) = held s2 pgdir ps" using d(4) held_keep [OF st(1) vm] by simp
  have "usable_page s4 p"
    using n(4) d(5) pt_stepD(7) [OF st(1)] by (simp add: unchanged_but_def usable_page_def)
  from kfree_other_page [OF d(2) this] n(5) obtain s5 where k: "kfree p s4 = Ok s5"
    "wf_space s5 pgdir (p # us @ ps3)" "\<And>x. vmap (kmem_mem s5) pgdir x = vmap (kmem_mem s4) pgdir x"
    "held s5 pgdir (p # us @ ps3) = insert p (held s4 pgdir (us @ ps3))"
    "\<And>q. q \<noteq> p \<Longrightarrow> agree_page q (kmem_mem s4) (kmem_mem s5)"
    unfolding h by metis
  have v: "vmap (kmem_mem s3) pgdir x = vmap (kmem_mem s) pgdir x" for x using vm n(7) by simp
  have "held s5 pgdir (p # us @ ps3) = held s pgdir (p # ps)" using k(4) h n(6) by simp
  moreover have "shrunk s s5 pgdir (PGROUNDUP oldsz) newsz" using d(3) by (simp add: shrunk_def k(3) v)
  moreover have "range_frames s3 pgdir (PGROUNDUP oldsz) newsz = range_frames s pgdir (PGROUNDUP oldsz) newsz"
    by (simp add: range_frames_def v)
  then have "unchanged_but s s5 (set (p # ps) \<union> pt_pages (kmem_mem s) pgdir \<union> range_frames s pgdir (PGROUNDUP oldsz) newsz)"
    (is "unchanged_but s s5 ?C")
  proof -
    have "unchanged_but s s2 {p}" using assms(2) by (auto simp: unchanged_but_def s2)
    then have 1: "unchanged_but s s3 ?C"
      using n(8) by (intro unchanged_but_trans [OF _ pt_step_unchanged [OF st(1)]]) auto
    have 2: "unchanged_but s s4 ?C"
      using d(6) n(8) pt_stepD(5) [OF st(1)] v by (intro unchanged_but_trans [OF 1 d(5)]) (auto simp: range_frames_def)
    have "unchanged_but s4 s5 {p}" using k(5) kfree_frame [OF k(1)] by (auto simp: unchanged_but_def)
    then show ?thesis by (intro unchanged_but_trans [OF 2]) auto
  qed
  ultimately show ?thesis using d(1) k(1,2) by (auto simp: alloc_post_def)
qed

text \<open>A zeroed page was mapped: the loop goes on from the next page.\<close>

lemma alloc_page_mapped:
  assumes wf: "wf_space s pgdir (p # ps)" and a: "page_aligned a" "a < newsz" "newsz < KERNBASE" "PGROUNDUP oldsz \<le> a"
    and none: "vmap (kmem_mem s) pgdir a = None"
    and s2: "s2 = s\<lparr>freelist := load32 (kmem_mem s) p, kmem_mem := stosb (kmem_mem s) p 0 4096\<rparr>"
    and st: "pt_step pgdir s2 ps s3 ps3"
    and vm: "\<And>x. vmap (kmem_mem s3) pgdir x =
      (if PGROUNDDOWN x = a then Some (V2P p OR (PTE_W OR PTE_U) OR PTE_P) else vmap (kmem_mem s2) pgdir x)"
    and rest: "alloc_post pgdir (a + PGSIZE) oldsz newsz s3 ps3 res"
  shows "alloc_post pgdir a oldsz newsz s (p # ps) res"
proof -
  let ?e = "V2P p OR (PTE_W OR PTE_U) OR PTE_P"
  have p: "page_aligned p" using ka.frees_usable [OF wf_spaceD(1) [OF wf], of p] usable_page_aligned by auto
  have ag: "\<forall>q. q \<noteq> p \<longrightarrow> agree_page q (kmem_mem s) (stosb (kmem_mem s) p 0 4096)"
    using p by (simp add: agree_page_stosb)
  note n = kalloc_new_page [OF wf ag s2] and d = pt_stepD [OF st]
  have "unat (PTE_W OR PTE_U OR PTE_P) < 4096" by (simp add: pte_flag_defs)
  then have e: "frame ?e = p" "PTE_FLAGS ?e = PTE_W OR PTE_U OR PTE_P"
    using p by (simp_all add: frame_def or.assoc)
  have a_lt: "a < KERNBASE" using a by simp
  then have nxt: "a < a + PGSIZE" by (simp add: word_less_nat_alt PGSIZE_def KERNBASE_def unat_word_ariths)
  have new: "p \<notin> set ps" "p \<notin> pt_pages (kmem_mem s2) pgdir" using n(5) by (auto simp: held_def)
  have "agree_page p (kmem_mem s2) (kmem_mem s3)" using d(6) new by simp
  moreover have "kmem_mem s2 y = 0" if "page_of y = p" for y using p that by (simp add: s2 stosb_page)
  ultimately have zero: "\<forall>y. page_of y = frame ?e \<longrightarrow> kmem_mem s3 y = 0" unfolding e by (simp add: agree_page_def)
  have vm': "vmap (kmem_mem s3) pgdir x = (if PGROUNDDOWN x = a then Some ?e else vmap (kmem_mem s) pgdir x)" for x
    using vm n(7) by simp
  have none2: "vmap (kmem_mem s2) pgdir a = None" using none n(7) by simp
  have h: "held s3 pgdir ps3 = held s pgdir (p # ps)"
    using held_add [OF st a(1) a_lt none2 vm] n(6) e by simp
  have un: "unchanged_but s s3 (set (p # ps) \<union> pt_pages (kmem_mem s) pgdir)"
    by (rule unchanged_but_trans [OF _ pt_step_unchanged [OF st], of _ "{p}"])
      (use ag n(8) in \<open>auto simp: unchanged_but_def s2\<close>)
  show ?thesis
    using d(2,5) new n(8) e
    by (intro alloc_post_step [OF none a(1,2) nxt vm' e(2) zero _ _ h _ un rest a(4)]) auto
qed

lemma alloc_loop_spec:
  assumes "wf_space s pgdir ps" "page_aligned a" "PGROUNDUP oldsz \<le> a" "oldsz \<le> a" "newsz < KERNBASE"
    and "\<And>x. a \<le> PGROUNDDOWN x \<Longrightarrow> PGROUNDDOWN x < newsz \<Longrightarrow> vmap (kmem_mem s) pgdir x = None"
  shows "alloc_post pgdir a oldsz newsz s ps (alloc_loop pgdir a oldsz newsz s)"
  using assms
proof (induction pgdir a oldsz newsz s arbitrary: ps rule: alloc_loop.induct)
  case (1 pgdir a oldsz newsz s)
  note IH = 1(1) and wf = 1(2) and al = 1(3) and lo = 1(4,5) and kb = 1(6) and none = 1(7)
  show ?case
  proof (cases "a < newsz")
    case False
    then have "\<not> (a \<le> q \<and> q < newsz)" for q by auto
    then have "grown s s pgdir a newsz" by (auto simp: grown_def)
    then show ?thesis using wf False
      by (auto simp: alloc_loop.simps [of pgdir a] alloc_post_def unchanged_but_def)
  next
    case True
    have old: "oldsz < newsz" "newsz \<le> KERNBASE" "a < KERNBASE" using True lo(2) kb by auto
    show ?thesis
    proof (cases ps)
      case Nil
      then have "kalloc s = (0, s)" using wf kalloc_empty [OF wf_spaceD(1)] by simp
      then have eq: "alloc_loop pgdir a oldsz newsz s =
          bind_res (deallocuvm pgdir newsz oldsz s) (\<lambda>(_, s'). Ok (0, s'))"
        using True by (simp add: alloc_loop.simps [of pgdir a])
      show ?thesis unfolding eq by (rule alloc_fail [OF wf old(1,2)])
    next
      case (Cons p qs)
      note wf' = wf [unfolded Cons]
      define m where "m = stosb (kmem_mem s) p 0 4096"
      define s2 where "s2 = s\<lparr>freelist := load32 (kmem_mem s) p, kmem_mem := m\<rparr>"
      have p: "page_aligned p" using ka.frees_usable [OF wf_spaceD(1) [OF wf'], of p] usable_page_aligned by auto
      have ag: "\<forall>q. q \<noteq> p \<longrightarrow> agree_page q (kmem_mem s) m" unfolding m_def using p by (simp add: agree_page_stosb)
      note n = kalloc_new_page [OF wf' ag s2_def]
      have na: "vmap (kmem_mem s2) pgdir a = None" using none [of a] True al n(7) by (simp add: PGROUNDDOWN_id)
      have fl: "unat (PTE_W OR PTE_U) < 4096" by (simp add: pte_flag_defs)
      obtain r s3 qs3 where mp: "mappages pgdir a PGSIZE (V2P p) (PTE_W OR PTE_U) s2 = Ok (r, s3)"
        "pt_step pgdir s2 qs s3 qs3" "wf_space s3 pgdir qs3" and
        res: "r = 0 \<and> (\<forall>x. vmap (kmem_mem s3) pgdir x =
            (if PGROUNDDOWN x = a then Some (V2P p OR (PTE_W OR PTE_U) OR PTE_P) else vmap (kmem_mem s2) pgdir x))
         \<or> r = -1 \<and> (\<forall>x. vmap (kmem_mem s3) pgdir x = vmap (kmem_mem s2) pgdir x)"
        by (rule map_page_spec [OF n(3) al old(3) n(4,5) fl na])
      have ks: "kalloc s = (p, s\<lparr>freelist := load32 (kmem_mem s) p\<rparr>)" by (rule n(1))
      have s2': "s\<lparr>freelist := load32 (kmem_mem s) p, kmem_mem := memset (kmem_mem s) p 0 PGSIZE\<rparr> = s2"
        by (simp add: s2_def m_def memset_eq_stosb PGSIZE_def)
      from res show ?thesis
      proof (elim disjE conjE)
        assume r: "r = -1" "\<forall>x. vmap (kmem_mem s3) pgdir x = vmap (kmem_mem s2) pgdir x"
        have "alloc_loop pgdir a oldsz newsz s = bind_res (deallocuvm pgdir newsz oldsz s3)
            (\<lambda>(_, s4). bind_res (kfree p s4) (\<lambda>s5. Ok (0, s5)))"
          using True ks n(2) mp(1) r(1) s2' by (simp add: alloc_loop.simps [of pgdir a])
        then show ?thesis using alloc_fail_page [OF wf' ag old(1,2) s2_def mp(2,3)] r(2) Cons by simp
      next
        assume r: "r = 0" "\<forall>x. vmap (kmem_mem s3) pgdir x =
            (if PGROUNDDOWN x = a then Some (V2P p OR (PTE_W OR PTE_U) OR PTE_P) else vmap (kmem_mem s2) pgdir x)"
        have nxt: "a < a + PGSIZE"
          using old(3) by (simp add: word_less_nat_alt PGSIZE_def KERNBASE_def unat_word_ariths)
        have "alloc_post pgdir (a + PGSIZE) oldsz newsz s3 qs3 (alloc_loop pgdir (a + PGSIZE) oldsz newsz s3)"
        proof (rule IH [OF True ks [symmetric] refl n(2) _ mp(1) refl _ _ mp(3)])
          show "vmap (kmem_mem s3) pgdir x = None" if "a + PGSIZE \<le> PGROUNDDOWN x" "PGROUNDDOWN x < newsz" for x
            using that nxt none [of x] r(2) n(7) by auto
        qed (use nxt al lo kb r(1) s2' in auto)
        then have "alloc_post pgdir a oldsz newsz s (p # qs) (alloc_loop pgdir (a + PGSIZE) oldsz newsz s3)"
          using r(2) none [of a] True al
          by (intro alloc_page_mapped [OF wf' al True kb lo(1) _ s2_def [unfolded m_def] mp(2)]) (auto simp: PGROUNDDOWN_id)
        then show ?thesis
          using True ks n(2) mp(1) r(1) s2' Cons not_le [THEN iffD2, OF nxt]
          by (simp add: alloc_loop.simps [of pgdir a])
      qed
    qed
  qed
qed

end
