(* ===== verification/Vm_Kernel.thy ===== *)
theory Vm_Kernel
  imports Vm_Grow
begin

text \<open>
  The kernel part that \<^verbatim>\<open>setupkvm\<close> gives every address space.
\<close>

section \<open>The kernel part of an address space\<close>

text \<open>The entry that a list of kernel mappings gives an address.\<close>

fun kmap_pte :: "(addr \<times> uint \<times> uint \<times> uint) list \<Rightarrow> addr \<Rightarrow> uint option" where
  "kmap_pte [] x = None"
| "kmap_pte ((virt, phys_start, phys_end, perm) # ks) x =
     (if in_range (PGROUNDDOWN virt) (PGROUNDDOWN (virt + (phys_end - phys_start) - 1)) x
      then Some (new_pte (PGROUNDDOWN virt) phys_start perm x) else kmap_pte ks x)"

fun kmap_disjoint :: "(addr \<times> uint \<times> uint \<times> uint) list \<Rightarrow> bool" where
  "kmap_disjoint [] = True"
| "kmap_disjoint (k # ks) = ((\<forall>x. kmap_pte [k] x \<noteq> None \<longrightarrow> kmap_pte ks x = None) \<and> kmap_disjoint ks)"

text \<open>Mapping pages above \<^verbatim>\<open>KERNBASE\<close> keeps the user part.\<close>

lemma wf_space_kernel:
  assumes "wf_space s pgdir ps" "pt_step pgdir s ps s' ps'"
    and "\<And>x. x < KERNBASE \<Longrightarrow> vmap (kmem_mem s') pgdir x = vmap (kmem_mem s) pgdir x"
  shows "wf_space s' pgdir ps'" "held s' pgdir ps' = held s pgdir ps"
proof -
  note D = wf_spaceD [OF assms(1)] and d = pt_stepD [OF assms(2)]
  have u: "usable_page s' = usable_page s" using d(7) usable_page_cong by blast
  show "wf_space s' pgdir ps'"
    unfolding wf_space_def
  proof (intro conjI ballI allI impI)
    fix x e assume x: "x < KERNBASE" "vmap (kmem_mem s') pgdir x = Some e"
    then have x': "vmap (kmem_mem s) pgdir x = Some e" using assms(3) by simp
    show "usable_page s' (frame e)" "frame e \<notin> set ps'" "frame e \<notin> pt_pages (kmem_mem s') pgdir"
      using D(5,6,7) [OF x(1) x'] d(2) u by (auto simp: d(5))
  next
    fix x y e f assume "x < KERNBASE" "y < KERNBASE" "vmap (kmem_mem s') pgdir x = Some e"
      "vmap (kmem_mem s') pgdir y = Some f" "frame e = frame f"
    then show "PGROUNDDOWN x = PGROUNDDOWN y" using D(8) [of x y e f] assms(3) by simp
  qed (use d(1,3) pt_step_usable [OF assms(1,2)] in blast)+
  have "user_frames (kmem_mem s') pgdir = user_frames (kmem_mem s) pgdir"
    unfolding user_frames_def using assms(3) by force
  then show "held s' pgdir ps' = held s pgdir ps" using d(2,5) by (auto simp: held_def)
qed

definition setup_post :: "addr \<Rightarrow> (addr \<times> uint \<times> uint \<times> uint) list \<Rightarrow> kmem \<Rightarrow> addr list \<Rightarrow> (addr \<times> kmem) res \<Rightarrow> bool" where
  "setup_post pgdir ks s ps res \<longleftrightarrow>
     (\<exists>d s' ps'. res = Ok (d, s')
        \<and> (d = 0 \<and> free_pages s' ps' \<and> set ps' = held s pgdir ps
           \<or> d = pgdir \<and> wf_space s' pgdir ps' \<and> held s' pgdir ps' = held s pgdir ps
             \<and> (\<forall>x. vmap (kmem_mem s') pgdir x =
                  (case kmap_pte ks x of Some e \<Rightarrow> Some e | None \<Rightarrow> vmap (kmem_mem s) pgdir x)))
        \<and> unchanged_but s s' (held s pgdir ps))"

lemma map_kernel_spec:
  assumes "wf_space s pgdir ps" "kmap_disjoint ks" "\<And>x. x < KERNBASE \<Longrightarrow> kmap_pte ks x = None"
    and "\<And>x. kmap_pte ks x \<noteq> None \<Longrightarrow> vmap (kmem_mem s) pgdir x = None"
  shows "setup_post pgdir ks s ps (map_kernel pgdir ks s)"
  using assms
proof (induction ks arbitrary: s ps)
  case Nil
  then show ?case by (auto simp: setup_post_def unchanged_but_def)
next
  case (Cons k ks)
  obtain virt p_start p_end perm where k: "k = (virt, p_start, p_end, perm)" by (cases k) auto
  let ?a = "PGROUNDDOWN virt" and ?l = "PGROUNDDOWN (virt + (p_end - p_start) - 1)"
  note D = wf_spaceD [OF Cons.prems(1)]
  have dis: "kmap_pte ks x = None" if "in_range ?a ?l x" for x
    using Cons.prems(2) that by (simp add: k)
  have low: "\<not> in_range ?a ?l x" if "x < KERNBASE" for x
    using Cons.prems(3) [OF that] by (auto simp: k split: if_splits)
  have none: "vmap (kmem_mem s) pgdir x = None" if "in_range ?a ?l x" for x
    using Cons.prems(4) [of x] that by (simp add: k)
  have post: "mappages_post pgdir ?a ?l p_start perm s ps (mappages pgdir virt (p_end - p_start) p_start perm s)"
    unfolding mappages_def by (rule mappages_loop_spec [OF D(1,2)]) simp_all
  then obtain r s1 where r: "mappages pgdir virt (p_end - p_start) p_start perm s = Ok (r, s1)"
    using none by (cases "mappages pgdir virt (p_end - p_start) p_start perm s") (auto simp: mappages_post_def)
  then obtain ps1 where st: "pt_step pgdir s ps s1 ps1" and
    res: "r = 0 \<and> mapped_to (kmem_mem s) (kmem_mem s1) pgdir ?a ?l p_start perm
      \<or> r = -1 \<and> mapped_part (kmem_mem s) (kmem_mem s1) pgdir ?a ?l p_start perm"
    using post by (auto simp: mappages_post_def)
  have keep: "vmap (kmem_mem s1) pgdir x = vmap (kmem_mem s) pgdir x" if "x < KERNBASE" for x
    using res low [OF that] unfolding mapped_to_def mapped_part_def by auto
  have w: "wf_space s1 pgdir ps1" "held s1 pgdir ps1 = held s pgdir ps"
    using wf_space_kernel [OF Cons.prems(1) st] keep by auto
  have un: "unchanged_but s s1 (held s pgdir ps)"
    by (rule unchanged_but_mono [OF pt_step_unchanged [OF st]]) (auto simp: held_def)
  from res show ?case
  proof (elim disjE conjE)
    assume "r = -1"
    moreover obtain s2 qs where f: "freevm pgdir s1 = Ok s2" "free_pages s2 (qs @ ps1)"
      "set qs = pt_pages (kmem_mem s1) pgdir \<union> user_frames (kmem_mem s1) pgdir" "unchanged_but s1 s2 (set qs)"
      using freevm_spec [OF w(1)] by (auto simp: unchanged_but_def)
    moreover from f(3) have h: "set (qs @ ps1) = held s pgdir ps" unfolding w(2) [symmetric] by (auto simp: held_def)
    moreover have "unchanged_but s s2 (held s pgdir ps)"
      using h by (intro unchanged_but_trans [OF un f(4)]) auto
    ultimately show ?thesis using r k unfolding setup_post_def
      by (intro exI [of _ 0] exI [of _ s2] exI [of _ "qs @ ps1"]) simp
  next
    assume m: "r = 0" "mapped_to (kmem_mem s) (kmem_mem s1) pgdir ?a ?l p_start perm"
    have vm: "vmap (kmem_mem s1) pgdir x = (if in_range ?a ?l x then Some (new_pte ?a p_start perm x)
        else vmap (kmem_mem s) pgdir x)" for x using m(2) by (simp add: mapped_to_def)
    have "setup_post pgdir ks s1 ps1 (map_kernel pgdir ks s1)"
    proof (rule Cons.IH [OF w(1)])
      show "kmap_disjoint ks" using Cons.prems(2) by simp
      show "kmap_pte ks x = None" if "x < KERNBASE" for x
        using Cons.prems(3) [OF that] low [OF that] by (simp add: k)
      show "vmap (kmem_mem s1) pgdir x = None" if "kmap_pte ks x \<noteq> None" for x
        using that dis [of x] Cons.prems(4) [of x] by (auto simp: vm k)
    qed
    then obtain d s2 ps2 where ih: "map_kernel pgdir ks s1 = Ok (d, s2)"
      "d = 0 \<and> free_pages s2 ps2 \<and> set ps2 = held s pgdir ps
        \<or> d = pgdir \<and> wf_space s2 pgdir ps2 \<and> held s2 pgdir ps2 = held s pgdir ps
          \<and> (\<forall>x. vmap (kmem_mem s2) pgdir x =
               (case kmap_pte ks x of Some e \<Rightarrow> Some e | None \<Rightarrow> vmap (kmem_mem s1) pgdir x))"
      "unchanged_but s1 s2 (held s pgdir ps)" unfolding setup_post_def w(2) by blast
    have "(case kmap_pte ks x of Some e \<Rightarrow> Some e | None \<Rightarrow> vmap (kmem_mem s1) pgdir x) =
        (case kmap_pte (k # ks) x of Some e \<Rightarrow> Some e | None \<Rightarrow> vmap (kmem_mem s) pgdir x)" for x
      using dis [of x] by (auto simp: vm k split: option.splits)
    then have alt: "d = 0 \<and> free_pages s2 ps2 \<and> set ps2 = held s pgdir ps
        \<or> d = pgdir \<and> wf_space s2 pgdir ps2 \<and> held s2 pgdir ps2 = held s pgdir ps
          \<and> (\<forall>x. vmap (kmem_mem s2) pgdir x =
               (case kmap_pte (k # ks) x of Some e \<Rightarrow> Some e | None \<Rightarrow> vmap (kmem_mem s) pgdir x))"
      using ih(2) by simp
    have "map_kernel pgdir (k # ks) s = Ok (d, s2)" using ih(1) r m(1) k by simp
    then show ?thesis unfolding setup_post_def
      using alt unchanged_but_trans [OF un ih(3) order_refl order_refl] by blast
  qed
qed

lemma in_range_iff:
  assumes "a \<le> l"
  shows "in_range a l x \<longleftrightarrow> a \<le> PGROUNDDOWN x \<and> PGROUNDDOWN x \<le> l"
  using assms unat_uint_less [of l] unat_uint_less [of "PGROUNDDOWN x"] unfolding in_range_def
  by (auto simp: word_le_nat_alt unat_sub_if')

text \<open>
  The kernel part of every page table: the low memory and the kernel image at
  \<^verbatim>\<open>KERNBASE\<close>, read-only from \<^verbatim>\<open>KERNLINK\<close> to \<open>data\<close>, and the devices mapped to themselves.
\<close>

definition kernel_pte :: "addr \<Rightarrow> addr \<Rightarrow> uint option" where
  "kernel_pte data x =
     (let q = PGROUNDDOWN x
      in if DEVSPACE \<le> q then Some (q OR PTE_W OR PTE_P)
         else if KERNBASE \<le> q \<and> q < P2V PHYSTOP
         then Some (V2P q OR (if KERNLINK \<le> q \<and> q < data then 0 else PTE_W) OR PTE_P)
         else None)"

lemma consecutive_ranges:
  fixes q :: "'a :: linorder"
  assumes "b < k" "k < d" "d < p" "p < v"
  shows "(if b \<le> q \<and> q < k then A else if k \<le> q \<and> q < d then B else if d \<le> q \<and> q < p then A
      else if v \<le> q then C else N) =
    (if v \<le> q then C else if b \<le> q \<and> q < p then (if k \<le> q \<and> q < d then B else A) else N)"
  using assms by auto

text \<open>What the linker script gives: the kernel image starts at \<^verbatim>\<open>KERNLINK\<close> and its data at a page.\<close>

definition kernel_image :: "kmem \<Rightarrow> bool" where
  "kernel_image s \<longleftrightarrow> page_aligned (kdata s) \<and> KERNLINK < kdata s \<and> kdata s < P2V PHYSTOP"

lemma kmap_ranges:
  assumes "kernel_image s"
  shows "in_range (PGROUNDDOWN KERNBASE) (PGROUNDDOWN (KERNBASE + (EXTMEM - 0) - 1)) x
      \<longleftrightarrow> KERNBASE \<le> PGROUNDDOWN x \<and> PGROUNDDOWN x < KERNLINK"
    "in_range (PGROUNDDOWN KERNLINK) (PGROUNDDOWN (KERNLINK + (V2P (kdata s) - V2P KERNLINK) - 1)) x
      \<longleftrightarrow> KERNLINK \<le> PGROUNDDOWN x \<and> PGROUNDDOWN x < kdata s"
    "in_range (PGROUNDDOWN (kdata s)) (PGROUNDDOWN (kdata s + (PHYSTOP - V2P (kdata s)) - 1)) x
      \<longleftrightarrow> kdata s \<le> PGROUNDDOWN x \<and> PGROUNDDOWN x < P2V PHYSTOP"
    "in_range (PGROUNDDOWN DEVSPACE) (PGROUNDDOWN (DEVSPACE + (0 - DEVSPACE) - 1)) x
      \<longleftrightarrow> DEVSPACE \<le> PGROUNDDOWN x"
proof -
  let ?d = "kdata s" and ?q = "PGROUNDDOWN x"
  note ki = assms [unfolded kernel_image_def, THEN conjunct1]
    assms [unfolded kernel_image_def, THEN conjunct2, THEN conjunct1]
    assms [unfolded kernel_image_def, THEN conjunct2, THEN conjunct2]
  have c: "page_aligned KERNBASE" "page_aligned KERNLINK" "page_aligned (P2V PHYSTOP)" "page_aligned DEVSPACE"
    by (simp_all add: page_aligned_def PGSIZE_def layout_defs P2V_def)
  have l: "PGROUNDDOWN (KERNBASE + (EXTMEM - 0) - 1) = KERNLINK - PGSIZE"
    "PGROUNDDOWN (KERNLINK + (V2P ?d - V2P KERNLINK) - 1) = ?d - PGSIZE"
    "PGROUNDDOWN (?d + (PHYSTOP - V2P ?d) - 1) = P2V PHYSTOP - PGSIZE"
    "PGROUNDDOWN (DEVSPACE + (0 - DEVSPACE) - 1) = 0 - PGSIZE"
    using PGROUNDDOWN_minus_1 [OF c(2)] PGROUNDDOWN_minus_1 [OF ki(1)] PGROUNDDOWN_minus_1 [OF c(3)]
      PGROUNDDOWN_minus_1 [of 0] by (simp_all add: KERNLINK_def V2P_def P2V_def add.commute)
  have nz: "KERNLINK \<noteq> 0" "?d \<noteq> 0" "P2V PHYSTOP \<noteq> 0" using ki(2) by (auto simp: layout_defs P2V_def)
  have le: "KERNBASE \<le> KERNLINK - PGSIZE" "KERNLINK \<le> ?d - PGSIZE" "?d \<le> P2V PHYSTOP - PGSIZE"
    using ki c nz by (simp_all add: page_le_minus) (simp add: layout_defs)
  have top: "?q \<le> 0 - PGSIZE" "DEVSPACE \<le> 0 - PGSIZE"
    using page_room [of ?q] by (simp_all add: PGSIZE_def word_le_nat_alt DEVSPACE_def)
  note id = PGROUNDDOWN_id [OF c(1)] PGROUNDDOWN_id [OF c(2)] PGROUNDDOWN_id [OF c(4)] PGROUNDDOWN_id [OF ki(1)]
  show "in_range (PGROUNDDOWN KERNBASE) (PGROUNDDOWN (KERNBASE + (EXTMEM - 0) - 1)) x \<longleftrightarrow> KERNBASE \<le> ?q \<and> ?q < KERNLINK"
    "in_range (PGROUNDDOWN KERNLINK) (PGROUNDDOWN (KERNLINK + (V2P ?d - V2P KERNLINK) - 1)) x
      \<longleftrightarrow> KERNLINK \<le> ?q \<and> ?q < ?d"
    "in_range (PGROUNDDOWN ?d) (PGROUNDDOWN (?d + (PHYSTOP - V2P ?d) - 1)) x \<longleftrightarrow> ?d \<le> ?q \<and> ?q < P2V PHYSTOP"
    "in_range (PGROUNDDOWN DEVSPACE) (PGROUNDDOWN (DEVSPACE + (0 - DEVSPACE) - 1)) x \<longleftrightarrow> DEVSPACE \<le> ?q"
    unfolding l id using le top c nz ki(1)
    by (simp_all only: in_range_iff page_le_minus page_aligned_PGROUNDDOWN simp_thms)
qed

lemma kmap_order:
  assumes "kernel_image s"
  shows "KERNBASE < KERNLINK" "KERNLINK < kdata s" "kdata s < P2V PHYSTOP" "P2V PHYSTOP < DEVSPACE"
  using assms by (simp_all add: kernel_image_def) (simp_all add: layout_defs P2V_def)

lemma kmap_pte_kmap:
  assumes "kernel_image s"
  shows "kmap_pte (kmap s) x = kernel_pte (kdata s) x"
proof -
  let ?d = "kdata s" and ?q = "PGROUNDDOWN x"
  have id: "PGROUNDDOWN KERNBASE = KERNBASE" "PGROUNDDOWN KERNLINK = KERNLINK" "PGROUNDDOWN DEVSPACE = DEVSPACE"
    "PGROUNDDOWN ?d = ?d"
    using assms by (auto intro!: PGROUNDDOWN_id simp: kernel_image_def)
      (simp_all add: page_aligned_def PGSIZE_def layout_defs)
  have pte: "new_pte KERNBASE 0 PTE_W x = V2P ?q OR PTE_W OR PTE_P"
    "new_pte KERNLINK (V2P KERNLINK) 0 x = V2P ?q OR 0 OR PTE_P"
    "new_pte ?d (V2P ?d) PTE_W x = V2P ?q OR PTE_W OR PTE_P"
    "new_pte DEVSPACE DEVSPACE PTE_W x = ?q OR PTE_W OR PTE_P"
    by (simp_all add: new_pte_def V2P_def)
  have k: "kmap_pte (kmap s) x =
      (if KERNBASE \<le> ?q \<and> ?q < KERNLINK then Some (V2P ?q OR PTE_W OR PTE_P)
       else if KERNLINK \<le> ?q \<and> ?q < ?d then Some (V2P ?q OR 0 OR PTE_P)
       else if ?d \<le> ?q \<and> ?q < P2V PHYSTOP then Some (V2P ?q OR PTE_W OR PTE_P)
       else if DEVSPACE \<le> ?q then Some (?q OR PTE_W OR PTE_P) else None)"
    unfolding kmap_def kmap_pte.simps id pte kmap_ranges [OF assms, unfolded id] ..
  show ?thesis
    unfolding k consecutive_ranges [OF kmap_order [OF assms]] kernel_pte_def Let_def
    by (simp split: if_split)
qed

lemma kmap_disjoint_kmap:
  assumes "kernel_image s"
  shows "kmap_disjoint (kmap s)"
  using kmap_order [OF assms]
  unfolding kmap_def kmap_disjoint.simps kmap_pte.simps kmap_ranges [OF assms]
  by (auto split: if_splits)

lemma kernel_pte_low: "x < KERNBASE \<Longrightarrow> kernel_pte d x = None"
proof -
  assume "x < KERNBASE"
  then have "PGROUNDDOWN x < KERNBASE" by (simp add: page_of_lt_KERNBASE)
  moreover from this have "PGROUNDDOWN x < DEVSPACE" by (rule less_trans) (simp add: layout_defs)
  ultimately show ?thesis by (auto simp: kernel_pte_def Let_def not_le)
qed

text \<open>A zeroed page is an empty page directory.\<close>

lemma fresh_pgdir:
  assumes "free_pages s (p # ps)"
    and s1: "s1 = s\<lparr>freelist := load32 (kmem_mem s) p, kmem_mem := stosb (kmem_mem s) p 0 4096\<rparr>"
  shows "wf_space s1 p ps" "held s1 p ps = set (p # ps)" "vmap (kmem_mem s1) p x = None"
    "unchanged_but s s1 (set (p # ps))" "p \<noteq> 0" "kalloc s = (p, s\<lparr>freelist := load32 (kmem_mem s) p\<rparr>)"
    "pt_pages (kmem_mem s1) p = {p}"
proof -
  have u: "usable_page s p" "p \<notin> set ps"
    using ka.frees_usable [OF assms(1)] ka.frees_distinct [OF assms(1)] by auto
  have p: "page_aligned p" using u usable_page_aligned by auto
  show p0: "p \<noteq> 0" using ka.frees_nonzero [OF assms(1)] by auto
  show "kalloc s = (p, s\<lparr>freelist := load32 (kmem_mem s) p\<rparr>)" by (rule kalloc_Cons(1) [OF assms(1)])
  have abs: "\<not> pde_present (kmem_mem s1) p d" if "unat d < 1024" for d
    using that p by (simp add: pde_present_def s1 load32_stosb_page)
  then show pp: "pt_pages (kmem_mem s1) p = {p}" by (auto simp: pt_pages_def)
  show vm: "vmap (kmem_mem s1) p x = None" for x using abs by (simp add: vmap_def)
  have ag: "q \<noteq> p \<Longrightarrow> agree_page q (kmem_mem s) (kmem_mem s1)" for q
    using p by (simp add: s1 agree_page_stosb)
  have "agree_page q (kmem_mem s) (kmem_mem s1)" if "q \<in> set ps" for q using that ag u(2) by metis
  then have fp: "free_pages s1 ps"
    by (intro free_pages_frame [OF kalloc_Cons(2) [OF assms(1)]]) (auto simp: s1)
  have "wf_pgdir (kmem_mem s1) p (set ps)" using p p0 u(2) abs by (simp add: wf_pgdir_def)
  then show "wf_space s1 p ps" using fp u(1) by (simp add: wf_space_def pp vm) (simp add: usable_page_def s1)
  show "held s1 p ps = set (p # ps)" by (auto simp: held_def pp user_frames_def vm)
  show "unchanged_but s s1 (set (p # ps))" using ag by (auto simp: unchanged_but_def) (simp_all add: s1)
qed

lemma setupkvm_spec:
  assumes "free_pages s ps" "kernel_image s"
  obtains d s' ps' where "setupkvm s = Ok (d, s')" "unchanged_but s s' (set ps)" "free_pages s' ps'"
    "d = 0 \<and> set ps' = set ps \<or> d \<noteq> 0 \<and> d \<in> set ps \<and> wf_space s' d ps' \<and> held s' d ps' = set ps
      \<and> (\<forall>x. vmap (kmem_mem s') d x = kernel_pte (kdata s) x)"
proof (cases ps)
  case Nil
  then show ?thesis using assms kalloc_empty [of s] that [of 0 s "[]"]
    by (simp add: setupkvm_def unchanged_but_def)
next
  case (Cons p qs)
  define s1 where "s1 = s\<lparr>freelist := load32 (kmem_mem s) p, kmem_mem := stosb (kmem_mem s) p 0 4096\<rparr>"
  note f = fresh_pgdir [OF assms(1) [unfolded Cons] s1_def]
  have ki: "kernel_image s1" "kdata s1 = kdata s" using assms(2) by (simp_all add: kernel_image_def s1_def)
  then have kp: "kmap_pte (kmap s1) x = kernel_pte (kdata s) x" for x
    using kmap_pte_kmap [of s1] by simp
  have "setup_post p (kmap s1) s1 qs (map_kernel p (kmap s1) s1)"
    using f(1,3) kernel_pte_low by (intro map_kernel_spec kmap_disjoint_kmap ki) (simp_all add: kp)
  moreover have "setupkvm s = map_kernel p (kmap s1) s1"
    using f(5,6) by (simp add: setupkvm_def memset_eq_stosb PGSIZE_def layout_defs P2V_def flip: s1_def)
  moreover have "(case kernel_pte (kdata s) x of Some e \<Rightarrow> Some e | None \<Rightarrow> None) = kernel_pte (kdata s) x" for x
    by (simp split: option.split)
  ultimately obtain d s' ps' where *: "setupkvm s = Ok (d, s')" and
    alt: "d = 0 \<and> free_pages s' ps' \<and> set ps' = set (p # qs) \<or> d = p \<and> wf_space s' p ps' \<and> held s' p ps' = set (p # qs)
      \<and> (\<forall>x. vmap (kmem_mem s') p x = kernel_pte (kdata s) x)"
    and un: "unchanged_but s1 s' (set (p # qs))"
    unfolding setup_post_def f(2,3) kp by auto
  have "unchanged_but s s' (set ps)" using unchanged_but_trans [OF f(4) un order_refl order_refl] Cons by simp
  moreover have "free_pages s' ps'" using alt wf_spaceD(1) by blast
  ultimately show ?thesis using * alt Cons f(5) that by auto
qed

end
