(* ===== verification/Vm_Copy.thy ===== *)
theory Vm_Copy
  imports Vm_Kernel
begin

text \<open>
  Copying an address space for a child (\<^verbatim>\<open>copyuvm\<close>).
\<close>

section \<open>Copying an address space\<close>

definition same_page :: "mem \<Rightarrow> addr \<Rightarrow> mem \<Rightarrow> addr \<Rightarrow> bool" where
  "same_page m' q' m q \<longleftrightarrow> (\<forall>k. unat k < 4096 \<longrightarrow> m' (q' + k) = m (q + k))"

lemma page_aligned_frame [simp]: "page_aligned (frame e)"
  by (simp add: frame_def)

lemma same_page_left:
  "page_aligned q' \<Longrightarrow> agree_page q' m1 m' \<Longrightarrow> same_page m' q' m q \<longleftrightarrow> same_page m1 q' m q"
  by (simp add: same_page_def agree_page_def page_of_add)

lemma same_page_right:
  "page_aligned q \<Longrightarrow> agree_page q m m1 \<Longrightarrow> same_page m' q' m1 q \<longleftrightarrow> same_page m' q' m q"
  by (simp add: same_page_def agree_page_def page_of_add)

lemma memmove_page:
  assumes "page_aligned dst" "unat src + 4096 < 4294967296" "unat dst + 4096 \<le> 4294967296"
  shows "same_page (memmove m dst src PGSIZE) dst m src"
    "q \<noteq> dst \<Longrightarrow> agree_page q m (memmove m dst src PGSIZE)"
proof -
  have eq: "memmove m dst src PGSIZE = (\<lambda>x. if unat (x - dst) < 4096 then m (src + (x - dst)) else m x)"
    using memmove_copies [of src PGSIZE dst m] assms(2,3) by (simp add: PGSIZE_def)
  show "same_page (memmove m dst src PGSIZE) dst m src"
    unfolding eq same_page_def by simp
  show "q \<noteq> dst \<Longrightarrow> agree_page q m (memmove m dst src PGSIZE)"
    unfolding eq agree_page_def using in_page_iff [OF assms(1)] by auto
qed

text \<open>The address space that is copied: mapped below \<open>sz\<close>, and apart from the pages \<open>H\<close>.\<close>

definition parent_ok :: "kmem \<Rightarrow> addr \<Rightarrow> uint \<Rightarrow> addr set \<Rightarrow> bool" where
  "parent_ok s pgdir sz H \<longleftrightarrow> wf_pgdir (kmem_mem s) pgdir {} \<and> pt_pages (kmem_mem s) pgdir \<inter> H = {}
     \<and> (\<forall>x. PGROUNDDOWN x < sz \<longrightarrow>
          (\<exists>e. vmap (kmem_mem s) pgdir x = Some e \<and> usable_page s (frame e) \<and> frame e \<notin> H))"

lemma parent_frame:
  assumes "parent_ok s pgdir sz H" "vmap (kmem_mem s) pgdir x = Some e" "PGROUNDDOWN x < sz"
  shows "usable_page s (frame e)" "frame e \<notin> H"
  using assms unfolding parent_ok_def by (metis option.inject)+

lemma parent_keep:
  assumes "parent_ok s pgdir sz H" "unchanged_but s s' H"
  shows "parent_ok s' pgdir sz H" "vmap (kmem_mem s') pgdir x = vmap (kmem_mem s) pgdir x"
proof -
  have wf: "wf_pgdir (kmem_mem s) pgdir {}" using assms(1) by (simp add: parent_ok_def)
  have ag: "\<forall>p \<in> pt_pages (kmem_mem s) pgdir. agree_page p (kmem_mem s) (kmem_mem s')"
    using assms by (auto simp: parent_ok_def unchanged_but_def)
  note fr = page_table_frame [OF wf_pgdirD(1) [OF wf] ag]
  show "vmap (kmem_mem s') pgdir x = vmap (kmem_mem s) pgdir x" by (rule fr(4))
  have "usable_page s' = usable_page s" using assms(2) usable_page_cong by (auto simp: unchanged_but_def)
  then show "parent_ok s' pgdir sz H" using assms(1) by (simp add: parent_ok_def fr)
qed

definition copied :: "kmem \<Rightarrow> kmem \<Rightarrow> addr \<Rightarrow> addr \<Rightarrow> addr \<Rightarrow> uint \<Rightarrow> bool" where
  "copied s s' pgdir d i sz \<longleftrightarrow>
     (\<forall>x. if i \<le> PGROUNDDOWN x \<and> PGROUNDDOWN x < sz
          then \<exists>e f. vmap (kmem_mem s) pgdir x = Some e \<and> vmap (kmem_mem s') d x = Some f
                \<and> PTE_FLAGS f = PTE_FLAGS e \<and> same_page (kmem_mem s') (frame f) (kmem_mem s) (frame e)
          else vmap (kmem_mem s') d x = vmap (kmem_mem s) d x)"

definition copy_post :: "addr \<Rightarrow> addr \<Rightarrow> addr \<Rightarrow> uint \<Rightarrow> kmem \<Rightarrow> addr list \<Rightarrow> (addr \<times> kmem) res \<Rightarrow> bool" where
  "copy_post d pgdir i sz s ps res \<longleftrightarrow>
     (\<exists>r s' ps'. res = Ok (r, s')
        \<and> (r = 0 \<and> free_pages s' ps' \<and> (set ps' = held s d ps \<or> (\<exists>p \<in> held s d ps. set ps' = held s d ps - {p}))
             \<and> unchanged_but s s' (held s d ps)
           \<or> r = d \<and> wf_space s' d ps' \<and> held s' d ps' = held s d ps \<and> copied s s' pgdir d i sz
             \<and> unchanged_but s s' (set ps \<union> pt_pages (kmem_mem s) d)))"

lemma copy_post_fail:
  "res = Ok (0, s') \<Longrightarrow> free_pages s' ps' \<Longrightarrow> set ps' = held s d ps \<or> (\<exists>p \<in> held s d ps. set ps' = held s d ps - {p})
    \<Longrightarrow> unchanged_but s s' (held s d ps) \<Longrightarrow> copy_post d pgdir i sz s ps res"
  unfolding copy_post_def by (intro exI [of _ 0] exI [of _ s'] exI [of _ ps']) (simp only: simp_thms)

lemma freevm_held:
  assumes "wf_space s pgdir ps"
  obtains s' ps' where "freevm pgdir s = Ok s'" "free_pages s' ps'" "set ps' = held s pgdir ps"
    "unchanged_but s s' (held s pgdir ps)"
proof -
  obtain s' qs where f: "freevm pgdir s = Ok s'" "free_pages s' (qs @ ps)"
    "set qs = pt_pages (kmem_mem s) pgdir \<union> user_frames (kmem_mem s) pgdir" "unchanged_but s s' (set qs)"
    using freevm_spec [OF assms] by (auto simp: unchanged_but_def)
  have h: "set (qs @ ps) = held s pgdir ps" using f(3) by (auto simp: held_def)
  have "unchanged_but s s' (held s pgdir ps)" unfolding h [symmetric] by (rule unchanged_but_mono [OF f(4)]) auto
  then show ?thesis using that f(1,2) h by blast
qed

text \<open>One page copied and mapped: the loop goes on.\<close>

lemma copy_post_step:
  assumes "page_aligned i" "i < i + PGSIZE" "i < sz" "parent_ok s pgdir sz (held s d ps)"
    and e: "vmap (kmem_mem s) pgdir i = Some e"
    and vm: "\<And>x. vmap (kmem_mem s3) d x = (if PGROUNDDOWN x = i then Some f else vmap (kmem_mem s) d x)"
    and fl: "PTE_FLAGS f = PTE_FLAGS e" and same: "same_page (kmem_mem s3) (frame f) (kmem_mem s) (frame e)"
    and new: "frame f \<notin> set ps3 \<union> pt_pages (kmem_mem s3) d"
    and held: "held s3 d ps3 = held s d ps"
    and sub: "set ps3 \<union> pt_pages (kmem_mem s3) d \<subseteq> set ps \<union> pt_pages (kmem_mem s) d"
    and un: "unchanged_but s s3 (set ps \<union> pt_pages (kmem_mem s) d)"
    and rest: "copy_post d pgdir (i + PGSIZE) sz s3 ps3 res"
  shows "copy_post d pgdir i sz s ps res"
proof -
  have unH: "unchanged_but s s3 (held s d ps)" by (rule unchanged_but_mono [OF un]) (auto simp: held_def)
  obtain r s' ps' where *: "res = Ok (r, s')" and
    "r = 0 \<and> free_pages s' ps' \<and> (set ps' = held s d ps \<or> (\<exists>p \<in> held s d ps. set ps' = held s d ps - {p}))
        \<and> unchanged_but s3 s' (held s d ps)
      \<or> r = d \<and> wf_space s' d ps' \<and> held s' d ps' = held s d ps \<and> copied s3 s' pgdir d (i + PGSIZE) sz
        \<and> unchanged_but s3 s' (set ps3 \<union> pt_pages (kmem_mem s3) d)"
    using rest unfolding copy_post_def held by blast
  then consider (bad) "r = 0" "free_pages s' ps'" "unchanged_but s3 s' (held s d ps)"
      "set ps' = held s d ps \<or> (\<exists>p \<in> held s d ps. set ps' = held s d ps - {p})"
    | (good) "r = d" "wf_space s' d ps'" "held s' d ps' = held s d ps" "copied s3 s' pgdir d (i + PGSIZE) sz"
      "unchanged_but s3 s' (set ps3 \<union> pt_pages (kmem_mem s3) d)" by blast
  then show ?thesis
  proof cases
    case bad
    then show ?thesis using * unchanged_but_trans [OF unH bad(3) order_refl order_refl]
      by (intro copy_post_fail) simp_all
  next
    case good
    have keep: "vmap (kmem_mem s3) pgdir x = vmap (kmem_mem s) pgdir x" for x by (rule parent_keep(2) [OF assms(4) unH])
    have pc: "same_page m q (kmem_mem s3) (frame g) \<longleftrightarrow> same_page m q (kmem_mem s) (frame g)"
      if "vmap (kmem_mem s) pgdir x = Some g" "PGROUNDDOWN x < sz" for m q x g
    proof -
      have "frame g \<notin> held s d ps" using that assms(4) by (auto simp: parent_ok_def)
      then show ?thesis using unH by (intro same_page_right) (simp_all add: unchanged_but_def)
    qed
    have fr: "same_page (kmem_mem s') (frame f) (kmem_mem s) (frame e)"
      using same good(5) new same_page_left by (auto simp: unchanged_but_def)
    have "copied s s' pgdir d i sz"
      unfolding copied_def
    proof
      fix x
      note c = good(4) [unfolded copied_def, THEN spec, of x] and nx = next_page_le [OF assms(1) _ assms(2), of "PGROUNDDOWN x"]
      show "if i \<le> PGROUNDDOWN x \<and> PGROUNDDOWN x < sz
          then \<exists>e f. vmap (kmem_mem s) pgdir x = Some e \<and> vmap (kmem_mem s') d x = Some f
                \<and> PTE_FLAGS f = PTE_FLAGS e \<and> same_page (kmem_mem s') (frame f) (kmem_mem s) (frame e)
          else vmap (kmem_mem s') d x = vmap (kmem_mem s) d x"
      proof (cases "PGROUNDDOWN x = i")
        case True
        then have "vmap (kmem_mem s) pgdir x = Some e" using e vmap_page [of "kmem_mem s" pgdir x] by simp
        then show ?thesis using True c assms(2,3) fl fr by (auto simp: vm split: if_splits)
      next
        case False
        then show ?thesis using c nx pc by (auto simp: vm keep split: if_splits)
      qed
    qed
    moreover have "unchanged_but s s' (set ps \<union> pt_pages (kmem_mem s) d)"
      using unchanged_but_trans [OF un good(5) order_refl sub] .
    ultimately show ?thesis using * good(1,2,3) unfolding copy_post_def by blast
  qed
qed

lemma usable_page_room: "usable_page s p \<Longrightarrow> KERNBASE < kend s \<Longrightarrow> unat p + 4096 < 4294967296"
proof -
  assume "usable_page s p" "KERNBASE < kend s"
  then have "unat (p - 2147483648) < 234881024" "2147483648 < unat p"
    by (auto simp: usable_page_def V2P_def layout_defs word_less_nat_alt word_le_nat_alt)
  then show ?thesis by (simp add: unat_sub_if')
qed

lemma copy_page:
  assumes wf: "wf_space s d (p # ps)" and par: "parent_ok s pgdir sz (held s d (p # ps))"
    and e: "vmap (kmem_mem s) pgdir i = Some e" "PGROUNDDOWN i < sz"
  shows "page_aligned p" "same_page (memmove (kmem_mem s) p (frame e) PGSIZE) p (kmem_mem s) (frame e)"
    "\<forall>q. q \<noteq> p \<longrightarrow> agree_page q (kmem_mem s) (memmove (kmem_mem s) p (frame e) PGSIZE)"
proof -
  have u: "usable_page s p" "KERNBASE < kend s"
    using ka.frees_usable [OF wf_spaceD(1) [OF wf], of p] wf_spaceD(1) [OF wf] by (auto simp: free_pages_def)
  show p: "page_aligned p" using u usable_page_aligned by auto
  have room: "unat (frame e) + 4096 < 4294967296" "unat p + 4096 \<le> 4294967296"
    using usable_page_room [OF parent_frame(1) [OF par e] u(2)] usable_page_room [OF u] by simp_all
  show "same_page (memmove (kmem_mem s) p (frame e) PGSIZE) p (kmem_mem s) (frame e)"
    "\<forall>q. q \<noteq> p \<longrightarrow> agree_page q (kmem_mem s) (memmove (kmem_mem s) p (frame e) PGSIZE)"
    using memmove_page [OF p room, where m = "kmem_mem s"] by blast+
qed

lemma copy_page_mapped:
  assumes wf: "wf_space s d (p # ps)" and i: "page_aligned i" "i < sz" "sz \<le> KERNBASE"
    and par: "parent_ok s pgdir sz (held s d (p # ps))"
    and e: "vmap (kmem_mem s) pgdir i = Some e"
    and none: "vmap (kmem_mem s) d i = None"
    and s2: "s2 = s\<lparr>freelist := load32 (kmem_mem s) p, kmem_mem := memmove (kmem_mem s) p (frame e) PGSIZE\<rparr>"
    and st: "pt_step d s2 ps s3 ps3"
    and vm: "\<And>x. vmap (kmem_mem s3) d x =
      (if PGROUNDDOWN x = i then Some (V2P p OR PTE_FLAGS e OR PTE_P) else vmap (kmem_mem s2) d x)"
    and rest: "copy_post d pgdir (i + PGSIZE) sz s3 ps3 res"
  shows "copy_post d pgdir i sz s (p # ps) res"
proof -
  let ?f = "V2P p OR PTE_FLAGS e OR PTE_P"
  have "PGROUNDDOWN i < sz" using i PGROUNDDOWN_id [OF i(1)] by simp
  note c = copy_page [OF wf par e this]
  note p = c(1) and ag = c(3)
  note n = kalloc_new_page [OF wf ag s2] and dd = pt_stepD [OF st]
  have ep: "PTE_FLAGS e OR PTE_P = PTE_FLAGS e" "unat (PTE_FLAGS e) < 4096"
    using vmap_SomeD [OF e] PTE_FLAGS_P unat_PTE_FLAGS by simp_all
  then have f: "frame ?f = p" "PTE_FLAGS ?f = PTE_FLAGS e" using p by (simp_all add: frame_def or.assoc)
  have i_lt: "i < KERNBASE" using i by simp
  then have nxt: "i < i + PGSIZE" by (simp add: word_less_nat_alt PGSIZE_def KERNBASE_def unat_word_ariths)
  have new: "p \<notin> set ps" "p \<notin> pt_pages (kmem_mem s2) d" using n(5) by (auto simp: held_def)
  have "agree_page p (kmem_mem s2) (kmem_mem s3)" using dd(6) new by simp
  moreover have "same_page (kmem_mem s2) p (kmem_mem s) (frame e)" using c(2) by (simp add: s2)
  ultimately have same: "same_page (kmem_mem s3) (frame ?f) (kmem_mem s) (frame e)"
    using same_page_left [OF p] f by simp
  have vm': "vmap (kmem_mem s3) d x = (if PGROUNDDOWN x = i then Some ?f else vmap (kmem_mem s) d x)" for x
    using vm n(7) by simp
  have none2: "vmap (kmem_mem s2) d i = None" using none n(7) by simp
  have h: "held s3 d ps3 = held s d (p # ps)" using held_add [OF st i(1) i_lt none2 vm] n(6) f by simp
  have un: "unchanged_but s s3 (set (p # ps) \<union> pt_pages (kmem_mem s) d)"
    by (rule unchanged_but_trans [OF _ pt_step_unchanged [OF st], of _ "{p}"])
      (use ag n(8) in \<open>auto simp: unchanged_but_def s2\<close>)
  show ?thesis
    using dd(2,5) new n(8) f
    by (intro copy_post_step [OF i(1) nxt i(2) par e vm' f(2) same _ h _ un rest]) auto
qed

lemma copy_loop_spec:
  assumes "wf_space s d ps" "page_aligned i" "sz \<le> KERNBASE" "parent_ok s pgdir sz (held s d ps)"
    and "\<And>x. i \<le> PGROUNDDOWN x \<Longrightarrow> PGROUNDDOWN x < sz \<Longrightarrow> vmap (kmem_mem s) d x = None"
  shows "copy_post d pgdir i sz s ps (copy_loop d pgdir i sz s)"
  using assms
proof (induction d pgdir i sz s arbitrary: ps rule: copy_loop.induct)
  case (1 d pgdir i sz s)
  note IH = 1(1) and wf = 1(2) and al = 1(3) and kb = 1(4) and par = 1(5) and none = 1(6)
  show ?case
  proof (cases "i < sz")
    case False
    then have "\<not> (i \<le> q \<and> q < sz)" for q by auto
    then have "copied s s pgdir d i sz" by (auto simp: copied_def)
    then show ?thesis using wf False
      by (auto simp: copy_loop.simps [of d pgdir i] copy_post_def unchanged_but_def)
  next
    case True
    have i_lt: "i < KERNBASE" using True kb by simp
    have pi: "PGROUNDDOWN i < sz" using True al by (simp add: PGROUNDDOWN_id)
    obtain e where e: "vmap (kmem_mem s) pgdir i = Some e" using par pi unfolding parent_ok_def by blast
    have pwf: "wf_pgdir (kmem_mem s) pgdir {}" using par by (simp add: parent_ok_def)
    note v = vmap_SomeD [OF e]
    have w: "walkpgdir pgdir i False s = (pte_loc (kmem_mem s) pgdir i, s)" "pte_loc (kmem_mem s) pgdir i \<noteq> 0"
      using v pte_loc_nonzero [OF pwf] by (simp_all add: walkpgdir_noalloc)
    show ?thesis
    proof (cases ps)
      case Nil
      then have "kalloc s = (0, s)" using wf kalloc_empty [OF wf_spaceD(1)] by simp
      then have "copy_loop d pgdir i sz s = bind_res (freevm d s) (\<lambda>s'. Ok (0, s'))"
        using True w v by (simp add: copy_loop.simps [of d pgdir i])
      moreover have "copy_post d pgdir i sz s ps (bind_res (freevm d s) (\<lambda>s'. Ok (0, s')))"
        by (rule freevm_held [OF wf]) (auto simp: copy_post_def)
      ultimately show ?thesis by simp
    next
      case (Cons p qs)
      note wf' = wf [unfolded Cons]
      define s2 where "s2 = s\<lparr>freelist := load32 (kmem_mem s) p, kmem_mem := memmove (kmem_mem s) p (frame e) PGSIZE\<rparr>"
      note par' = par [unfolded Cons]
      have ag: "\<forall>q. q \<noteq> p \<longrightarrow> agree_page q (kmem_mem s) (memmove (kmem_mem s) p (frame e) PGSIZE)"
        by (rule copy_page(3) [OF wf' par' e pi])
      note n = kalloc_new_page [OF wf' ag s2_def]
      have na: "vmap (kmem_mem s2) d i = None" using none [of i] True al n(7) by (simp add: PGROUNDDOWN_id)
      have fl: "unat (PTE_FLAGS e) < 4096" by (simp add: unat_PTE_FLAGS)
      obtain r s3 qs3 where mp: "mappages d i PGSIZE (V2P p) (PTE_FLAGS e) s2 = Ok (r, s3)"
        "pt_step d s2 qs s3 qs3" "wf_space s3 d qs3" and
        res: "r = 0 \<and> (\<forall>x. vmap (kmem_mem s3) d x =
            (if PGROUNDDOWN x = i then Some (V2P p OR PTE_FLAGS e OR PTE_P) else vmap (kmem_mem s2) d x))
         \<or> r = -1 \<and> (\<forall>x. vmap (kmem_mem s3) d x = vmap (kmem_mem s2) d x)"
        by (rule map_page_spec [OF n(3) al i_lt n(4,5) fl na])
      have ks: "kalloc s = (p, s\<lparr>freelist := load32 (kmem_mem s) p\<rparr>)" by (rule n(1))
      have h2: "held s2 d qs = held s d (p # qs) - {p}" using n(5,6) by auto
      have un2: "unchanged_but s s3 (held s d (p # qs))"
        by (rule unchanged_but_trans [OF _ pt_step_unchanged [OF mp(2)], of _ "{p}"])
          (use ag n(8) in \<open>auto simp: unchanged_but_def s2_def held_def\<close>)
      from res show ?thesis
      proof (elim disjE conjE)
        assume r: "r = -1" "\<forall>x. vmap (kmem_mem s3) d x = vmap (kmem_mem s2) d x"
        have h3: "held s3 d qs3 = held s d (p # qs) - {p}" using held_keep [OF mp(2)] r(2) h2 by simp
        have "copy_post d pgdir i sz s (p # qs) (bind_res (freevm d s3) (\<lambda>s'. Ok (0, s')))"
        proof (rule freevm_held [OF mp(3)])
          fix s4 ps4 assume f: "freevm d s3 = Ok s4" "free_pages s4 ps4" "set ps4 = held s3 d qs3"
            "unchanged_but s3 s4 (held s3 d qs3)"
          show ?thesis
          proof (rule copy_post_fail [OF _ f(2)])
            show "unchanged_but s s4 (held s d (p # qs))"
              by (rule unchanged_but_trans [OF un2 f(4)]) (auto simp: h3)
            have "p \<in> held s d (p # qs)" "set ps4 = held s d (p # qs) - {p}"
              using f(3) h3 by (simp_all add: held_def)
            then show "set ps4 = held s d (p # qs) \<or> (\<exists>q \<in> held s d (p # qs). set ps4 = held s d (p # qs) - {q})"
              by blast
          qed (simp add: f(1))
        qed
        then show ?thesis
          using True w v ks n(2) mp(1) r(1) Cons by (simp add: copy_loop.simps [of d pgdir i] s2_def frame_def)
      next
        assume r: "r = 0" "\<forall>x. vmap (kmem_mem s3) d x =
            (if PGROUNDDOWN x = i then Some (V2P p OR PTE_FLAGS e OR PTE_P) else vmap (kmem_mem s2) d x)"
        have nxt: "i < i + PGSIZE"
          using i_lt by (simp add: word_less_nat_alt PGSIZE_def KERNBASE_def unat_word_ariths)
        have fr: "frame (V2P p OR PTE_FLAGS e OR PTE_P) = p"
          using copy_page(1) [OF wf' par' e pi] v PTE_FLAGS_P [of e] fl by (simp add: frame_def)
        have h3: "held s3 d qs3 = held s d (p # qs)" using held_add [OF mp(2) al i_lt na] r(2) n(6) fr by simp
        have step: "copy_loop d pgdir i sz s = copy_loop d pgdir (i + PGSIZE) sz s3"
          using True w v ks n(2) mp(1) r(1) not_le [THEN iffD2, OF nxt]
          by (simp add: copy_loop.simps [of d pgdir i] s2_def frame_def)
        have "copy_post d pgdir (i + PGSIZE) sz s3 qs3 (copy_loop d pgdir (i + PGSIZE) sz s3)"
        proof (rule IH [OF True w(1) [symmetric] refl w(2) refl _ ks [symmetric] refl n(2) refl _ refl _ _ mp(3)])
          show "vmap (kmem_mem s3) d x = None" if "i + PGSIZE \<le> PGROUNDDOWN x" "PGROUNDDOWN x < sz" for x
            using that nxt none [of x] r(2) n(7) by auto
          show "parent_ok s3 pgdir sz (held s3 d qs3)" unfolding h3 by (rule parent_keep(1) [OF par' un2])
        qed (use nxt al kb r(1) v mp(1) in \<open>auto simp: s2_def frame_def\<close>)
        then show ?thesis unfolding step Cons
          using r(2) none [of i] True al
          by (intro copy_page_mapped [OF wf' al True kb par' e _ s2_def mp(2)]) (auto simp: PGROUNDDOWN_id)
      qed
    qed
  qed
qed

end
