(* ===== verification/Vm_Props.thy ===== *)
theory Vm_Props
  imports Vm_Copy
begin

text \<open>
  The properties of the page-table code, stated over its definitions.
\<close>

section \<open>Properties\<close>

text \<open>A small machine for the examples: one free page, an empty page directory.\<close>

definition small_kmem :: kmem where
  "small_kmem = \<lparr>kmem_mem = (\<lambda>_. 0), use_lock = True, freelist = 0x80401000,
     kend = 0x80113400, kdata = 0x80109000\<rparr>"

lemma small_kmem_ok:
  "free_pages small_kmem [0x80401000]" "kernel_image small_kmem"
  "wf_space small_kmem 0x80400000 [0x80401000]" "vmap (kmem_mem small_kmem) pgdir x = None"
  "held small_kmem 0x80400000 [0x80401000] = {0x80400000, 0x80401000}"
  "pt_pages (kmem_mem small_kmem) pgdir = {pgdir}"
proof -
  have z: "load32 (\<lambda>_. 0) a = 0" for a by (simp add: load32_def)
  show f: "free_pages small_kmem [0x80401000]"
    by (simp add: small_kmem_def free_pages_def usable_page_def z page_aligned_def PGSIZE_def layout_defs V2P_def)
  show "kernel_image small_kmem"
    by (simp add: small_kmem_def kernel_image_def page_aligned_def PGSIZE_def layout_defs P2V_def)
  have abs: "\<not> pde_present (kmem_mem small_kmem) pgdir d" for pgdir d
    by (simp add: small_kmem_def pde_present_def z)
  then show vm: "vmap (kmem_mem small_kmem) pgdir x = None" for pgdir x by (simp add: vmap_def)
  show pp: "pt_pages (kmem_mem small_kmem) pgdir = {pgdir}" for pgdir by (auto simp: pt_pages_def abs)
  show "wf_space small_kmem 0x80400000 [0x80401000]"
    by (simp add: wf_space_def f vm pp wf_pgdir_def abs)
      (simp add: small_kmem_def usable_page_def page_aligned_def PGSIZE_def layout_defs V2P_def)
  show "held small_kmem 0x80400000 [0x80401000] = {0x80400000, 0x80401000}"
    by (auto simp: held_def pp user_frames_def vm)
qed

lemma copy_postE:
  assumes "copy_post d pgdir i sz s ps res"
  obtains s' ps' where "res = Ok (0, s')" "free_pages s' ps'" "unchanged_but s s' (held s d ps)"
      "set ps' = held s d ps \<or> (\<exists>p \<in> held s d ps. set ps' = held s d ps - {p})"
    | s' ps' where "res = Ok (d, s')" "wf_space s' d ps'" "held s' d ps' = held s d ps" "copied s s' pgdir d i sz"
      "unchanged_but s s' (set ps \<union> pt_pages (kmem_mem s) d)"
  using assms unfolding copy_post_def by metis



text \<open>C7: \<open>freevm\<close> of a well-formed address space returns, and the free list then holds exactly the
  pages it held before, the frames of the user pages, the page tables and the directory, each
  once. No other page changes.\<close>

theorem freevm_frees_all:
  assumes "wf_space s pgdir ps"
  shows "\<exists>s' qs. freevm pgdir s = Ok s' \<and> free_pages s' (qs @ ps) \<and> distinct (qs @ ps)
    \<and> set qs = pt_pages (kmem_mem s) pgdir \<union> user_frames (kmem_mem s) pgdir
    \<and> (\<forall>a. page_of a \<notin> set qs \<longrightarrow> kmem_mem s' a = kmem_mem s a)"
proof -
  obtain s' qs where f: "freevm pgdir s = Ok s'" "free_pages s' (qs @ ps)"
    "set qs = pt_pages (kmem_mem s) pgdir \<union> user_frames (kmem_mem s) pgdir"
    "\<forall>q. q \<notin> set qs \<longrightarrow> agree_page q (kmem_mem s) (kmem_mem s')"
    using freevm_spec [OF assms] by blast
  moreover have "\<forall>a. page_of a \<notin> set qs \<longrightarrow> kmem_mem s' a = kmem_mem s a"
    using f(4) unfolding agree_page_def by blast
  ultimately show ?thesis using ka.frees_distinct [OF f(2)] by blast
qed

theorem freevm_frees_all_witness:
  "\<exists>s' qs. freevm 0x80400000 small_kmem = Ok s' \<and> free_pages s' (qs @ [0x80401000]) \<and> 0x80400000 \<in> set qs"
  using freevm_frees_all [OF small_kmem_ok(3)] by (auto simp: small_kmem_ok)





text \<open>C9: shrinking an address space. \<open>deallocuvm\<close> unmaps exactly the pages from the new size up to the
  old one, puts their frames on the free list, and loses no page.\<close>

theorem deallocuvm_correct:
  assumes "wf_space s pgdir ps" "newsz < oldsz" "oldsz \<le> KERNBASE"
  shows "\<exists>s' us. deallocuvm pgdir oldsz newsz s = Ok (newsz, s') \<and> wf_space s' pgdir (us @ ps)
    \<and> set us = {frame e | x e. PGROUNDUP newsz \<le> PGROUNDDOWN x \<and> PGROUNDDOWN x < oldsz
        \<and> vmap (kmem_mem s) pgdir x = Some e}
    \<and> (\<forall>x. vmap (kmem_mem s') pgdir x =
        (if PGROUNDUP newsz \<le> PGROUNDDOWN x \<and> PGROUNDDOWN x < oldsz then None else vmap (kmem_mem s) pgdir x))
    \<and> held s' pgdir (us @ ps) = held s pgdir ps"
  by (rule deallocuvm_held [OF assms]) (auto simp: shrunk_def range_frames_def)

theorem deallocuvm_correct_witness:
  "\<exists>s' us. deallocuvm 0x80400000 0x3000 0x1000 small_kmem = Ok (0x1000, s')
    \<and> wf_space s' 0x80400000 (us @ [0x80401000]) \<and> us = []"
  using deallocuvm_correct [OF small_kmem_ok(3), of "0x1000" "0x3000"] by (auto simp: small_kmem_ok KERNBASE_def)

text \<open>C11: \<open>mappages\<close> on a well-formed table never loops for ever and never touches memory it does not own.
  It maps exactly the pages of the range, page \<open>x\<close> to \<open>pa\<close> plus its distance from the start, or
  returns -1 with no page free, or panics because a page of the range was mapped before.\<close>

theorem mappages_correct:
  assumes "free_pages s ps" "wf_pgdir (kmem_mem s) pgdir (set ps)"
  shows "case mappages pgdir va sz pa perm s of
      Ok (r, s') \<Rightarrow> (\<exists>ps'. pt_step pgdir s ps s' ps'
        \<and> (r = 0 \<and> (\<forall>x. vmap (kmem_mem s') pgdir x =
             (if in_range (PGROUNDDOWN va) (PGROUNDDOWN (va + sz - 1)) x
              then Some ((pa + (PGROUNDDOWN x - PGROUNDDOWN va)) OR perm OR PTE_P) else vmap (kmem_mem s) pgdir x))
           \<or> r = -1 \<and> ps' = []))
    | Panic msg \<Rightarrow> msg = ''remap'' \<and>
        (\<exists>x. in_range (PGROUNDDOWN va) (PGROUNDDOWN (va + sz - 1)) x \<and> vmap (kmem_mem s) pgdir x \<noteq> None)
    | _ \<Rightarrow> False"
proof -
  have "mappages_post pgdir (PGROUNDDOWN va) (PGROUNDDOWN (va + sz - 1)) pa perm s ps (mappages pgdir va sz pa perm s)"
    unfolding mappages_def by (rule mappages_loop_spec [OF assms]) simp_all
  then show ?thesis
    by (auto simp: mappages_post_def mapped_to_def new_pte_def split: res.splits)
qed

theorem mappages_correct_witness:
  "case mappages 0x80400000 0x5000 0x1000 0x200000 PTE_U small_kmem of
      Ok (r, s') \<Rightarrow> (\<exists>ps'. pt_step 0x80400000 small_kmem [0x80401000] s' ps' \<and> (r = 0 \<or> r = -1 \<and> ps' = []))
    | _ \<Rightarrow> False"
  using mappages_correct [OF small_kmem_ok(1) wf_spaceD(2) [OF small_kmem_ok(3)], of "0x5000" "0x1000" "0x200000" PTE_U]
  by (auto simp: small_kmem_ok split: res.splits)

end
