(* ===== verification/Spinlock.thy ===== *)
theory Spinlock
  imports Memory
begin

text \<open>
  Spin locks and the interrupt flag (spinlock.c, and \<^verbatim>\<open>mycpu\<close>, \<^verbatim>\<open>cpuid\<close>, \<^verbatim>\<open>myproc\<close> of proc.c). The
  machine is the view of the processor that executes: its interrupt flag, its APIC
  id, and the table of processors. A pointer to a processor is its index in the table,
  a pointer to a process its index in the process table. Spinning on a lock that another
  processor holds is \<open>Block\<close>.
\<close>

section \<open>Definitions\<close>

record cpu =
  apicid :: byte
  ncli :: int
  intena :: bool
  cpu_proc :: "nat option"

record mach =
  IF_flag :: bool
  lapicid :: byte
  cpus :: "cpu list"

record spinlock =
  locked :: uint
  lk_name :: string
  lk_cpu :: "nat option"
  pcs :: "uint list"

definition initlock :: "spinlock \<Rightarrow> string \<Rightarrow> spinlock" where
  "initlock lk name = lk\<lparr>lk_name := name, locked := 0, lk_cpu := None\<rparr>"

definition mycpu :: "mach \<Rightarrow> nat res" where
  "mycpu m =
     (if IF_flag m then Panic ''mycpu called with interrupts enabled\<newline>''
      else case find_index (\<lambda>c. apicid c = lapicid m) (cpus m) of
             Some i \<Rightarrow> Ok i
           | None \<Rightarrow> Panic ''unknown apicid\<newline>'')"

definition cpuid :: "mach \<Rightarrow> nat res" where
  "cpuid m = mycpu m"

definition pushcli :: "mach \<Rightarrow> mach res" where
  "pushcli m =
     (let eflags = IF_flag m; m1 = m\<lparr>IF_flag := False\<rparr>
      in bind_res (mycpu m1) (\<lambda>i.
           let c = cpus m1 ! i;
               c1 = (if ncli c = 0 then c\<lparr>intena := eflags\<rparr> else c)
           in Ok (m1\<lparr>cpus := (cpus m1)[i := c1\<lparr>ncli := ncli c1 + 1\<rparr>]\<rparr>)))"

definition popcli :: "mach \<Rightarrow> mach res" where
  "popcli m =
     (if IF_flag m then Panic ''popcli - interruptible''
      else bind_res (mycpu m) (\<lambda>i.
        let c = (cpus m ! i)\<lparr>ncli := ncli (cpus m ! i) - 1\<rparr>;
            m1 = m\<lparr>cpus := (cpus m)[i := c]\<rparr>
        in if ncli c < 0 then Panic ''popcli''
           else if ncli c = 0 \<and> intena c then Ok (m1\<lparr>IF_flag := True\<rparr>) else Ok m1))"

definition myproc :: "mach \<Rightarrow> (nat option \<times> mach) res" where
  "myproc m =
     bind_res (pushcli m) (\<lambda>m1.
     bind_res (mycpu m1) (\<lambda>c.
     let p = cpu_proc (cpus m1 ! c) in bind_res (popcli m1) (\<lambda>m2. Ok (p, m2))))"

definition holding :: "spinlock \<Rightarrow> mach \<Rightarrow> bool res" where
  "holding lk m = (if locked lk = 0 then Ok False else bind_res (mycpu m) (\<lambda>c. Ok (lk_cpu lk = Some c)))"

text \<open>\<^verbatim>\<open>getcallerpcs\<close> follows the saved frame pointers from its argument \<open>v\<close>, at most ten.\<close>

fun follow_ebp :: "mem \<Rightarrow> addr \<Rightarrow> nat \<Rightarrow> uint list" where
  "follow_ebp k ebp 0 = []"
| "follow_ebp k ebp (Suc n) =
     (if ebp = 0 \<or> ebp < KERNBASE \<or> ebp = 0xffffffff then []
      else load32 k (ebp + 4) # follow_ebp k (load32 k ebp) n)"

definition getcallerpcs :: "mem \<Rightarrow> addr \<Rightarrow> uint list" where
  "getcallerpcs k v = (let xs = follow_ebp k (v - 8) 10 in xs @ replicate (10 - length xs) 0)"

text \<open>\<open>k\<close> is kernel memory and \<open>v\<close> the address of the argument of \<^verbatim>\<open>acquire\<close> on the stack.\<close>

definition acquire :: "mem \<Rightarrow> addr \<Rightarrow> spinlock \<Rightarrow> mach \<Rightarrow> (spinlock \<times> mach) res" where
  "acquire k v lk m =
     bind_res (pushcli m) (\<lambda>m1.
     bind_res (holding lk m1) (\<lambda>h.
       if h then Panic ''acquire''
       else if locked lk \<noteq> 0 then Block
       else bind_res (mycpu m1) (\<lambda>c.
         Ok (lk\<lparr>locked := 1, lk_cpu := Some c, pcs := getcallerpcs k v\<rparr>, m1))))"

definition release :: "spinlock \<Rightarrow> mach \<Rightarrow> (spinlock \<times> mach) res" where
  "release lk m =
     bind_res (holding lk m) (\<lambda>h.
       if \<not> h then Panic ''release''
       else bind_res (popcli m) (\<lambda>m1.
         Ok (lk\<lparr>pcs := (pcs lk)[0 := 0], lk_cpu := None, locked := 0\<rparr>, m1)))"

section \<open>The state of a processor\<close>

text \<open>
  \<open>mach_at m i\<close>: processor \<open>i\<close> executes; interrupts are off while it is inside \<^verbatim>\<open>pushcli\<close>.
\<close>

definition mach_at :: "mach \<Rightarrow> nat \<Rightarrow> bool" where
  "mach_at m i \<longleftrightarrow> find_index (\<lambda>c. apicid c = lapicid m) (cpus m) = Some i
     \<and> 0 \<le> ncli (cpus m ! i) \<and> (0 < ncli (cpus m ! i) \<longrightarrow> \<not> IF_flag m)"

lemma mach_at_bound: "mach_at m i \<Longrightarrow> i < length (cpus m)"
  by (auto simp: mach_at_def dest: find_index_SomeD)

lemma find_index_update:
  assumes "find_index P xs = Some i" "P x"
  shows "find_index P (xs[i := x]) = Some i"
  using assms by (auto simp: find_index_Some nth_list_update_if)

lemma mycpu_off: "mach_at m i \<Longrightarrow> mycpu (m\<lparr>IF_flag := False\<rparr>) = Ok i"
  by (simp add: mycpu_def mach_at_def)

lemma pushcli_ok:
  assumes "mach_at m i"
  obtains m' where "pushcli m = Ok m'" "mach_at m' i" "\<not> IF_flag m'" "mycpu m' = Ok i" "lapicid m' = lapicid m"
    "ncli (cpus m' ! i) = ncli (cpus m ! i) + 1"
    "intena (cpus m' ! i) = (if ncli (cpus m ! i) = 0 then IF_flag m else intena (cpus m ! i))"
    "cpu_proc (cpus m' ! i) = cpu_proc (cpus m ! i)"
    "length (cpus m') = length (cpus m)" "\<And>j. j \<noteq> i \<Longrightarrow> cpus m' ! j = cpus m ! j"
proof -
  note b = mach_at_bound [OF assms] and fi = assms [unfolded mach_at_def, THEN conjunct1]
  let ?c = "cpus m ! i"
  let ?c1 = "(if ncli ?c = 0 then ?c\<lparr>intena := IF_flag m\<rparr> else ?c)"
  let ?m = "m\<lparr>IF_flag := False, cpus := (cpus m)[i := ?c1\<lparr>ncli := ncli ?c1 + 1\<rparr>]\<rparr>"
  have fi': "find_index (\<lambda>c. apicid c = lapicid m) ((cpus m)[i := ?c1\<lparr>ncli := ncli ?c1 + 1\<rparr>]) = Some i"
    using fi by (intro find_index_update) (auto dest: find_index_SomeD(2))
  show ?thesis
  proof (rule that [of ?m])
    show "pushcli m = Ok ?m" using mycpu_off [OF assms] by (simp add: pushcli_def Let_def)
    show "mach_at ?m i" using assms fi' b by (simp add: mach_at_def)
    show "mycpu ?m = Ok i" using fi' by (simp add: mycpu_def)
  qed (use b in simp_all)
qed

lemma popcli_ok:
  assumes "mach_at m i" "0 < ncli (cpus m ! i)"
  obtains m' where "popcli m = Ok m'" "mach_at m' i" "lapicid m' = lapicid m"
    "ncli (cpus m' ! i) = ncli (cpus m ! i) - 1" "intena (cpus m' ! i) = intena (cpus m ! i)"
    "cpu_proc (cpus m' ! i) = cpu_proc (cpus m ! i)"
    "IF_flag m' = (ncli (cpus m ! i) = 1 \<and> intena (cpus m ! i))"
    "length (cpus m') = length (cpus m)" "\<And>j. j \<noteq> i \<Longrightarrow> cpus m' ! j = cpus m ! j"
proof -
  note b = mach_at_bound [OF assms(1)] and fi = assms(1) [unfolded mach_at_def, THEN conjunct1]
  have off: "\<not> IF_flag m" using assms by (simp add: mach_at_def)
  let ?c = "(cpus m ! i)\<lparr>ncli := ncli (cpus m ! i) - 1\<rparr>"
  let ?m = "m\<lparr>cpus := (cpus m)[i := ?c], IF_flag := (ncli (cpus m ! i) = 1 \<and> intena (cpus m ! i))\<rparr>"
  have fi': "find_index (\<lambda>c. apicid c = lapicid m) ((cpus m)[i := ?c]) = Some i"
    using fi by (intro find_index_update) (auto dest: find_index_SomeD(2))
  show ?thesis
  proof (rule that [of ?m])
    show "popcli m = Ok ?m"
      using assms fi off by (cases m) (simp add: popcli_def mycpu_def Let_def)
    show "mach_at ?m i" using assms fi' b by (simp add: mach_at_def)
  qed (use b in simp_all)
qed

section \<open>The contract of a lock\<close>

text \<open>
  A lock as its clients see it, on one processor: it is free, or this processor owns it, or
  another one does. \<open>depth\<close> counts the locks this processor holds.
\<close>

locale mutex =
  fixes acq :: "'s \<Rightarrow> 's res"
    and rel :: "'s \<Rightarrow> 's res"
    and free :: "'s \<Rightarrow> bool"
    and owned :: "'s \<Rightarrow> bool"
    and depth :: "'s \<Rightarrow> int"
  assumes acq_free: "free s \<Longrightarrow> \<exists>s'. acq s = Ok s' \<and> owned s' \<and> depth s' = depth s + 1"
    and acq_owned: "owned s \<Longrightarrow> acq s = Panic ''acquire''"
    and rel_owned: "owned s \<Longrightarrow> \<exists>s'. rel s = Ok s' \<and> free s' \<and> depth s' = depth s - 1"
    and rel_free: "free s \<Longrightarrow> rel s = Panic ''release''"
begin

text \<open>A critical section gives the lock back and leaves the nesting depth as it was.\<close>

lemma critical_section:
  assumes "free s" "\<And>s1. owned s1 \<Longrightarrow> \<exists>s2. body s1 = Ok s2 \<and> owned s2 \<and> depth s2 = depth s1"
  shows "\<exists>s'. bind_res (acq s) (\<lambda>s1. bind_res (body s1) rel) = Ok s' \<and> free s' \<and> depth s' = depth s"
proof -
  obtain s1 where s1: "acq s = Ok s1" "owned s1" "depth s1 = depth s + 1" using acq_free [OF assms(1)] by blast
  obtain s2 where s2: "body s1 = Ok s2" "owned s2" "depth s2 = depth s1" using assms(2) [OF s1(2)] by blast
  obtain s3 where "rel s2 = Ok s3" "free s3" "depth s3 = depth s2 - 1" using rel_owned [OF s2(2)] by blast
  then show ?thesis using s1 s2 by auto
qed

lemma no_reentry: "free s \<Longrightarrow> bind_res (acq s) acq = Panic ''acquire''"
  using acq_free [of s] acq_owned by fastforce

lemma no_double_release: "owned s \<Longrightarrow> bind_res (rel s) rel = Panic ''release''"
  using rel_owned [of s] rel_free by fastforce

end

text \<open>The lock states seen from processor \<open>i\<close>.\<close>

definition lock_free :: "nat \<Rightarrow> spinlock \<times> mach \<Rightarrow> bool" where
  "lock_free i s \<longleftrightarrow> mach_at (snd s) i \<and> locked (fst s) = 0"

definition lock_owned :: "nat \<Rightarrow> spinlock \<times> mach \<Rightarrow> bool" where
  "lock_owned i s \<longleftrightarrow> mach_at (snd s) i \<and> locked (fst s) \<noteq> 0 \<and> lk_cpu (fst s) = Some i
     \<and> 0 < ncli (cpus (snd s) ! i)"

definition lock_depth :: "nat \<Rightarrow> spinlock \<times> mach \<Rightarrow> int" where
  "lock_depth i s = ncli (cpus (snd s) ! i)"

lemma mycpu_at: "mach_at m i \<Longrightarrow> 0 < ncli (cpus m ! i) \<Longrightarrow> mycpu m = Ok i"
  by (simp add: mycpu_def mach_at_def)

lemma acquire_free:
  assumes "mach_at m i" "locked lk = 0"
  obtains m' where "acquire k v lk m = Ok (lk\<lparr>locked := 1, lk_cpu := Some i, pcs := getcallerpcs k v\<rparr>, m')"
    "pushcli m = Ok m'" "mach_at m' i" "ncli (cpus m' ! i) = ncli (cpus m ! i) + 1"
    "intena (cpus m' ! i) = (if ncli (cpus m ! i) = 0 then IF_flag m else intena (cpus m ! i))"
proof (rule pushcli_ok [OF assms(1)])
  fix m' assume p: "pushcli m = Ok m'" "mach_at m' i" "mycpu m' = Ok i" "ncli (cpus m' ! i) = ncli (cpus m ! i) + 1"
    "intena (cpus m' ! i) = (if ncli (cpus m ! i) = 0 then IF_flag m else intena (cpus m ! i))"
  show ?thesis by (rule that [OF _ p(1,2,4,5)]) (use p assms(2) in \<open>simp add: acquire_def holding_def\<close>)
qed

lemma acquire_taken:
  assumes "mach_at m i" "locked lk \<noteq> 0"
  shows "acquire k v lk m = (if lk_cpu lk = Some i then Panic ''acquire'' else Block)"
  by (rule pushcli_ok [OF assms(1)]) (use assms(2) in \<open>simp add: acquire_def holding_def\<close>)

lemma release_owned:
  assumes "mach_at m i" "locked lk \<noteq> 0" "lk_cpu lk = Some i" "0 < ncli (cpus m ! i)"
  obtains m' where "release lk m = Ok (lk\<lparr>pcs := (pcs lk)[0 := 0], lk_cpu := None, locked := 0\<rparr>, m')"
    "popcli m = Ok m'" "mach_at m' i" "ncli (cpus m' ! i) = ncli (cpus m ! i) - 1"
    "IF_flag m' = (ncli (cpus m ! i) = 1 \<and> intena (cpus m ! i))"
proof (rule popcli_ok [OF assms(1,4)])
  fix m' assume p: "popcli m = Ok m'" "mach_at m' i" "ncli (cpus m' ! i) = ncli (cpus m ! i) - 1"
    "IF_flag m' = (ncli (cpus m ! i) = 1 \<and> intena (cpus m ! i))"
  show ?thesis
    by (rule that [OF _ p]) (use p(1) assms mycpu_at [OF assms(1,4)] in \<open>simp add: release_def holding_def\<close>)
qed

interpretation spin: mutex "\<lambda>(lk, m). acquire k v lk m" "\<lambda>(lk, m). release lk m" "lock_free i" "lock_owned i" "lock_depth i"
  for k v i
proof unfold_locales
  fix s :: "spinlock \<times> mach"
  obtain lk m where s: "s = (lk, m)" by (cases s)
  show "\<exists>s'. (case s of (lk, m) \<Rightarrow> acquire k v lk m) = Ok s' \<and> lock_owned i s' \<and> lock_depth i s' = lock_depth i s + 1"
    if "lock_free i s"
  proof -
    have f: "mach_at m i" "locked lk = 0" using that by (simp_all add: s lock_free_def)
    show ?thesis
      by (rule acquire_free [OF f, of k v]) (use f in \<open>auto simp: s lock_owned_def lock_depth_def mach_at_def\<close>)
  qed
  show "(case s of (lk, m) \<Rightarrow> acquire k v lk m) = Panic ''acquire''" if "lock_owned i s"
    using that acquire_taken [of m i lk k v] by (simp add: s lock_owned_def)
  show "\<exists>s'. (case s of (lk, m) \<Rightarrow> release lk m) = Ok s' \<and> lock_free i s' \<and> lock_depth i s' = lock_depth i s - 1"
    if "lock_owned i s"
  proof -
    have o: "mach_at m i" "locked lk \<noteq> 0" "lk_cpu lk = Some i" "0 < ncli (cpus m ! i)"
      using that by (simp_all add: s lock_owned_def)
    show ?thesis by (rule release_owned [OF o]) (auto simp: s lock_free_def lock_depth_def)
  qed
  show "(case s of (lk, m) \<Rightarrow> release lk m) = Panic ''release''" if "lock_free i s"
    using that by (simp add: s lock_free_def release_def holding_def)
qed

section \<open>Properties\<close>

text \<open>C19: what \<open>acquire\<close> does in every case. On a free lock it takes the lock for this processor,
  turns interrupts off and remembers whether they were on; on a lock this processor holds it panics; on a lock another
  processor holds it spins.\<close>

theorem acquire_correct:
  assumes "mach_at m i"
  shows "if locked lk = 0
    then \<exists>lk' m'. acquire k v lk m = Ok (lk', m') \<and> locked lk' = 1 \<and> lk_cpu lk' = Some i \<and> \<not> IF_flag m'
      \<and> ncli (cpus m' ! i) = ncli (cpus m ! i) + 1
      \<and> (ncli (cpus m ! i) = 0 \<longrightarrow> intena (cpus m' ! i) = IF_flag m)
    else acquire k v lk m = (if lk_cpu lk = Some i then Panic ''acquire'' else Block)"
proof (cases "locked lk = 0")
  case True
  show ?thesis
    by (rule acquire_free [OF assms True, of k v]) (use True assms in \<open>auto simp: mach_at_def\<close>)
qed (simp add: acquire_taken [OF assms])

definition one_cpu :: mach where
  "one_cpu = \<lparr>IF_flag = True, lapicid = 0, cpus = [\<lparr>apicid = 0, ncli = 0, intena = False, cpu_proc = Some 0\<rparr>]\<rparr>"

definition free_lock :: spinlock where
  "free_lock = \<lparr>locked = 0, lk_name = ''lock'', lk_cpu = None, pcs = replicate 10 0\<rparr>"

lemma one_cpu_at: "mach_at one_cpu 0"
  by (simp add: one_cpu_def mach_at_def)

theorem acquire_correct_witness:
  "\<exists>lk' m'. acquire (\<lambda>_. 0) 0x80200000 free_lock one_cpu = Ok (lk', m') \<and> locked lk' = 1
    \<and> \<not> IF_flag m' \<and> intena (cpus m' ! 0)"
  using acquire_correct [OF one_cpu_at, of free_lock "\<lambda>_. 0" "0x80200000"]
  by (auto simp: free_lock_def one_cpu_def)

lemma acquire_release_cases:
  assumes "mach_at m i" "locked lk = 0"
  shows "\<exists>lk' m'. bind_res (acquire k v lk m) (\<lambda>(lk1, m1). release lk1 m1) = Ok (lk', m')
      \<and> locked lk' = 0 \<and> IF_flag m' = IF_flag m \<and> ncli (cpus m' ! i) = ncli (cpus m ! i)"
    and "bind_res (acquire k v lk m) (\<lambda>(lk1, m1). acquire k v lk1 m1) = Panic ''acquire''"
    and "bind_res (acquire k v lk m) (\<lambda>(lk1, m1). bind_res (release lk1 m1) (\<lambda>(lk2, m2). release lk2 m2))
      = Panic ''release''"
proof -
  have free: "lock_free i (lk, m)" using assms by (simp add: lock_free_def)
  show "bind_res (acquire k v lk m) (\<lambda>(lk1, m1). acquire k v lk1 m1) = Panic ''acquire''"
    using spin.no_reentry [OF free] by simp
  obtain m1 where a: "acquire k v lk m = Ok (lk\<lparr>locked := 1, lk_cpu := Some i, pcs := getcallerpcs k v\<rparr>, m1)"
    "mach_at m1 i" "ncli (cpus m1 ! i) = ncli (cpus m ! i) + 1"
    "intena (cpus m1 ! i) = (if ncli (cpus m ! i) = 0 then IF_flag m else intena (cpus m ! i))"
    by (rule acquire_free [OF assms, of k v])
  let ?lk = "lk\<lparr>locked := 1, lk_cpu := Some i, pcs := getcallerpcs k v\<rparr>"
  have pos: "0 < ncli (cpus m1 ! i)" using a(3) assms(1) by (simp add: mach_at_def)
  obtain m2 where r: "release ?lk m1 = Ok (?lk\<lparr>pcs := (pcs ?lk)[0 := 0], lk_cpu := None, locked := 0\<rparr>, m2)"
    "mach_at m2 i" "ncli (cpus m2 ! i) = ncli (cpus m1 ! i) - 1"
    "IF_flag m2 = (ncli (cpus m1 ! i) = 1 \<and> intena (cpus m1 ! i))"
    by (rule release_owned [of m1 i ?lk]) (use a(2) pos in simp_all)
  have "IF_flag m2 = IF_flag m" using r(4) a(3,4) assms(1) by (auto simp: mach_at_def)
  then show "\<exists>lk' m'. bind_res (acquire k v lk m) (\<lambda>(lk1, m1). release lk1 m1) = Ok (lk', m')
      \<and> locked lk' = 0 \<and> IF_flag m' = IF_flag m \<and> ncli (cpus m' ! i) = ncli (cpus m ! i)"
    using a r by simp
  have "lock_owned i (?lk, m1)" using a(2) pos by (simp add: lock_owned_def)
  from spin.no_double_release [OF this] show "bind_res (acquire k v lk m) (\<lambda>(lk1, m1).
      bind_res (release lk1 m1) (\<lambda>(lk2, m2). release lk2 m2)) = Panic ''release''"
    using a(1) by simp
qed



end
