(* ===== verification/Ptable.thy ===== *)
theory Ptable
  imports Kalloc Spinlock
begin

text \<open>
  The process table and the scheduling operations of proc.c: finding a slot for a new
  process, waking, killing, sleeping, yielding and choosing the next process to run. A pointer
  to a process is its index in the table. The critical section under \<^verbatim>\<open>ptable.lock\<close> is one
  step; \<^verbatim>\<open>sched\<close>, \<^verbatim>\<open>yield\<close> and \<^verbatim>\<open>sleep\<close>, which check or pass on the lock, take it explicitly.
\<close>

section \<open>Data\<close>

definition NPROC :: nat where "NPROC = 64"
definition NOFILE :: nat where "NOFILE = 16"
definition SHMEM_PAGES :: nat where "SHMEM_PAGES = 32"
definition KSTACKSIZE :: uint where "KSTACKSIZE = 4096"

datatype procstate = UNUSED | EMBRYO | SLEEPING | RUNNABLE | RUNNING | ZOMBIE

record proc =
  p_sz :: uint
  p_pgdir :: addr
  p_kstack :: addr
  p_state :: procstate
  p_pid :: int
  p_parent :: "nat option"
  p_tf :: addr
  p_context :: addr
  p_chan :: addr
  p_killed :: bool
  p_ofile :: "nat option list"
  p_cwd :: "nat option"
  p_name :: "byte list"
  p_top :: addr
  phy_shared_page :: "addr list"
  vm_shared_page :: "addr list"
  p_key :: "byte list list"
  p_bitmap :: "byte list"

record ptable =
  pt_lock :: spinlock
  procs :: "proc list"
  nextpid :: int
  initproc :: "nat option"

section \<open>Definitions\<close>

definition pinit :: "ptable \<Rightarrow> ptable" where
  "pinit t = t\<lparr>pt_lock := initlock (pt_lock t) ''ptable''\<rparr>"

definition update_proc :: "nat \<Rightarrow> (proc \<Rightarrow> proc) \<Rightarrow> ptable \<Rightarrow> ptable" where
  "update_proc i f t = t\<lparr>procs := (procs t)[i := f (procs t ! i)]\<rparr>"

text \<open>
  \<^verbatim>\<open>allocproc\<close>: a trap frame has 76 bytes, a context 20, with \<^verbatim>\<open>eip\<close> last. \<open>trapret\<close> and \<open>forkret\<close>
  are the addresses of those routines.
\<close>

definition clear_shared :: "proc \<Rightarrow> proc" where
  "clear_shared p = p\<lparr>phy_shared_page := replicate SHMEM_PAGES 0, vm_shared_page := replicate SHMEM_PAGES 0,
     p_bitmap := replicate SHMEM_PAGES 0, p_key := replicate SHMEM_PAGES (replicate 16 0)\<rparr>"

definition init_kstack :: "addr \<Rightarrow> addr \<Rightarrow> addr \<Rightarrow> mem \<Rightarrow> mem" where
  "init_kstack trapret forkret kstack m =
     (let sp = kstack + KSTACKSIZE - 76 - 4;
          m1 = store32 m sp trapret;
          ctx = sp - 20;
          m2 = memset m1 ctx 0 20
      in store32 m2 (ctx + 16) forkret)"

definition allocproc :: "addr \<Rightarrow> addr \<Rightarrow> ptable \<Rightarrow> kmem \<Rightarrow> nat option \<times> ptable \<times> kmem" where
  "allocproc trapret forkret t s =
     (case find_index (\<lambda>p. p_state p = UNUSED) (procs t) of
        None \<Rightarrow> (None, t, s)
      | Some i \<Rightarrow>
          let t1 = (update_proc i (\<lambda>p. p\<lparr>p_state := EMBRYO, p_pid := nextpid t\<rparr>) t)\<lparr>nextpid := nextpid t + 1\<rparr>;
              (kstack, s1) = kalloc s
          in if kstack = 0
             then (None, update_proc i (\<lambda>p. p\<lparr>p_kstack := 0, p_state := UNUSED\<rparr>) t1, s1)
             else (Some i,
                   update_proc i (\<lambda>p. clear_shared (p\<lparr>p_kstack := kstack, p_tf := kstack + KSTACKSIZE - 76,
                     p_context := kstack + KSTACKSIZE - 76 - 4 - 20\<rparr>)) t1,
                   s1\<lparr>kmem_mem := init_kstack trapret forkret kstack (kmem_mem s1)\<rparr>))"

definition wakeup1 :: "addr \<Rightarrow> proc list \<Rightarrow> proc list" where
  "wakeup1 chan ps =
     map (\<lambda>p. if p_state p = SLEEPING \<and> p_chan p = chan then p\<lparr>p_state := RUNNABLE\<rparr> else p) ps"

definition wakeup :: "addr \<Rightarrow> ptable \<Rightarrow> ptable" where
  "wakeup chan t = t\<lparr>procs := wakeup1 chan (procs t)\<rparr>"

definition kill :: "int \<Rightarrow> ptable \<Rightarrow> int \<times> ptable" where
  "kill pid t =
     (case find_index (\<lambda>p. p_pid p = pid) (procs t) of
        None \<Rightarrow> (-1, t)
      | Some i \<Rightarrow> (0, update_proc i (\<lambda>p. p\<lparr>p_killed := True,
            p_state := (if p_state p = SLEEPING then RUNNABLE else p_state p)\<rparr>) t))"

text \<open>
  The checks of \<^verbatim>\<open>sched\<close> before it switches to the scheduler; on return the saved interrupt
  state is put back.
\<close>

definition sched :: "nat \<Rightarrow> ptable \<Rightarrow> mach \<Rightarrow> unit res" where
  "sched cur t m =
     bind_res (holding (pt_lock t) m) (\<lambda>h.
     if \<not> h then Panic ''sched ptable.lock''
     else bind_res (mycpu m) (\<lambda>c.
       if ncli (cpus m ! c) \<noteq> 1 then Panic ''sched locks''
       else if p_state (procs t ! cur) = RUNNING then Panic ''sched running''
       else if IF_flag m then Panic ''sched interruptible''
       else Ok ()))"

text \<open>\<^verbatim>\<open>yield\<close> and \<^verbatim>\<open>sleep\<close> up to the switch, with \<^verbatim>\<open>ptable.lock\<close> held by this processor.\<close>

definition yield :: "mem \<Rightarrow> addr \<Rightarrow> nat \<Rightarrow> ptable \<Rightarrow> mach \<Rightarrow> (ptable \<times> mach) res" where
  "yield k v cur t m =
     bind_res (acquire k v (pt_lock t) m) (\<lambda>(lk, m1).
     let t1 = update_proc cur (\<lambda>p. p\<lparr>p_state := RUNNABLE\<rparr>) (t\<lparr>pt_lock := lk\<rparr>)
     in bind_res (sched cur t1 m1) (\<lambda>_. Ok (t1, m1)))"

text \<open>The lock given to \<^verbatim>\<open>sleep\<close> is absent (the null pointer), \<^verbatim>\<open>ptable.lock\<close> itself, or another one.\<close>

datatype sleep_lock = NoLock | PtableLock | OtherLock spinlock

definition sleep_swap_locks :: "mem \<Rightarrow> addr \<Rightarrow> sleep_lock \<Rightarrow> ptable \<Rightarrow> mach \<Rightarrow> (sleep_lock \<times> ptable \<times> mach) res" where
  "sleep_swap_locks k v lk t m =
     (case lk of NoLock \<Rightarrow> Panic ''sleep without lk''
      | PtableLock \<Rightarrow> Ok (PtableLock, t, m)
      | OtherLock l \<Rightarrow>
          bind_res (acquire k v (pt_lock t) m) (\<lambda>(pl, m1).
          bind_res (release l m1) (\<lambda>(l1, m2). Ok (OtherLock l1, t\<lparr>pt_lock := pl\<rparr>, m2))))"

definition sleep :: "mem \<Rightarrow> addr \<Rightarrow> nat option \<Rightarrow> addr \<Rightarrow> sleep_lock \<Rightarrow> ptable \<Rightarrow> mach
    \<Rightarrow> (sleep_lock \<times> ptable \<times> mach) res" where
  "sleep k v cur chan lk t m =
     (case cur of None \<Rightarrow> Panic ''sleep''
      | Some i \<Rightarrow> bind_res (sleep_swap_locks k v lk t m) (\<lambda>(lk1, t1, m1).
          let t2 = update_proc i (\<lambda>p. p\<lparr>p_chan := chan, p_state := SLEEPING\<rparr>) t1
          in bind_res (sched i t2 m1) (\<lambda>_. Ok (lk1, t2, m1))))"

text \<open>The rest of \<^verbatim>\<open>sleep\<close>, when the process runs again.\<close>

definition sleep_resume :: "mem \<Rightarrow> addr \<Rightarrow> nat \<Rightarrow> sleep_lock \<Rightarrow> ptable \<Rightarrow> mach \<Rightarrow> (sleep_lock \<times> ptable \<times> mach) res" where
  "sleep_resume k v i lk t m =
     (let t1 = update_proc i (\<lambda>p. p\<lparr>p_chan := 0\<rparr>) t
      in case lk of
           OtherLock l \<Rightarrow>
             bind_res (release (pt_lock t1) m) (\<lambda>(pl, m1).
             bind_res (acquire k v l m1) (\<lambda>(l1, m2). Ok (OtherLock l1, t1\<lparr>pt_lock := pl\<rparr>, m2)))
         | _ \<Rightarrow> Ok (lk, t1, m))"

text \<open>One turn of the loop of \<^verbatim>\<open>scheduler\<close> on processor \<open>c\<close>, for table entry \<open>i\<close>: the process that is
  switched to, if any. When it switches back the processor has no process.\<close>

definition scheduler_turn :: "nat \<Rightarrow> nat \<Rightarrow> ptable \<Rightarrow> mach \<Rightarrow> (ptable \<times> mach) option" where
  "scheduler_turn c i t m =
     (if p_state (procs t ! i) \<noteq> RUNNABLE then None
      else Some (update_proc i (\<lambda>p. p\<lparr>p_state := RUNNING\<rparr>) t,
                 m\<lparr>cpus := (cpus m)[c := (cpus m ! c)\<lparr>cpu_proc := Some i\<rparr>]\<rparr>))"

definition scheduler_back :: "nat \<Rightarrow> mach \<Rightarrow> mach" where
  "scheduler_back c m = m\<lparr>cpus := (cpus m)[c := (cpus m ! c)\<lparr>cpu_proc := None\<rparr>]\<rparr>"

section \<open>Basic facts\<close>

lemma length_procs_update [simp]: "length (procs (update_proc i f t)) = length (procs t)"
  by (simp add: update_proc_def)

lemma procs_update_nth:
  "i < length (procs t) \<Longrightarrow> procs (update_proc i f t) ! j = (if i = j then f (procs t ! i) else procs t ! j)"
  by (simp add: update_proc_def)

lemma update_proc_fields [simp]:
  "nextpid (update_proc i f t) = nextpid t" "initproc (update_proc i f t) = initproc t"
  "pt_lock (update_proc i f t) = pt_lock t"
  by (simp_all add: update_proc_def)

lemma length_wakeup1 [simp]: "length (wakeup1 c ps) = length ps"
  by (simp add: wakeup1_def)

lemma wakeup1_nth:
  "i < length ps \<Longrightarrow> wakeup1 c ps ! i =
     (if p_state (ps ! i) = SLEEPING \<and> p_chan (ps ! i) = c then (ps ! i)\<lparr>p_state := RUNNABLE\<rparr> else ps ! i)"
  by (simp add: wakeup1_def)

section \<open>Scheduling\<close>

text \<open>
  The steps that change who runs: the scheduler of an idle processor switches to a runnable
  process; a running process yields, sleeps or exits and the processor is idle again; a running
  process wakes sleepers, kills, starts a new process or frees a zombie child.
\<close>

inductive sched_step :: "ptable \<times> mach \<Rightarrow> ptable \<times> mach \<Rightarrow> bool" where
  run: "c < length (cpus m) \<Longrightarrow> cpu_proc (cpus m ! c) = None \<Longrightarrow> i < length (procs t) \<Longrightarrow>
    scheduler_turn c i t m = Some (t', m') \<Longrightarrow> sched_step (t, m) (t', m')"
| stop: "c < length (cpus m) \<Longrightarrow> cpu_proc (cpus m ! c) = Some i \<Longrightarrow> st \<in> {RUNNABLE, SLEEPING, ZOMBIE} \<Longrightarrow>
    sched_step (t, m) (update_proc i (\<lambda>p. p\<lparr>p_state := st, p_chan := ch\<rparr>) t, scheduler_back c m)"
| wake: "sched_step (t, m) (wakeup ch t, m)"
| kill: "kill pid t = (r, t') \<Longrightarrow> sched_step (t, m) (t', m)"
| start: "allocproc tr fr t s = (Some i, t', s') \<Longrightarrow>
    sched_step (t, m) (update_proc i (\<lambda>p. p\<lparr>p_state := RUNNABLE\<rparr>) t', m)"
| reap: "i < length (procs t) \<Longrightarrow> p_state (procs t ! i) = ZOMBIE \<Longrightarrow>
    sched_step (t, m) (update_proc i (\<lambda>p. p\<lparr>p_state := UNUSED\<rparr>) t, m)"

inductive_cases sched_stepE: "sched_step (t, m) s'"

text \<open>Every running process is on exactly one processor, and a processor runs only running processes.\<close>

definition runs_on :: "mach \<Rightarrow> nat \<Rightarrow> nat \<Rightarrow> bool" where
  "runs_on m c i \<longleftrightarrow> c < length (cpus m) \<and> cpu_proc (cpus m ! c) = Some i"

definition sched_inv :: "ptable \<times> mach \<Rightarrow> bool" where
  "sched_inv s = (case s of (t, m) \<Rightarrow>
     (\<forall>c i. runs_on m c i \<longrightarrow> i < length (procs t) \<and> p_state (procs t ! i) = RUNNING)
     \<and> (\<forall>c d i. runs_on m c i \<longrightarrow> runs_on m d i \<longrightarrow> c = d)
     \<and> (\<forall>i < length (procs t). p_state (procs t ! i) = RUNNING \<longrightarrow> (\<exists>c. runs_on m c i)))"

text \<open>Steps that keep the processors and neither start nor stop a running process.\<close>

lemma sched_inv_same_mach:
  assumes "sched_inv (t, m)" "length (procs t') = length (procs t)"
    and "\<And>i. i < length (procs t) \<Longrightarrow> p_state (procs t' ! i) = RUNNING \<longleftrightarrow> p_state (procs t ! i) = RUNNING"
  shows "sched_inv (t', m)"
  using assms unfolding sched_inv_def by (simp add: runs_on_def)

lemma kill_running:
  assumes "kill pid t = (r, t')"
  shows "length (procs t') = length (procs t)"
    "i < length (procs t) \<Longrightarrow> p_state (procs t' ! i) = RUNNING \<longleftrightarrow> p_state (procs t ! i) = RUNNING"
proof -
  have "length (procs t') = length (procs t) \<and> (i < length (procs t) \<longrightarrow>
      (p_state (procs t' ! i) = RUNNING \<longleftrightarrow> p_state (procs t ! i) = RUNNING))"
  proof (cases "find_index (\<lambda>p. p_pid p = pid) (procs t)")
    case None
    then show ?thesis using assms by (simp add: kill_def)
  next
    case (Some j)
    then show ?thesis using assms find_index_SomeD(1) [OF Some] by (auto simp: kill_def procs_update_nth split: if_splits)
  qed
  then show "length (procs t') = length (procs t)"
    "i < length (procs t) \<Longrightarrow> p_state (procs t' ! i) = RUNNING \<longleftrightarrow> p_state (procs t ! i) = RUNNING"
    by simp_all
qed

lemma allocproc_running:
  assumes "allocproc tr fr t s = (Some i, t', s')"
  shows "length (procs t') = length (procs t)" "i < length (procs t)" "p_state (procs t ! i) = UNUSED"
    "p_state (procs t' ! i) = EMBRYO" "\<And>j. j \<noteq> i \<Longrightarrow> procs t' ! j = procs t ! j"
proof -
  from assms obtain j where j: "find_index (\<lambda>p. p_state p = UNUSED) (procs t) = Some j"
    by (auto simp: allocproc_def split: option.splits)
  then show "length (procs t') = length (procs t)" "i < length (procs t)" "p_state (procs t ! i) = UNUSED"
    "p_state (procs t' ! i) = EMBRYO" "\<And>j. j \<noteq> i \<Longrightarrow> procs t' ! j = procs t ! j"
    using assms find_index_SomeD [OF j]
    by (auto simp: allocproc_def Let_def update_proc_def clear_shared_def split: prod.splits if_splits)
qed

lemma runs_on_turn:
  assumes "c < length (cpus m)" "cpu_proc (cpus m ! c) = None"
  shows "runs_on (m\<lparr>cpus := (cpus m)[c := (cpus m ! c)\<lparr>cpu_proc := Some i\<rparr>]\<rparr>) d j \<longleftrightarrow>
    (if d = c then j = i else runs_on m d j)"
  using assms by (auto simp: runs_on_def nth_list_update_if)

lemma runs_on_fun: "runs_on m c i \<Longrightarrow> runs_on m c j \<Longrightarrow> i = j"
  by (simp add: runs_on_def)

lemma runs_on_back:
  "c < length (cpus m) \<Longrightarrow> runs_on (scheduler_back c m) d j \<longleftrightarrow> d \<noteq> c \<and> runs_on m d j"
  by (auto simp: runs_on_def scheduler_back_def nth_list_update_if)

lemma sched_step_inv:
  assumes "sched_step s s'" "sched_inv s"
  shows "sched_inv s'"
  using assms
proof (induction rule: sched_step.induct)
  case (run c m i t t' m')
  have none: "\<not> runs_on m d i" for d
    using run by (auto simp: sched_inv_def scheduler_turn_def split: if_splits)
  have m': "m' = m\<lparr>cpus := (cpus m)[c := (cpus m ! c)\<lparr>cpu_proc := Some i\<rparr>]\<rparr>"
    "t' = update_proc i (\<lambda>p. p\<lparr>p_state := RUNNING\<rparr>) t"
    using run by (auto simp: scheduler_turn_def split: if_splits)
  have "\<not> runs_on m c j" for j using run(2) by (simp add: runs_on_def)
  then show ?case
    using run(3,5) none unfolding sched_inv_def m' prod.case runs_on_turn [OF run(1,2)] length_procs_update
    by (auto simp: procs_update_nth) metis
next
  case (stop c m i st t ch)
  have on: "runs_on m c i" using stop by (simp add: runs_on_def)
  then have i: "i < length (procs t)" using stop(4) by (auto simp: sched_inv_def)
  show ?case
    using stop(3,4) on unfolding sched_inv_def prod.case runs_on_back [OF stop(1)] length_procs_update
    by (auto simp: procs_update_nth [OF i]) (metis runs_on_fun)+
next
  case (wake t m ch)
  then show ?case by (intro sched_inv_same_mach [OF wake]) (simp_all add: wakeup_def wakeup1_nth)
next
  case (kill pid t r t' m)
  then show ?case using sched_inv_same_mach kill_running by blast
next
  case (start tr fr t s i t' s' m)
  note a = allocproc_running [OF start(1)]
  show ?case
    using a by (intro sched_inv_same_mach [OF start(2)]) (auto simp: procs_update_nth)
next
  case (reap i t m)
  then show ?case by (intro sched_inv_same_mach [OF reap(3)]) (auto simp: procs_update_nth)
qed

section \<open>Properties\<close>


definition idle_proc :: proc where
  "idle_proc = \<lparr>p_sz = 0, p_pgdir = 0, p_kstack = 0, p_state = UNUSED, p_pid = 0, p_parent = None, p_tf = 0,
     p_context = 0, p_chan = 0, p_killed = False, p_ofile = replicate 16 None, p_cwd = None, p_name = replicate 16 0,
     p_top = 0, phy_shared_page = replicate 32 0, vm_shared_page = replicate 32 0,
     p_key = replicate 32 (replicate 16 0), p_bitmap = replicate 32 0\<rparr>"

lemma idle_proc_fields [simp]: "p_state idle_proc = UNUSED" "p_pid idle_proc = 0" "p_chan idle_proc = 0"
  by (simp_all add: idle_proc_def)

definition small_table :: ptable where
  "small_table = \<lparr>pt_lock = free_lock, procs = [idle_proc\<lparr>p_state := RUNNABLE, p_pid := 1\<rparr>, idle_proc],
     nextpid = 2, initproc = Some 0\<rparr>"

definition idle_cpu :: mach where
  "idle_cpu = one_cpu\<lparr>cpus := [\<lparr>apicid = 0, ncli = 0, intena = False, cpu_proc = None\<rparr>]\<rparr>"


text \<open>C15: no wakeup is lost. A process that went to sleep on a channel is runnable again after the next \<open>wakeup\<close>
  of that channel or after a \<open>kill\<close> of its pid (unique in the table), and \<open>wakeup\<close> changes no process that is
  not sleeping on the channel.\<close>

theorem wakeup_wakes:
  assumes "i < length (procs t)" "p_state (procs t ! i) = SLEEPING"
    and "\<And>j. j < length (procs t) \<Longrightarrow> p_pid (procs t ! j) = p_pid (procs t ! i) \<Longrightarrow> j = i"
  shows "p_state (procs (wakeup (p_chan (procs t ! i)) t) ! i) = RUNNABLE
    \<and> p_state (procs (snd (kill (p_pid (procs t ! i)) t)) ! i) = RUNNABLE
    \<and> (\<forall>c j. j < length (procs t) \<longrightarrow> \<not> (p_state (procs t ! j) = SLEEPING \<and> p_chan (procs t ! j) = c)
         \<longrightarrow> procs (wakeup c t) ! j = procs t ! j)"
proof -
  have "find_index (\<lambda>p. p_pid p = p_pid (procs t ! i)) (procs t) = Some i"
    using assms(1,3) by (auto simp: find_index_Some dest: less_trans)
  then show ?thesis using assms(1,2) by (auto simp: kill_def wakeup_def wakeup1_nth procs_update_nth)
qed

theorem wakeup_wakes_witness:
  "p_state (procs (wakeup 7 (update_proc 0 (\<lambda>p. p\<lparr>p_state := SLEEPING, p_chan := 7\<rparr>) small_table)) ! 0) = RUNNABLE"
proof -
  let ?t = "update_proc 0 (\<lambda>p. p\<lparr>p_state := SLEEPING, p_chan := 7\<rparr>) small_table"
  have t: "procs ?t = [idle_proc\<lparr>p_state := SLEEPING, p_pid := 1, p_chan := 7\<rparr>, idle_proc]"
    by (simp add: small_table_def update_proc_def)
  have "j = 0" if "j < length (procs ?t)" "p_pid (procs ?t ! j) = p_pid (procs ?t ! 0)" for j
    using that unfolding t by (auto simp: less_Suc_eq)
  then show ?thesis using wakeup_wakes [of 0 ?t] by (simp add: t)
qed

end
