(* ===== verification/Semaphore.thy ===== *)
theory Semaphore
  imports Ptable
begin

text \<open>
  Counting semaphores (semaphores.c, semaphores.h) and sleep locks (sleeplock.c). Each routine
  runs inside the structure's own spin lock, so it is one step; a routine that finds the structure
  taken sleeps on its address, which ends the step, and takes a step again when it is
  woken.
\<close>

section \<open>Definitions\<close>

record sem_t =
  sem_lk :: spinlock
  sem_value :: int
  maxval :: int
  isactive :: int
  sem_locked :: int

definition sem_init :: "sem_t \<Rightarrow> int \<Rightarrow> sem_t" where
  "sem_init sem v = sem\<lparr>maxval := v, sem_value := v, isactive := 0, sem_locked := 0,
     sem_lk := initlock (sem_lk sem) ''sem lock''\<rparr>"

text \<open>\<open>ch\<close> is the address of the semaphore, the channel its waiters sleep on.\<close>

definition sem_up :: "addr \<Rightarrow> sem_t \<Rightarrow> ptable \<Rightarrow> sem_t \<times> ptable" where
  "sem_up ch sem t =
     (let s1 = sem\<lparr>sem_value := sem_value sem + 1\<rparr>;
          s2 = (if sem_value s1 = maxval s1 then s1\<lparr>isactive := 0\<rparr> else s1)
      in (s2\<lparr>sem_locked := 0\<rparr>, wakeup ch t))"

text \<open>\<^verbatim>\<open>sem_down\<close>: \<open>None\<close> when the caller goes to sleep. A caller that is woken continues in the loop.\<close>

definition sem_down :: "sem_t \<Rightarrow> sem_t option" where
  "sem_down sem =
     (if sem_locked sem = 0
      then let s1 = (if sem_value sem = 1 then sem\<lparr>sem_locked := 1\<rparr> else sem)
           in Some (s1\<lparr>sem_value := sem_value s1 - 1, isactive := 1\<rparr>)
      else None)"

definition sem_down_woken :: "sem_t \<Rightarrow> sem_t option" where
  "sem_down_woken sem =
     (if sem_locked sem \<noteq> 0 then None
      else let s1 = (if sem_value sem = 1 then sem\<lparr>sem_locked := 1\<rparr> else sem\<lparr>sem_locked := 0\<rparr>)
           in Some (s1\<lparr>sem_value := sem_value s1 - 1, isactive := 1\<rparr>))"

definition isActive :: "sem_t \<Rightarrow> int" where
  "isActive sem = (if isactive sem = 1 then 1 else 0)"

record sleeplock =
  sl_locked :: uint
  sl_lk :: spinlock
  sl_name :: string
  sl_pid :: int

definition initsleeplock :: "sleeplock \<Rightarrow> string \<Rightarrow> sleeplock" where
  "initsleeplock lk nm = lk\<lparr>sl_lk := initlock (sl_lk lk) ''sleep lock'', sl_name := nm, sl_locked := 0, sl_pid := 0\<rparr>"

definition acquiresleep :: "int \<Rightarrow> sleeplock \<Rightarrow> sleeplock option" where
  "acquiresleep mypid lk = (if sl_locked lk \<noteq> 0 then None else Some (lk\<lparr>sl_locked := 1, sl_pid := mypid\<rparr>))"

definition releasesleep :: "addr \<Rightarrow> sleeplock \<Rightarrow> ptable \<Rightarrow> sleeplock \<times> ptable" where
  "releasesleep ch lk t = (lk\<lparr>sl_locked := 0, sl_pid := 0\<rparr>, wakeup ch t)"

definition holdingsleep :: "sleeplock \<Rightarrow> uint" where
  "holdingsleep lk = sl_locked lk"

section \<open>A system of processes sharing a semaphore\<close>

text \<open>
  \<open>inside\<close> counts the processes that have gone down and not yet up, \<open>waiting\<close> those that sleep in
  \<^verbatim>\<open>sem_down\<close>. A sleeper may be woken at any time, since \<^verbatim>\<open>kill\<close> and other uses of the channel
  wake it too.
\<close>

record semsys =
  ss_sem :: sem_t
  inside :: nat
  waiting :: nat

inductive sem_step :: "semsys \<Rightarrow> semsys \<Rightarrow> bool" where
  down: "sem_down (ss_sem s) = Some sem' \<Longrightarrow> sem_step s (s\<lparr>ss_sem := sem', inside := inside s + 1\<rparr>)"
| block: "sem_down (ss_sem s) = None \<Longrightarrow> sem_step s (s\<lparr>waiting := waiting s + 1\<rparr>)"
| woken: "0 < waiting s \<Longrightarrow> sem_down_woken (ss_sem s) = Some sem' \<Longrightarrow>
    sem_step s (s\<lparr>ss_sem := sem', inside := inside s + 1, waiting := waiting s - 1\<rparr>)"
| again: "0 < waiting s \<Longrightarrow> sem_down_woken (ss_sem s) = None \<Longrightarrow> sem_step s s"
| up: "0 < inside s \<Longrightarrow> sem_up ch (ss_sem s) t = (sem', t') \<Longrightarrow>
    sem_step s (s\<lparr>ss_sem := sem', inside := inside s - 1\<rparr>)"

text \<open>What the comments of semaphores.h say of the fields, for a semaphore that starts at \<open>n\<close>.\<close>

definition sem_inv :: "nat \<Rightarrow> semsys \<Rightarrow> bool" where
  "sem_inv n s \<longleftrightarrow> maxval (ss_sem s) = int n \<and> sem_value (ss_sem s) = int n - int (inside s)
     \<and> inside s \<le> n \<and> (sem_locked (ss_sem s) \<noteq> 0 \<longleftrightarrow> sem_value (ss_sem s) = 0)
     \<and> isactive (ss_sem s) = (if sem_value (ss_sem s) = maxval (ss_sem s) then 0 else 1)"

lemma sem_down_woken_eq: "sem_down_woken sem = sem_down sem"
  by (cases sem) (auto simp: sem_down_woken_def sem_down_def)

lemma sem_down_inv:
  "sem_inv n s \<Longrightarrow> sem_down (ss_sem s) = Some sem' \<Longrightarrow> sem_inv n (s\<lparr>ss_sem := sem', inside := inside s + 1, waiting := w\<rparr>)"
  by (auto simp: sem_inv_def sem_down_def Let_def split: if_splits)

lemma sem_step_inv: "sem_step s s' \<Longrightarrow> sem_inv n s \<Longrightarrow> sem_inv n s'"
proof (induction rule: sem_step.induct)
  case (down s sem')
  then show ?case using sem_down_inv [of n s sem' "waiting s"] by simp
next
  case (woken s sem')
  then show ?case using sem_down_inv [of n s sem'] by (simp add: sem_down_woken_eq)
next
  case (up s ch t sem' t')
  then show ?case by (auto simp: sem_inv_def sem_up_def Let_def split: if_splits)
qed (auto simp: sem_inv_def)

section \<open>Properties\<close>

text \<open>C12: a semaphore initialised to \<open>n > 0\<close> never has more than \<open>n\<close> processes inside, whatever the order of downs,
  ups and wakeups, and in every reachable state its fields say what their comments say: \<open>value\<close> is the number of free
  places, \<open>locked\<close> holds exactly when there is none, \<open>isactive\<close> exactly when some process is inside.\<close>

theorem semaphore_invariant:
  assumes "sem_step\<^sup>*\<^sup>* \<lparr>ss_sem = sem_init sem (int n), inside = 0, waiting = 0\<rparr> s" "0 < n"
  shows "inside s \<le> n \<and> sem_value (ss_sem s) = int (n - inside s)
    \<and> (sem_locked (ss_sem s) \<noteq> 0 \<longleftrightarrow> inside s = n) \<and> (isActive (ss_sem s) = 1 \<longleftrightarrow> 0 < inside s)"
proof -
  have "sem_inv n \<lparr>ss_sem = sem_init sem (int n), inside = 0, waiting = 0\<rparr>"
    using assms(2) by (simp add: sem_inv_def sem_init_def)
  with assms(1) have "sem_inv n s"
    by (induction rule: rtranclp_induct) (auto intro: sem_step_inv)
  then show ?thesis by (auto simp: sem_inv_def isActive_def of_nat_diff)
qed

definition some_sem :: sem_t where
  "some_sem = \<lparr>sem_lk = free_lock, sem_value = 0, maxval = 0, isactive = 0, sem_locked = 0\<rparr>"

theorem semaphore_invariant_witness:
  "let s = \<lparr>ss_sem = the (sem_down (sem_init some_sem 1)), inside = 1, waiting = 0\<rparr>
   in inside s \<le> 1 \<and> sem_value (ss_sem s) = 0 \<and> sem_locked (ss_sem s) \<noteq> 0"
proof -
  let ?s0 = "\<lparr>ss_sem = sem_init some_sem (int 1), inside = 0, waiting = 0\<rparr>"
  let ?s1 = "\<lparr>ss_sem = the (sem_down (sem_init some_sem 1)), inside = 1, waiting = 0\<rparr>"
  have "sem_down (ss_sem ?s0) = Some (the (sem_down (sem_init some_sem 1)))"
    by (simp add: sem_down_def sem_init_def)
  from sem_step.down [OF this] have "sem_step\<^sup>*\<^sup>* ?s0 ?s1" by auto
  from semaphore_invariant [OF this] show ?thesis by simp
qed




end
