(* ===== verification/Shm.thy ===== *)
theory Shm
  imports Vm_Props Ptable
begin

text \<open>
  Pages shared between processes under a key (shm.c). A table of 32 slots holds the kernel
  address of each shared page, the number of processes using it and its 16-byte key; a process
  records its own shared pages in 32 slots of its process structure and maps slot \<open>i\<close> at
  \<^verbatim>\<open>KERNBASE - (i+1)*PGSIZE\<close>. The spin lock of the table and the processor are part of the state, since one
  path leaves the routine with the lock held. The code of \<^verbatim>\<open>walkpgdir\<close> and
  \<^verbatim>\<open>mappages\<close> is repeated in shm.c word for word; the definitions of theory \<^verbatim>\<open>Vm\<close> serve for both.

  A key is given by the bytes from the pointer on. The string literal \<^verbatim>\<open>"-1"\<close> that \<^verbatim>\<open>shmrem\<close> compares 16 bytes with
  has only three; \<open>lit\<close> are the bytes the linker has placed there.
\<close>

section \<open>Definitions\<close>

record shm_info =
  shmem_addr :: addr
  shmem_counter :: int

record shm_table =
  sh_lock :: spinlock
  shp_array :: "shm_info list"
  shp_key :: "byte list list"

record shm_state =
  shk :: kmem
  sh_table :: shm_table
  sh_mach :: mach
  cur :: proc

text \<open>The bytes of a system call's caller that \<^verbatim>\<open>acquire\<close> records: stack memory and argument address.\<close>

type_synonym stack = "mem \<times> addr"

definition sh_acquire :: "stack \<Rightarrow> shm_state \<Rightarrow> shm_state res" where
  "sh_acquire kv s =
     bind_res (acquire (fst kv) (snd kv) (sh_lock (sh_table s)) (sh_mach s)) (\<lambda>(lk, m).
       Ok (s\<lparr>sh_table := (sh_table s)\<lparr>sh_lock := lk\<rparr>, sh_mach := m\<rparr>))"

definition sh_release :: "shm_state \<Rightarrow> shm_state res" where
  "sh_release s =
     bind_res (release (sh_lock (sh_table s)) (sh_mach s)) (\<lambda>(lk, m).
       Ok (s\<lparr>sh_table := (sh_table s)\<lparr>sh_lock := lk\<rparr>, sh_mach := m\<rparr>))"

definition empty_info :: shm_info where
  "empty_info = \<lparr>shmem_addr = 0, shmem_counter = 0\<rparr>"

definition shmeminit :: "stack \<Rightarrow> shm_state \<Rightarrow> shm_state res" where
  "shmeminit kv s =
     bind_res (sh_acquire kv (s\<lparr>sh_table := (sh_table s)\<lparr>sh_lock := initlock (sh_lock (sh_table s)) ''SHMEM''\<rparr>\<rparr>)) (\<lambda>s1.
     sh_release (s1\<lparr>sh_table := (sh_table s1)\<lparr>shp_array := replicate SHMEM_PAGES empty_info,
       shp_key := replicate SHMEM_PAGES (replicate 16 0)\<rparr>\<rparr>))"

text \<open>The loop over the key table: the slot with the key, and the first free slot before it.\<close>

fun shm_scan :: "byte list list \<Rightarrow> byte list \<Rightarrow> nat \<Rightarrow> nat option \<Rightarrow> (nat option \<times> nat option) res" where
  "shm_scan [] key i ff = Ok (None, ff)"
| "shm_scan (k # ks) key i ff =
     (if hd k = 0 \<and> ff = None then shm_scan ks key (Suc i) (Some i)
      else case strncmp k key 16 of
             None \<Rightarrow> Fault
           | Some r \<Rightarrow> if r = 0 then Ok (Some i, ff) else shm_scan ks key (Suc i) ff)"

text \<open>The first entry of a key array that equals the key.\<close>

fun key_index :: "byte list list \<Rightarrow> byte list \<Rightarrow> nat \<Rightarrow> nat option res" where
  "key_index [] key i = Ok None"
| "key_index (k # ks) key i =
     (case strncmp k key 16 of
        None \<Rightarrow> Fault
      | Some r \<Rightarrow> if r = 0 then Ok (Some i) else key_index ks key (Suc i))"

definition find_pos :: "proc \<Rightarrow> int" where
  "find_pos p = (case find_index (\<lambda>a. a = 0) (phy_shared_page p) of Some i \<Rightarrow> int i | None \<Rightarrow> -1)"

text \<open>\<^verbatim>\<open>memmove\<close> into entry \<open>i\<close> of a key array: bytes past the entry go to the next ones.\<close>

function put_key :: "byte list list \<Rightarrow> nat \<Rightarrow> byte list \<Rightarrow> byte list list option" where
  "put_key ks i bs =
     (if bs = [] then Some ks
      else if i \<ge> length ks then None
      else put_key (ks[i := take 16 bs @ drop (length bs) (ks ! i)]) (Suc i) (drop 16 bs))"
  by pat_completeness auto
termination by (relation "measure (\<lambda>(ks, i, bs). length bs)") auto

declare put_key.simps [simp del]

definition key_bytes :: "byte list \<Rightarrow> byte list res" where
  "key_bytes key = (case strlen key of None \<Rightarrow> Fault | Some n \<Rightarrow> Ok (take n key))"

definition put_key_res :: "byte list list \<Rightarrow> int \<Rightarrow> byte list \<Rightarrow> byte list list res" where
  "put_key_res ks i bs =
     (if i < 0 then Fault else case put_key ks (nat i) bs of None \<Rightarrow> Fault | Some ks' \<Rightarrow> Ok ks')"

text \<open>
  Map the page at kernel address \<open>a\<close> at the process's next free slot: \<^verbatim>\<open>find_pos\<close>, \<^verbatim>\<open>top\<close> and
  \<^verbatim>\<open>mappages\<close>; and the entries of the process structure that record it. \<^verbatim>\<open>find_pos\<close> gives -1 when all slots are used.
\<close>

definition map_shared :: "addr \<Rightarrow> shm_state \<Rightarrow> (int \<times> shm_state) res" where
  "map_shared a s =
     (let pos = find_pos (cur s);
          vtop = KERNBASE - PGSIZE * word_of_int (pos + 1);
          s1 = s\<lparr>cur := (cur s)\<lparr>p_top := vtop\<rparr>\<rparr>
      in bind_res (mappages (p_pgdir (cur s1)) vtop PGSIZE (V2P a) (PTE_W OR PTE_U) (shk s1)) (\<lambda>(r, k).
           if r < 0 then Panic ''Failed to map page.\<newline>'' else Ok (pos, s1\<lparr>shk := k\<rparr>)))"

definition record_shared :: "int \<Rightarrow> addr \<Rightarrow> byte list \<Rightarrow> proc \<Rightarrow> proc res" where
  "record_shared pos a key p =
     (if pos < 0 \<or> int SHMEM_PAGES \<le> pos then Fault
      else bind_res (key_bytes key) (\<lambda>bs.
           bind_res (put_key_res (p_key p) pos bs) (\<lambda>ks.
             Ok (p\<lparr>p_bitmap := (p_bitmap p)[nat pos := 1], phy_shared_page := (phy_shared_page p)[nat pos := a],
                   vm_shared_page := (vm_shared_page p)[nat pos := p_top p], p_key := ks\<rparr>))))"

text \<open>\<^verbatim>\<open>shmget\<close> returns an address, or calls \<^verbatim>\<open>exit\<close>.\<close>

datatype shm_ret = Ret addr | Exit

definition shmget_existing :: "nat \<Rightarrow> byte list \<Rightarrow> shm_state \<Rightarrow> (shm_ret \<times> shm_state) res" where
  "shmget_existing i key s =
     bind_res (key_index (p_key (cur s)) key 0) (\<lambda>y.
     case y of
       Some y \<Rightarrow> bind_res (sh_release s) (\<lambda>s1. Ok (Ret (vm_shared_page (cur s1) ! y), s1))
     | None \<Rightarrow>
         let info = shp_array (sh_table s) ! i
         in if shmem_counter info < 16
            then bind_res (map_shared (shmem_addr info) s) (\<lambda>(pos, s1).
                 let tab = (sh_table s1)\<lparr>shp_array := (shp_array (sh_table s1))[i :=
                       info\<lparr>shmem_counter := shmem_counter info + 1\<rparr>]\<rparr>
                 in bind_res (record_shared pos (shmem_addr info) key (cur s1)) (\<lambda>p.
                    bind_res (sh_release (s1\<lparr>sh_table := tab, cur := p\<rparr>)) (\<lambda>s2. Ok (Ret (p_top p), s2))))
            else bind_res (sh_release s) (\<lambda>_. Panic ''Max processes.\<newline>''))"

definition shmget_new :: "nat option \<Rightarrow> byte list \<Rightarrow> shm_state \<Rightarrow> (shm_ret \<times> shm_state) res" where
  "shmget_new ff key s =
     (case ff of
        None \<Rightarrow> Ok (Exit, s)
      | Some f \<Rightarrow>
          let (a, k1) = kalloc (shk s)
          in if a = 0 then Panic ''Failed to allocate.\<newline>''
             else let info = (shp_array (sh_table s) ! f)\<lparr>shmem_addr := a\<rparr>;
                      tab1 = (sh_table s)\<lparr>shp_array := (shp_array (sh_table s))[f := info]\<rparr>
                  in bind_res (map_shared a (s\<lparr>sh_table := tab1, shk := k1\<lparr>kmem_mem := memset (kmem_mem k1) a 0 PGSIZE\<rparr>\<rparr>)) (\<lambda>(pos, s1).
                     bind_res (key_bytes key) (\<lambda>bs.
                     bind_res (put_key_res (shp_key (sh_table s1)) (int f) bs) (\<lambda>ks.
                     let tab2 = (sh_table s1)\<lparr>shp_key := ks,
                           shp_array := (shp_array (sh_table s1))[f := info\<lparr>shmem_counter := shmem_counter info + 1\<rparr>]\<rparr>
                     in bind_res (record_shared pos a key (cur s1)) (\<lambda>p.
                        bind_res (sh_release (s1\<lparr>sh_table := tab2, cur := p\<rparr>)) (\<lambda>s2. Ok (Ret (p_top p), s2)))))))"

definition shmget :: "stack \<Rightarrow> byte list \<Rightarrow> shm_state \<Rightarrow> (shm_ret \<times> shm_state) res" where
  "shmget kv key s =
     bind_res (sh_acquire kv s) (\<lambda>s1.
     bind_res (shm_scan (shp_key (sh_table s1)) key 0 None) (\<lambda>(found, ff).
       case found of Some i \<Rightarrow> shmget_existing i key s1 | None \<Rightarrow> shmget_new ff key s1))"

text \<open>\<^verbatim>\<open>*temp = 0\<close> on the entry of a page; a null pointer if there is no table for it.\<close>

definition clear_pte :: "addr \<Rightarrow> shm_state \<Rightarrow> shm_state res" where
  "clear_pte va s =
     (let (pte, k) = walkpgdir (p_pgdir (cur s)) va False (shk s)
      in if pte = 0 then Fault else Ok (s\<lparr>shk := k\<lparr>kmem_mem := store32 (kmem_mem k) pte 0\<rparr>\<rparr>))"

definition set_info :: "nat \<Rightarrow> shm_info \<Rightarrow> shm_state \<Rightarrow> shm_state" where
  "set_info y info s = s\<lparr>sh_table := (sh_table s)\<lparr>shp_array := (shp_array (sh_table s))[y := info]\<rparr>\<rparr>"

definition set_phy :: "nat \<Rightarrow> addr \<Rightarrow> shm_state \<Rightarrow> shm_state" where
  "set_phy i a s = s\<lparr>cur := (cur s)\<lparr>phy_shared_page := (phy_shared_page (cur s))[i := a]\<rparr>\<rparr>"

text \<open>The last user of a page frees it and its slot.\<close>

definition free_slot :: "nat \<Rightarrow> shm_state \<Rightarrow> shm_state res" where
  "free_slot y s =
     bind_res (kfree (shmem_addr (shp_array (sh_table s) ! y)) (shk s)) (\<lambda>k.
       Ok (set_info y empty_info (s\<lparr>shk := k,
         sh_table := (sh_table s)\<lparr>shp_key := (shp_key (sh_table s))[y := replicate 16 0]\<rparr>\<rparr>)))"

text \<open>The call from \<^verbatim>\<open>exit\<close>: for page slot \<open>i\<close> of the process, table slots \<open>ys\<close> in turn.\<close>

fun exit_slots :: "nat \<Rightarrow> nat list \<Rightarrow> shm_state \<Rightarrow> shm_state res" where
  "exit_slots i [] s = Ok s"
| "exit_slots i (y # ys) s =
     (let info = shp_array (sh_table s) ! y
      in bind_res
           (if phy_shared_page (cur s) ! i \<noteq> shmem_addr info then Ok s
            else if shmem_counter info = 1
            then bind_res (free_slot y s) (\<lambda>s1. clear_pte (vm_shared_page (cur s1) ! i) (set_phy i 0 s1))
            else if shmem_counter info > 1
            then clear_pte (vm_shared_page (cur s) ! i)
                   (set_phy i 0 (set_info y (info\<lparr>shmem_counter := shmem_counter info - 1\<rparr>) s))
            else if shmem_counter info < 0
            then bind_res (sh_release s) (\<lambda>_. Panic ''ERROR negative counter %d\<newline>'')
            else Ok s)
           (exit_slots i ys))"

fun exit_pages :: "nat list \<Rightarrow> shm_state \<Rightarrow> shm_state res" where
  "exit_pages [] s = Ok s"
| "exit_pages (i # is) s =
     (if p_bitmap (cur s) ! i = 1
      then bind_res (exit_slots i [0..<SHMEM_PAGES] s) (exit_pages is)
      else exit_pages is s)"

text \<open>The call from a process: the table slots that have the key, until the process has it too.\<close>

definition rem_slot :: "nat \<Rightarrow> nat \<Rightarrow> shm_state \<Rightarrow> (int \<times> shm_state) res" where
  "rem_slot i y s =
     (let info = shp_array (sh_table s) ! i
      in if shmem_counter info = 1
         then bind_res (free_slot i s) (\<lambda>s1.
              bind_res (clear_pte (vm_shared_page (cur s1) ! y) s1) (\<lambda>s2.
              let s3 = set_phy y 0 (s2\<lparr>cur := (cur s2)\<lparr>vm_shared_page := (vm_shared_page (cur s2))[y := 0]\<rparr>\<rparr>)
              in bind_res (sh_release s3) (\<lambda>s4. Ok (0, s4))))
         else let s1 = set_phy y 0 (set_info i (info\<lparr>shmem_counter := shmem_counter info - 1\<rparr>) s)
              in bind_res (clear_pte (vm_shared_page (cur s1) ! y) s1) (\<lambda>s2.
                 let p = (cur s2)\<lparr>vm_shared_page := (vm_shared_page (cur s2))[y := 0],
                       p_key := (p_key (cur s2))[y := replicate 16 0]\<rparr>
                 in bind_res (sh_release (s2\<lparr>cur := p\<rparr>)) (\<lambda>s4. Ok (1, s4))))"

fun rem_key :: "byte list \<Rightarrow> nat list \<Rightarrow> shm_state \<Rightarrow> (int \<times> shm_state) res" where
  "rem_key key [] s = bind_res (sh_release s) (\<lambda>s1. Ok (-1, s1))"
| "rem_key key (i # is) s =
     (case strncmp (shp_key (sh_table s) ! i) key 16 of
        None \<Rightarrow> Fault
      | Some r \<Rightarrow>
          if r = 0
          then bind_res (key_index (p_key (cur s)) key 0) (\<lambda>y.
               case y of Some y \<Rightarrow> rem_slot i y s | None \<Rightarrow> rem_key key is s)
          else rem_key key is s)"

definition shmrem :: "byte list \<Rightarrow> stack \<Rightarrow> byte list \<Rightarrow> shm_state \<Rightarrow> (int \<times> shm_state) res" where
  "shmrem lit kv key s =
     bind_res (sh_acquire kv s) (\<lambda>s1.
     case memcmp key lit 16 of
       None \<Rightarrow> Fault
     | Some r \<Rightarrow>
         if r = 0
         then bind_res (exit_pages [0..<SHMEM_PAGES] s1) (\<lambda>s2. bind_res (sh_release s2) (\<lambda>s3. Ok (1, s3)))
         else rem_key key [0..<SHMEM_PAGES] s1)"

text \<open>
  \<^verbatim>\<open>manage_fork\<close> gives the child \<open>c\<close> the shared pages of the parent \<open>p\<close>. It takes no lock. The boolean says that it
  called \<^verbatim>\<open>exit\<close> half-way because a page has 16 users.
\<close>

fun count_child :: "addr \<Rightarrow> nat list \<Rightarrow> shm_info list \<Rightarrow> bool \<times> shm_info list" where
  "count_child a [] arr = (False, arr)"
| "count_child a (y # ys) arr =
     (if shmem_addr (arr ! y) = a
      then if shmem_counter (arr ! y) = 16 then (True, arr)
           else (False, arr[y := (arr ! y)\<lparr>shmem_counter := shmem_counter (arr ! y) + 1\<rparr>])
      else count_child a ys arr)"

fun manage_fork :: "nat list \<Rightarrow> proc \<Rightarrow> proc \<Rightarrow> shm_info list \<Rightarrow> kmem \<Rightarrow> (bool \<times> proc \<times> shm_info list \<times> kmem) res" where
  "manage_fork [] p c arr k = Ok (False, c, arr, k)"
| "manage_fork (i # is) p c arr k =
     (if p_bitmap p ! i = 1 \<and> p_bitmap p ! i \<noteq> p_bitmap c ! i
      then bind_res (mappages (p_pgdir c) (KERNBASE - (word_of_nat i + 1) * PGSIZE) PGSIZE
                       (V2P (phy_shared_page p ! i)) (PTE_W OR PTE_U) k) (\<lambda>(r, k1).
           if r < 0 then Panic ''Manage Fork\<newline>''
           else let c1 = c\<lparr>phy_shared_page := (phy_shared_page c)[i := phy_shared_page p ! i],
                      vm_shared_page := (vm_shared_page c)[i := vm_shared_page p ! i],
                      p_key := (p_key c)[i := take 16 (p_key p ! i)], p_bitmap := (p_bitmap c)[i := 1]\<rparr>;
                    (ex, arr1) = count_child (phy_shared_page c1 ! i) [0..<SHMEM_PAGES] arr
                in if ex then Ok (True, c1, arr1, k1) else manage_fork is p c1 arr1 k1)
      else manage_fork is p c arr k)"

section \<open>Reference counts\<close>

text \<open>How often the processes \<open>ps\<close> use the page \<open>a\<close>.\<close>

definition users :: "addr \<Rightarrow> proc list \<Rightarrow> nat" where
  "users a ps = sum_list (map (\<lambda>p. count_list (phy_shared_page p) a) ps)"

text \<open>
  The table counts users: an empty slot counts none, a slot with a page counts its users, of which there
  is one at least, no page has two slots, and a process uses pages of the table only.
\<close>

definition refs_ok :: "shm_info list \<Rightarrow> proc list \<Rightarrow> bool" where
  "refs_ok arr ps \<longleftrightarrow> length arr = SHMEM_PAGES
     \<and> (\<forall>y < length arr. if shmem_addr (arr ! y) = 0 then shmem_counter (arr ! y) = 0
          else shmem_counter (arr ! y) = int (users (shmem_addr (arr ! y)) ps) \<and> 0 < shmem_counter (arr ! y))
     \<and> (\<forall>y z. y < length arr \<longrightarrow> z < length arr \<longrightarrow> shmem_addr (arr ! y) \<noteq> 0 \<longrightarrow>
          shmem_addr (arr ! y) = shmem_addr (arr ! z) \<longrightarrow> y = z)
     \<and> (\<forall>a. a \<noteq> 0 \<longrightarrow> users a ps \<noteq> 0 \<longrightarrow> (\<exists>y < length arr. shmem_addr (arr ! y) = a))"

lemma users_Cons [simp]: "users a (p # ps) = count_list (phy_shared_page p) a + users a ps"
  by (simp add: users_def)

lemma count_list_update:
  assumes "i < length xs"
  shows "count_list (xs[i := v]) a + (if xs ! i = a then 1 else 0) = count_list xs a + (if v = a then 1 else 0)"
  using assms
proof (induction xs arbitrary: i)
  case (Cons x xs)
  show ?case
  proof (cases i)
    case (Suc j)
    then show ?thesis using Cons.IH [of j] Cons.prems by (simp split: if_splits)
  qed auto
qed simp

text \<open>A change of one slot \<open>y\<close> of the table, to page \<open>a\<close>, and of one user of \<open>a\<close> at a time.\<close>

lemma refs_ok_change:
  assumes "refs_ok arr ps" "y < SHMEM_PAGES" "a \<noteq> 0" "a = shmem_addr (arr ! y) \<or> shmem_addr (arr ! y) = 0"
    and other: "\<And>b. b \<noteq> 0 \<Longrightarrow> b \<noteq> a \<Longrightarrow> users b ps' = users b ps"
    and fresh: "\<And>z. z < SHMEM_PAGES \<Longrightarrow> z \<noteq> y \<Longrightarrow> shmem_addr (arr ! z) \<noteq> a"
    and info: "if users a ps' = 0 then info = empty_info
      else shmem_addr info = a \<and> shmem_counter info = int (users a ps')"
  shows "refs_ok (arr[y := info]) ps'"
proof -
  have len: "length arr = SHMEM_PAGES" and
    cnt: "\<And>z. z < SHMEM_PAGES \<Longrightarrow> if shmem_addr (arr ! z) = 0 then shmem_counter (arr ! z) = 0
          else shmem_counter (arr ! z) = int (users (shmem_addr (arr ! z)) ps) \<and> 0 < shmem_counter (arr ! z)" and
    inj: "\<And>x z. x < SHMEM_PAGES \<Longrightarrow> z < SHMEM_PAGES \<Longrightarrow> shmem_addr (arr ! x) \<noteq> 0 \<Longrightarrow>
          shmem_addr (arr ! x) = shmem_addr (arr ! z) \<Longrightarrow> x = z" and
    all: "\<And>b. b \<noteq> 0 \<Longrightarrow> users b ps \<noteq> 0 \<Longrightarrow> \<exists>z < SHMEM_PAGES. shmem_addr (arr ! z) = b"
    using assms(1) by (auto simp: refs_ok_def)
  let ?arr = "arr[y := info]"
  have nth: "?arr ! z = (if z = y then info else arr ! z)" for z
    using assms(2) len by (simp add: nth_list_update)
  have ia: "shmem_addr info = a \<or> shmem_addr info = 0" using info by (auto simp: empty_info_def split: if_splits)
  show ?thesis unfolding refs_ok_def
  proof (intro conjI allI impI)
    fix z assume z: "z < length ?arr"
    show "if shmem_addr (?arr ! z) = 0 then shmem_counter (?arr ! z) = 0
          else shmem_counter (?arr ! z) = int (users (shmem_addr (?arr ! z)) ps') \<and> 0 < shmem_counter (?arr ! z)"
      using cnt [of z] other [of "shmem_addr (arr ! z)"] fresh [of z] info assms(3) z len
      by (auto simp: nth empty_info_def split: if_splits)
  next
    fix x z assume "x < length ?arr" "z < length ?arr" "shmem_addr (?arr ! x) \<noteq> 0" "shmem_addr (?arr ! x) = shmem_addr (?arr ! z)"
    then show "x = z" using inj [of x z] fresh [of x] fresh [of z] ia len by (auto simp: nth split: if_splits)
  next
    fix b assume b: "b \<noteq> 0" "users b ps' \<noteq> 0"
    show "\<exists>z < length ?arr. shmem_addr (?arr ! z) = b"
    proof (cases "b = a")
      case True
      then show ?thesis using b info assms(2) len by (auto simp: nth intro: exI [of _ y])
    next
      case False
      then obtain z where z: "z < SHMEM_PAGES" "shmem_addr (arr ! z) = b" using all [of b] other [of b] b by auto
      then have "z \<noteq> y" using assms(4) False b(1) by auto
      then show ?thesis using z len by (auto simp: nth intro: exI [of _ z])
    qed
  qed (simp add: len)
qed

lemma users_set_phy:
  assumes "i < length (phy_shared_page p)" "phy_shared_page p ! i \<noteq> v"
  shows "users b (p\<lparr>phy_shared_page := (phy_shared_page p)[i := v]\<rparr> # ps) =
    (if b = v then Suc (users b (p # ps)) else if b = phy_shared_page p ! i then users b (p # ps) - 1 else users b (p # ps))"
  using count_list_update [OF assms(1), of v b] assms(2) by (auto split: if_splits)

lemma users_pos: "i < length (phy_shared_page p) \<Longrightarrow> 0 < users (phy_shared_page p ! i) (p # ps)"
  using count_notin [of "phy_shared_page p ! i"] by (auto simp: count_list_0_iff intro: gr0I)

lemma refs_okD:
  assumes "refs_ok arr ps"
  shows "length arr = SHMEM_PAGES"
    "\<And>y. y < SHMEM_PAGES \<Longrightarrow> shmem_addr (arr ! y) = 0 \<Longrightarrow> shmem_counter (arr ! y) = 0"
    "\<And>y. y < SHMEM_PAGES \<Longrightarrow> shmem_addr (arr ! y) \<noteq> 0 \<Longrightarrow>
       shmem_counter (arr ! y) = int (users (shmem_addr (arr ! y)) ps) \<and> 0 < shmem_counter (arr ! y)"
    "\<And>y z. y < SHMEM_PAGES \<Longrightarrow> z < SHMEM_PAGES \<Longrightarrow> shmem_addr (arr ! y) \<noteq> 0 \<Longrightarrow>
       shmem_addr (arr ! y) = shmem_addr (arr ! z) \<Longrightarrow> y = z"
    "\<And>a. a \<noteq> 0 \<Longrightarrow> users a ps \<noteq> 0 \<Longrightarrow> \<exists>y < SHMEM_PAGES. shmem_addr (arr ! y) = a"
  using assms by (auto simp: refs_ok_def)

text \<open>One more user of a page of the table, the first user of a new page, and one user less.\<close>

lemma refs_ok_join:
  assumes "refs_ok arr (p # ps)" "y < SHMEM_PAGES" "shmem_addr (arr ! y) = a" "a \<noteq> 0"
    "i < length (phy_shared_page p)" "phy_shared_page p ! i = 0"
  shows "refs_ok (arr[y := (arr ! y)\<lparr>shmem_counter := shmem_counter (arr ! y) + 1\<rparr>])
    (p\<lparr>phy_shared_page := (phy_shared_page p)[i := a]\<rparr> # ps)"
proof (rule refs_ok_change [OF assms(1,2,4)])
  note D = refs_okD [OF assms(1)]
  show "users b (p\<lparr>phy_shared_page := (phy_shared_page p)[i := a]\<rparr> # ps) = users b (p # ps)" if "b \<noteq> 0" "b \<noteq> a" for b
    using that assms(4-6) by (subst users_set_phy) auto
  show "shmem_addr (arr ! z) \<noteq> a" if "z < SHMEM_PAGES" "z \<noteq> y" for z
    using that assms(2-4) D(4) [of y z] by auto
qed (use assms refs_okD(3) [OF assms(1,2)] in \<open>auto simp: users_set_phy simp del: users_Cons\<close>)

lemma refs_ok_new:
  assumes "refs_ok arr (p # ps)" "y < SHMEM_PAGES" "shmem_addr (arr ! y) = 0" "a \<noteq> 0"
    "\<And>z. z < SHMEM_PAGES \<Longrightarrow> shmem_addr (arr ! z) \<noteq> a"
    "i < length (phy_shared_page p)" "phy_shared_page p ! i = 0"
  shows "refs_ok (arr[y := \<lparr>shmem_addr = a, shmem_counter = 1\<rparr>])
    (p\<lparr>phy_shared_page := (phy_shared_page p)[i := a]\<rparr> # ps)"
proof (rule refs_ok_change [OF assms(1,2,4)])
  show "users b (p\<lparr>phy_shared_page := (phy_shared_page p)[i := a]\<rparr> # ps) = users b (p # ps)" if "b \<noteq> 0" "b \<noteq> a" for b
    using that assms(4,6,7) by (subst users_set_phy) auto
  have "users a (p # ps) = 0" using refs_okD(5) [OF assms(1,4)] assms(5) by blast
  then show "if users a (p\<lparr>phy_shared_page := (phy_shared_page p)[i := a]\<rparr> # ps) = 0
      then \<lparr>shmem_addr = a, shmem_counter = 1\<rparr> = empty_info
      else shmem_addr \<lparr>shmem_addr = a, shmem_counter = 1\<rparr> = a
        \<and> shmem_counter \<lparr>shmem_addr = a, shmem_counter = 1\<rparr>
          = int (users a (p\<lparr>phy_shared_page := (phy_shared_page p)[i := a]\<rparr> # ps))"
    using assms(4,6,7) by (simp add: users_set_phy del: users_Cons)
qed (use assms in auto)

lemma refs_ok_leave:
  assumes "refs_ok arr (p # ps)" "y < SHMEM_PAGES" "shmem_addr (arr ! y) = a" "a \<noteq> 0"
    "i < length (phy_shared_page p)" "phy_shared_page p ! i = a"
  shows "refs_ok (arr[y := if shmem_counter (arr ! y) = 1 then empty_info
      else (arr ! y)\<lparr>shmem_counter := shmem_counter (arr ! y) - 1\<rparr>])
    (p\<lparr>phy_shared_page := (phy_shared_page p)[i := 0]\<rparr> # ps)"
proof (rule refs_ok_change [OF assms(1,2,4)])
  note D = refs_okD [OF assms(1)]
  show "users b (p\<lparr>phy_shared_page := (phy_shared_page p)[i := 0]\<rparr> # ps) = users b (p # ps)" if "b \<noteq> 0" "b \<noteq> a" for b
    using that assms(4-6) by (subst users_set_phy) auto
  show "shmem_addr (arr ! z) \<noteq> a" if "z < SHMEM_PAGES" "z \<noteq> y" for z
    using that assms(2-4) D(4) [of y z] by auto
qed (use assms refs_okD(3) [OF assms(1,2)] users_pos [OF assms(5), of ps] in
      \<open>auto simp: users_set_phy of_nat_diff simp del: users_Cons\<close>)

section \<open>The shared pages of an address space\<close>

text \<open>The address of slot \<open>i\<close> of a process.\<close>

definition slot_va :: "nat \<Rightarrow> addr" where
  "slot_va i = KERNBASE - PGSIZE * word_of_int (int i + 1)"

abbreviation shared_pte :: "addr \<Rightarrow> uint" where
  "shared_pte a \<equiv> V2P a OR (PTE_W OR PTE_U) OR PTE_P"

lemma unat_slot_va:
  assumes "i < SHMEM_PAGES"
  shows "unat (slot_va i) = 2147483648 - 4096 * (i + 1)"
proof -
  have "PGSIZE * word_of_int (int i + 1) = word_of_nat (4096 * (i + 1))" by (simp add: PGSIZE_def)
  moreover have "4096 * (i + 1) < 4294967296" using assms by (simp add: SHMEM_PAGES_def)
  ultimately have "unat (PGSIZE * word_of_int (int i + 1)) = 4096 * (i + 1)" by (simp only: unat_of_nat_small)
  then show ?thesis
    using assms unat_sub [of "PGSIZE * word_of_int (int i + 1)" KERNBASE]
    by (simp add: slot_va_def word_le_nat_alt KERNBASE_def SHMEM_PAGES_def)
qed

lemma slot_va_props:
  assumes "i < SHMEM_PAGES"
  shows "page_aligned (slot_va i)" "slot_va i < KERNBASE" "PGROUNDDOWN (slot_va i) = slot_va i"
proof -
  have "2147483648 - 4096 * (i + 1) = 4096 * (524288 - (i + 1))" by simp
  then show a: "page_aligned (slot_va i)" by (simp only: page_aligned_unat unat_slot_va [OF assms]) simp
  show "slot_va i < KERNBASE" by (simp add: word_less_nat_alt unat_slot_va [OF assms] KERNBASE_def)
  show "PGROUNDDOWN (slot_va i) = slot_va i" by (rule PGROUNDDOWN_id [OF a])
qed

lemma slot_va_inj: "i < SHMEM_PAGES \<Longrightarrow> j < SHMEM_PAGES \<Longrightarrow> slot_va i = slot_va j \<longleftrightarrow> i = j"
  by (simp add: word_unat_eq_iff unat_slot_va SHMEM_PAGES_def) auto

lemma slot_va_fork: "KERNBASE - (word_of_nat i + 1) * PGSIZE = slot_va i"
  by (simp add: slot_va_def mult.commute)

text \<open>
  An address space maps the shared pages of its process at their slots and nothing at the free slots, and a page of the table
  that the process does not use is not in its space nor free.
\<close>

definition pages_ok :: "kmem \<Rightarrow> addr \<Rightarrow> addr list \<Rightarrow> shm_info list \<Rightarrow> addr list \<Rightarrow> bool" where
  "pages_ok k pgdir phy arr fs \<longleftrightarrow> wf_space k pgdir fs \<and> length phy = SHMEM_PAGES \<and> length arr = SHMEM_PAGES
     \<and> (\<forall>i < SHMEM_PAGES. vmap (kmem_mem k) pgdir (slot_va i) =
          (if phy ! i = 0 then None else Some (shared_pte (phy ! i))))
     \<and> (\<forall>y < SHMEM_PAGES. shmem_addr (arr ! y) \<noteq> 0 \<longrightarrow> usable_page k (shmem_addr (arr ! y))
          \<and> (shmem_addr (arr ! y) \<notin> set phy \<longrightarrow> shmem_addr (arr ! y) \<notin> held k pgdir fs))"

lemma pages_okD:
  assumes "pages_ok k pgdir phy arr fs"
  shows "wf_space k pgdir fs" "length phy = SHMEM_PAGES" "length arr = SHMEM_PAGES"
    "\<And>i. i < SHMEM_PAGES \<Longrightarrow> vmap (kmem_mem k) pgdir (slot_va i) =
       (if phy ! i = 0 then None else Some (shared_pte (phy ! i)))"
    "\<And>y. y < SHMEM_PAGES \<Longrightarrow> shmem_addr (arr ! y) \<noteq> 0 \<Longrightarrow> usable_page k (shmem_addr (arr ! y))"
    "\<And>y. y < SHMEM_PAGES \<Longrightarrow> shmem_addr (arr ! y) \<noteq> 0 \<Longrightarrow> shmem_addr (arr ! y) \<notin> set phy \<Longrightarrow>
       shmem_addr (arr ! y) \<notin> held k pgdir fs"
  using assms by (auto simp: pages_ok_def)

lemma frame_shared_pte: "page_aligned a \<Longrightarrow> frame (shared_pte a) = a"
proof -
  assume a: "page_aligned a"
  have "unat (PTE_W OR PTE_U :: uint) < 4096" by (simp add: PTE_W_def PTE_U_def)
  then have "unat ((PTE_W OR PTE_U) OR PTE_P) < 4096" by (rule or_flags_less) (simp add: PTE_P_def)
  then show ?thesis using a by (simp add: frame_def or.assoc)
qed

lemma in_set_update:
  assumes "i < length xs" "b \<noteq> xs ! i"
  shows "b \<in> set (xs[i := v]) \<longleftrightarrow> b = v \<or> b \<in> set xs"
  using assms by (auto simp: in_set_conv_nth nth_list_update split: if_splits)

text \<open>No page is mapped at two slots.\<close>

lemma pages_ok_distinct:
  assumes "pages_ok k pgdir phy arr fs" "i < SHMEM_PAGES" "j < SHMEM_PAGES" "phy ! i = phy ! j" "phy ! i \<noteq> 0"
  shows "i = j"
proof -
  note D = pages_okD [OF assms(1)]
  have "PGROUNDDOWN (slot_va i) = PGROUNDDOWN (slot_va j)"
    by (rule wf_spaceD(8) [OF D(1) slot_va_props(2) slot_va_props(2), OF assms(2,3)])
      (use D(4) [OF assms(2)] D(4) [OF assms(3)] assms(4,5) in auto)
  then show ?thesis using assms(2,3) by (simp add: slot_va_props slot_va_inj)
qed

text \<open>Mapping one page fails only when no page is free for its table.\<close>

lemma map_one_page_room:
  assumes "free_pages s ps" "wf_pgdir (kmem_mem s) pgdir (set ps)" "page_aligned a" "mappages pgdir a PGSIZE pa perm s = Ok (-1, s')"
  shows "ps = []"
proof -
  obtain pte s1 where w: "walkpgdir pgdir a True s = (pte, s1)" by (cases "walkpgdir pgdir a True s")
  have "mappages_loop pgdir a a pa perm s = Ok (-1, s')"
    using assms(3,4) by (simp add: mappages_def PGROUNDDOWN_one_page PGROUNDDOWN_id)
  then have "pte = 0" using w by (subst (asm) mappages_loop.simps) (auto split: if_splits)
  then show ?thesis using walkpgdir_alloc [OF assms(1,2) w] by auto
qed

lemma attach_page:
  assumes ok: "pages_ok k pgdir phy arr fs" and y: "y < SHMEM_PAGES" "shmem_addr (arr ! y) = a" "a \<noteq> 0" "a \<notin> set phy"
    and i: "i < SHMEM_PAGES" "phy ! i = 0"
  shows "\<exists>r k' fs'. mappages pgdir (slot_va i) PGSIZE (V2P a) (PTE_W OR PTE_U) k = Ok (r, k')
    \<and> (r = 0 \<and> pages_ok k' pgdir (phy[i := a]) arr fs' \<and> pt_step pgdir k fs k' fs'
         \<and> (\<forall>x. PGROUNDDOWN x \<noteq> slot_va i \<longrightarrow> vmap (kmem_mem k') pgdir x = vmap (kmem_mem k) pgdir x)
       \<or> r = -1 \<and> fs = [])"
proof -
  note D = pages_okD [OF ok] and S = slot_va_props [OF i(1)]
  have u: "usable_page k a" "a \<notin> held k pgdir fs" using D(5,6) [OF y(1)] y by auto
  have none: "vmap (kmem_mem k) pgdir (slot_va i) = None" using D(4) [OF i(1)] i(2) by simp
  have pm: "unat (PTE_W OR PTE_U :: uint) < 4096" by (simp add: PTE_W_def PTE_U_def)
  obtain r k' fs' where m: "mappages pgdir (slot_va i) PGSIZE (V2P a) (PTE_W OR PTE_U) k = Ok (r, k')"
    "pt_step pgdir k fs k' fs'" "wf_space k' pgdir fs'"
    "r = 0 \<and> (\<forall>x. vmap (kmem_mem k') pgdir x =
        (if PGROUNDDOWN x = slot_va i then Some (shared_pte a) else vmap (kmem_mem k) pgdir x))
     \<or> r = -1 \<and> (\<forall>x. vmap (kmem_mem k') pgdir x = vmap (kmem_mem k) pgdir x)"
    by (rule map_page_spec [OF D(1) S(1,2) u pm none])
  show ?thesis
  proof (cases "r = 0")
    case True
    then have vm: "vmap (kmem_mem k') pgdir x =
        (if PGROUNDDOWN x = slot_va i then Some (shared_pte a) else vmap (kmem_mem k) pgdir x)" for x
      using m(4) by auto
    have h: "held k' pgdir fs' = insert a (held k pgdir fs)"
      using held_add [OF m(2) S(1,2) none vm] frame_shared_pte usable_page_aligned [OF u(1)] by simp
    have us: "usable_page k' = usable_page k"
      using pt_stepD(7) [OF m(2)] by (simp add: fun_eq_iff usable_page_def)
    have "pages_ok k' pgdir (phy[i := a]) arr fs'"
      unfolding pages_ok_def us h vm
      using m(3) D(2-6) i y(3) by (auto simp: slot_va_props slot_va_inj nth_list_update in_set_update)
    then show ?thesis using m(1,2) vm True by auto
  qed (use m map_one_page_room [OF wf_spaceD(1,2) [OF D(1)] S(1)] in auto)
qed


text \<open>Taking a page out of its slot, and freeing it if it has no other user.\<close>

lemma pages_ok_pte:
  assumes "pages_ok k pgdir phy arr fs" "i < SHMEM_PAGES" "phy ! i \<noteq> 0"
  shows "walkpgdir pgdir (slot_va i) False k = (pte_loc (kmem_mem k) pgdir (slot_va i), k)"
    "pte_loc (kmem_mem k) pgdir (slot_va i) \<noteq> 0" "pde_present (kmem_mem k) pgdir (PDX (slot_va i))"
proof -
  note D = pages_okD [OF assms(1)]
  show p: "pde_present (kmem_mem k) pgdir (PDX (slot_va i))"
    using vmap_SomeD [of "kmem_mem k" pgdir "slot_va i" "shared_pte (phy ! i)"] D(4) [OF assms(2)] assms(3) by simp
  then show "walkpgdir pgdir (slot_va i) False k = (pte_loc (kmem_mem k) pgdir (slot_va i), k)"
    by (simp add: walkpgdir_noalloc)
  show "pte_loc (kmem_mem k) pgdir (slot_va i) \<noteq> 0" by (rule pte_loc_nonzero [OF wf_spaceD(2) [OF D(1)] p])
qed

lemma detach_page:
  assumes ok: "pages_ok k pgdir phy arr fs" and i: "i < SHMEM_PAGES" "phy ! i \<noteq> 0"
    and k': "k' = k\<lparr>kmem_mem := store32 (kmem_mem k) (pte_loc (kmem_mem k) pgdir (slot_va i)) 0\<rparr>"
    and al: "page_aligned (phy ! i)"
  shows "pages_ok k' pgdir (phy[i := 0]) arr fs"
proof -
  note D = pages_okD [OF ok] and W = wf_spaceD [OF pages_okD(1) [OF ok]] and S = slot_va_props [OF i(1)]
  note st = store_pte [OF W(1,2) pages_ok_pte(3) [OF ok i] k']
  note d = pt_stepD [OF st(1)]
  have vm: "vmap (kmem_mem k') pgdir x = (if PGROUNDDOWN x = slot_va i then None else vmap (kmem_mem k) pgdir x)" for x
    using st(2) [of x] by (simp add: same_page_iff [OF S(1)])
  have us: "usable_page k' = usable_page k" using d(7) by (simp add: fun_eq_iff usable_page_def)
  have e: "vmap (kmem_mem k) pgdir (slot_va i) = Some (shared_pte (phy ! i))" using D(4) [OF i(1)] i(2) by simp
  have uf: "user_frames (kmem_mem k') pgdir = user_frames (kmem_mem k) pgdir - {phy ! i}"
  proof -
    have "frame f \<noteq> phy ! i" if "x < KERNBASE" "vmap (kmem_mem k) pgdir x = Some f" "PGROUNDDOWN x \<noteq> slot_va i" for x f
      using W(8) [OF that(1) S(2) that(2) e] that(3) frame_shared_pte [OF al] S(3) by auto
    moreover have "frame f = phy ! i" if "vmap (kmem_mem k) pgdir x = Some f" "PGROUNDDOWN x = slot_va i" for x f
      using that e vmap_page [of "kmem_mem k" pgdir x] frame_shared_pte [OF al] by auto
    ultimately show ?thesis by (auto simp: user_frames_def vm split: if_splits) metis
  qed
  have pp: "pt_pages (kmem_mem k') pgdir = pt_pages (kmem_mem k) pgdir" using d(5) by simp
  have wf: "wf_space k' pgdir fs"
    unfolding wf_space_def us vm pp
  proof (intro conjI allI impI ballI)
    fix x f assume x: "x < KERNBASE" "(if PGROUNDDOWN x = slot_va i then None else vmap (kmem_mem k) pgdir x) = Some f"
    then have "vmap (kmem_mem k) pgdir x = Some f" by (simp split: if_splits)
    then show "usable_page k (frame f)" "frame f \<notin> set fs" "frame f \<notin> pt_pages (kmem_mem k) pgdir"
      using W(5,6,7) x(1) by auto
  next
    show "PGROUNDDOWN x = PGROUNDDOWN z" if "x < KERNBASE" "z < KERNBASE"
      "(if PGROUNDDOWN x = slot_va i then None else vmap (kmem_mem k) pgdir x) = Some f"
      "(if PGROUNDDOWN z = slot_va i then None else vmap (kmem_mem k) pgdir z) = Some g" "frame f = frame g" for x z f g
      using that W(8) [of x z f g] by (simp split: if_splits)
  qed (use d(1,3) W(3) in blast)+
  have nh: "phy ! i \<notin> held k' pgdir fs"
    using uf W(6,7) [OF S(2) e] frame_shared_pte [OF al] by (auto simp: held_def pp)
  have h: "held k' pgdir fs \<subseteq> held k pgdir fs" using uf by (auto simp: held_def pp)
  show ?thesis
    unfolding pages_ok_def us vm
  proof (intro conjI allI impI)
    fix y assume y: "y < SHMEM_PAGES" "shmem_addr (arr ! y) \<noteq> 0" 
    show "usable_page k (shmem_addr (arr ! y))" using D(5) y by simp
    show "shmem_addr (arr ! y) \<notin> held k' pgdir fs" if "shmem_addr (arr ! y) \<notin> set (phy[i := 0])"
      using that nh h D(6) [OF y] D(2) i y(2) by (cases "shmem_addr (arr ! y) = phy ! i") (auto simp: in_set_update)
  qed (use wf D(2-4) i in \<open>auto simp: slot_va_props slot_va_inj nth_list_update\<close>)
qed


text \<open>\<^verbatim>\<open>shmrem\<close> frees the page before it clears the entry.\<close>

lemma detach_last:
  assumes ok: "pages_ok k pgdir phy arr fs" and i: "i < SHMEM_PAGES" "phy ! i = a" "a \<noteq> 0"
    and y: "y < SHMEM_PAGES" "shmem_addr (arr ! y) = a" "\<And>z. z < SHMEM_PAGES \<Longrightarrow> z \<noteq> y \<Longrightarrow> shmem_addr (arr ! z) \<noteq> a"
  shows "\<exists>k1. kfree a k = Ok k1 \<and>
    walkpgdir pgdir (slot_va i) False k1 = (pte_loc (kmem_mem k) pgdir (slot_va i), k1) \<and>
    pages_ok (k1\<lparr>kmem_mem := store32 (kmem_mem k1) (pte_loc (kmem_mem k) pgdir (slot_va i)) 0\<rparr>) pgdir
      (phy[i := 0]) (arr[y := empty_info]) (a # fs)"
proof -
  note D = pages_okD [OF ok] and S = slot_va_props [OF i(1)]
  have u: "usable_page k a" using D(5) [OF y(1)] y(2) i(3) by simp
  note fa = frame_shared_pte [OF usable_page_aligned [OF u]]
  have e: "vmap (kmem_mem k) pgdir (slot_va i) = Some (shared_pte a)" using D(4) [OF i(1)] i(2,3) by simp
  obtain k1 k2 where k1: "kfree (frame (shared_pte a)) k = Ok k1"
    "k2 = k1\<lparr>kmem_mem := store32 (kmem_mem k1) (pte_loc (kmem_mem k) pgdir (slot_va i)) 0\<rparr>"
    "wf_space k2 pgdir (frame (shared_pte a) # fs)" "space_step k pgdir {frame (shared_pte a)} k2"
    "\<And>x. vmap (kmem_mem k2) pgdir x = (if PGROUNDDOWN x = slot_va i then None else vmap (kmem_mem k) pgdir x)"
    by (rule unmap_page [OF D(1) S(1,2) e]) blast
  have na: "a \<notin> pt_pages (kmem_mem k) pgdir" using wf_spaceD(7) [OF D(1) S(2) e] fa by simp
  have ag: "\<forall>p \<in> pt_pages (kmem_mem k) pgdir. agree_page p (kmem_mem k) (kmem_mem k1)"
    using kfree_agree [OF k1(1)] na unfolding fa by metis
  note fr = page_table_frame [OF wf_pgdirD(1) [OF wf_spaceD(2) [OF D(1)]] ag]
  have w: "walkpgdir pgdir (slot_va i) False k1 = (pte_loc (kmem_mem k) pgdir (slot_va i), k1)"
    using pages_ok_pte(3) [OF ok i(1)] i(2,3) by (simp add: walkpgdir_noalloc fr pte_loc_def)
  have us: "usable_page k2 = usable_page k" using k1(4) by (simp add: space_step_def fun_eq_iff usable_page_def)
  have h: "held k2 pgdir (a # fs) \<subseteq> insert a (held k pgdir fs)"
    using k1(4) by (auto simp: held_def space_step_def user_frames_def k1(5) split: if_splits)
  have "pages_ok k2 pgdir (phy[i := 0]) (arr[y := empty_info]) (a # fs)"
    unfolding pages_ok_def us k1(5)
  proof (intro conjI allI impI)
    fix z assume z: "z < SHMEM_PAGES" "shmem_addr (arr[y := empty_info] ! z) \<noteq> 0"
    then have zy: "z \<noteq> y" "arr[y := empty_info] ! z = arr ! z" using D(3) y(1) by (cases "z = y"; simp add: empty_info_def)+
    then show "usable_page k (shmem_addr (arr[y := empty_info] ! z))" using D(5) z by simp
    show "shmem_addr (arr[y := empty_info] ! z) \<notin> held k2 pgdir (a # fs)"
      if "shmem_addr (arr[y := empty_info] ! z) \<notin> set (phy[i := 0])"
      using that zy z D(2) D(6) [of z] y(3) [of z] h i by (auto simp: in_set_update)
  qed (use k1(3) fa D(2-4) i in \<open>auto simp: slot_va_props slot_va_inj nth_list_update\<close>)
  then show ?thesis using k1(1,2) w fa by auto
qed

text \<open>A new page of the table.\<close>

lemma new_shared_page:
  assumes ok: "pages_ok k pgdir phy arr (a # fs)" and f: "f < SHMEM_PAGES" "shmem_addr (arr ! f) = 0"
    and phy: "\<And>b. b \<in> set phy \<Longrightarrow> b \<noteq> 0 \<Longrightarrow> \<exists>y < SHMEM_PAGES. shmem_addr (arr ! y) = b"
    and inf: "shmem_addr info = a"
    and k1: "k1 = k\<lparr>freelist := load32 (kmem_mem k) a, kmem_mem := memset (kmem_mem k) a 0 PGSIZE\<rparr>"
  shows "kalloc k = (a, k\<lparr>freelist := load32 (kmem_mem k) a\<rparr>)" "a \<noteq> 0" "a \<notin> set phy"
    "\<And>y. y < SHMEM_PAGES \<Longrightarrow> shmem_addr (arr ! y) \<noteq> a"
    "pages_ok k1 pgdir phy (arr[f := info]) fs" "\<And>x. page_of x = a \<Longrightarrow> kmem_mem k1 x = 0"
proof -
  note D = pages_okD [OF ok]
  have al: "page_aligned a" using ka.frees_usable [OF wf_spaceD(1) [OF D(1)], of a] by (simp add: usable_page_def)
  have ag: "\<forall>q. q \<noteq> a \<longrightarrow> agree_page q (kmem_mem k) (memset (kmem_mem k) a 0 PGSIZE)"
    using agree_page_stosb [OF al] by (auto simp: memset_eq_stosb PGSIZE_def)
  note N = kalloc_new_page [OF D(1) ag k1]
  show "kalloc k = (a, k\<lparr>freelist := load32 (kmem_mem k) a\<rparr>)" and nz: "a \<noteq> 0" by (fact N)+
  show nt: "shmem_addr (arr ! y) \<noteq> a" if "y < SHMEM_PAGES" for y
  proof
    assume y: "shmem_addr (arr ! y) = a"
    show False
    proof (cases "a \<in> set phy")
      case True
      then obtain i where i: "i < SHMEM_PAGES" "phy ! i = a" using D(2) by (auto simp: in_set_conv_nth)
      then have "vmap (kmem_mem k) pgdir (slot_va i) = Some (shared_pte a)" using D(4) nz by simp
      from wf_spaceD(6) [OF D(1) slot_va_props(2) [OF i(1)] this] show False by (simp add: frame_shared_pte [OF al])
    next
      case False
      then show False using D(6) [OF that] y nz by (auto simp: held_def)
    qed
  qed
  show np: "a \<notin> set phy" using phy [of a] nz nt by auto
  have us: "usable_page k1 = usable_page k" by (simp add: k1 fun_eq_iff usable_page_def)
  show "pages_ok k1 pgdir phy (arr[f := info]) fs"
    unfolding pages_ok_def us
  proof (intro conjI allI impI)
    fix z assume z: "z < SHMEM_PAGES" "shmem_addr (arr[f := info] ! z) \<noteq> 0"
    show "usable_page k (shmem_addr (arr[f := info] ! z))"
      using z D(3,5) N(4) us inf f(1) by (auto simp: nth_list_update)
    show "shmem_addr (arr[f := info] ! z) \<notin> held k1 pgdir fs" if "shmem_addr (arr[f := info] ! z) \<notin> set phy"
      using z that D(3) D(6) [OF z(1)] N(5,6) inf f(1) by (cases "z = f") auto
  qed (use N(3,7) D(2-4) in auto)
  show "kmem_mem k1 x = 0" if "page_of x = a" for x
    using that al by (simp add: k1 memset_eq_stosb PGSIZE_def stosb_page)
qed

section \<open>Keys\<close>

text \<open>Two key arrays hold the same key: \<^verbatim>\<open>strncmp\<close> of 16 bytes gives 0.\<close>

definition key_eq :: "byte list \<Rightarrow> byte list \<Rightarrow> bool" where
  "key_eq key k \<longleftrightarrow> take 16 (cstr k) = take 16 (cstr key)"

lemma strncmp_key:
  assumes "length k = 16" "16 \<le> length key"
  shows "\<exists>r. strncmp k key 16 = Some r \<and> (r = 0 \<longleftrightarrow> key_eq key k)"
  using strncmp_defined [of 16 k key] strncmp_zero_iff [of 16 k key] assms by (auto simp: key_eq_def)

lemma plus_Suc_fun: "(+) (Suc i) = (\<lambda>j. Suc (i + j))"
  by (simp add: fun_eq_iff)

lemma key_index_eq:
  assumes "\<forall>k \<in> set ks. length k = 16" "16 \<le> length key"
  shows "key_index ks key i = Ok (map_option (\<lambda>j. i + j) (find_index (key_eq key) ks))"
  using assms(1)
proof (induction ks arbitrary: i)
  case (Cons k ks)
  then show ?case using strncmp_key [OF _ assms(2), of k] by (auto simp: plus_Suc_fun option.map_comp comp_def)
qed simp

text \<open>The scan finds the key if it is there, and a free slot if it is not.\<close>

lemma shm_scan_eq:
  assumes "\<forall>k \<in> set ks. length k = 16" "16 \<le> length key" "cstr key \<noteq> []"
  shows "\<exists>ff'. shm_scan ks key i ff = Ok (map_option (\<lambda>j. i + j) (find_index (key_eq key) ks), ff')
    \<and> (find_index (key_eq key) ks = None \<longrightarrow>
        ff' = (if ff = None then map_option (\<lambda>j. i + j) (find_index (\<lambda>k. hd k = 0) ks) else ff))"
  using assms(1)
proof (induction ks arbitrary: i ff)
  case (Cons k ks)
  have l: "length k = 16" using Cons.prems by simp
  have e: "\<not> key_eq key k" if "hd k = 0"
  proof -
    have "cstr k = []" using that l by (cases k) auto
    then show ?thesis using assms(3) by (simp add: key_eq_def)
  qed
  show ?case
  proof (cases "hd k = 0 \<and> ff = None")
    case True
    then show ?thesis using Cons.IH [of "Suc i" "Some i"] Cons.prems e by (auto simp: plus_Suc_fun option.map_comp comp_def)
  next
    case False
    obtain r where "strncmp k key 16 = Some r" "r = 0 \<longleftrightarrow> key_eq key k" using strncmp_key [OF l assms(2)] by blast
    then show ?thesis using False Cons.IH [of "Suc i" ff] Cons.prems by (auto simp: plus_Suc_fun option.map_comp comp_def)
  qed
qed simp

lemma put_key_eq:
  assumes "i < length ks" "length bs \<le> 16" "bs \<noteq> []"
  shows "put_key ks i bs = Some (ks[i := bs @ drop (length bs) (ks ! i)])"
  using assms by (subst put_key.simps) (simp add: put_key.simps [of _ "Suc i" "[]"])

text \<open>A key as the system call passes it: a string of 1 to 16 bytes, in memory of at least 16 bytes.\<close>

definition key_arg :: "byte list \<Rightarrow> bool" where
  "key_arg key \<longleftrightarrow> 0 \<in> set key \<and> 16 \<le> length key \<and> cstr key \<noteq> [] \<and> length (cstr key) \<le> 16"

lemma key_bytes_eq: "key_arg key \<Longrightarrow> key_bytes key = Ok (cstr key)"
proof -
  assume "key_arg key"
  then have "strlen key = Some (length (cstr key))" by (simp add: key_arg_def strlen_cstr)
  then show ?thesis by (simp add: key_bytes_def cstr_def takeWhile_eq_take [symmetric])
qed

lemma put_key_res_eq:
  assumes "key_arg key" "i < length ks"
  shows "put_key_res ks (int i) (cstr key) = Ok (ks[i := cstr key @ drop (length (cstr key)) (ks ! i)])"
  using assms by (simp add: put_key_res_def key_arg_def put_key_eq)

lemma cstr_padded: "cstr (cstr s @ replicate n 0) = cstr s"
  by (induction s) (auto intro: arg_cong [where f = cstr] simp: cstr_def takeWhile_replicate)

section \<open>The invariant\<close>

definition shm_ok :: "kmem \<Rightarrow> shm_info list \<Rightarrow> byte list list \<Rightarrow> proc \<Rightarrow> proc list \<Rightarrow> addr list \<Rightarrow> bool" where
  "shm_ok k arr keys p others fs \<longleftrightarrow>
     pages_ok k (p_pgdir p) (phy_shared_page p) arr fs \<and> refs_ok arr (p # others)
     \<and> length keys = SHMEM_PAGES \<and> (\<forall>x \<in> set keys. length x = 16)
     \<and> (\<forall>y < SHMEM_PAGES. if shmem_addr (arr ! y) = 0 then keys ! y = replicate 16 0 else hd (keys ! y) \<noteq> 0)
     \<and> length (vm_shared_page p) = SHMEM_PAGES \<and> length (p_bitmap p) = SHMEM_PAGES
     \<and> length (p_key p) = SHMEM_PAGES \<and> (\<forall>x \<in> set (p_key p). length x = 16)
     \<and> (\<forall>i < SHMEM_PAGES. phy_shared_page p ! i \<noteq> 0 \<longrightarrow> p_bitmap p ! i = 1 \<and> vm_shared_page p ! i = slot_va i)"

abbreviation shm_good :: "shm_state \<Rightarrow> proc list \<Rightarrow> addr list \<Rightarrow> bool" where
  "shm_good s others fs \<equiv> shm_ok (shk s) (shp_array (sh_table s)) (shp_key (sh_table s)) (cur s) others fs"

lemma shm_okD:
  assumes "shm_ok k arr keys p others fs"
  shows "pages_ok k (p_pgdir p) (phy_shared_page p) arr fs" "refs_ok arr (p # others)"
    "length keys = SHMEM_PAGES" "\<forall>x \<in> set keys. length x = 16"
    "\<And>y. y < SHMEM_PAGES \<Longrightarrow> shmem_addr (arr ! y) = 0 \<Longrightarrow> keys ! y = replicate 16 0"
    "\<And>y. y < SHMEM_PAGES \<Longrightarrow> shmem_addr (arr ! y) \<noteq> 0 \<Longrightarrow> hd (keys ! y) \<noteq> 0"
    "length (vm_shared_page p) = SHMEM_PAGES" "length (p_bitmap p) = SHMEM_PAGES"
    "length (p_key p) = SHMEM_PAGES" "\<forall>x \<in> set (p_key p). length x = 16"
    "\<And>i. i < SHMEM_PAGES \<Longrightarrow> phy_shared_page p ! i \<noteq> 0 \<Longrightarrow> p_bitmap p ! i = 1"
    "\<And>i. i < SHMEM_PAGES \<Longrightarrow> phy_shared_page p ! i \<noteq> 0 \<Longrightarrow> vm_shared_page p ! i = slot_va i"
  using assms by (auto simp: shm_ok_def)

lemma shm_lock:
  assumes "lock_free c (sh_lock (sh_table s), sh_mach s)"
  obtains lk m where "sh_acquire kv s = Ok (s\<lparr>sh_table := (sh_table s)\<lparr>sh_lock := lk\<rparr>, sh_mach := m\<rparr>)" "lock_owned c (lk, m)"
  using spin.acq_free [OF assms, of "fst kv" "snd kv"] by (auto simp: sh_acquire_def)

lemma shm_unlock:
  assumes "lock_owned c (sh_lock (sh_table s), sh_mach s)"
  obtains lk m where "sh_release s = Ok (s\<lparr>sh_table := (sh_table s)\<lparr>sh_lock := lk\<rparr>, sh_mach := m\<rparr>)" "lock_free c (lk, m)"
  using spin.rel_owned [OF assms] by (auto simp: sh_release_def)

section \<open>Getting a page\<close>

text \<open>The process after \<^verbatim>\<open>shmget\<close> has put page \<open>a\<close> into its slot \<open>i\<close>.\<close>

definition attached :: "nat \<Rightarrow> addr \<Rightarrow> byte list \<Rightarrow> proc \<Rightarrow> proc" where
  "attached i a key p = p\<lparr>p_top := slot_va i, p_bitmap := (p_bitmap p)[i := 1],
     phy_shared_page := (phy_shared_page p)[i := a], vm_shared_page := (vm_shared_page p)[i := slot_va i],
     p_key := (p_key p)[i := cstr key @ drop (length (cstr key)) (p_key p ! i)]\<rparr>"

lemma attached_simps [simp]:
  "p_pgdir (attached i a key p) = p_pgdir p" "p_top (attached i a key p) = slot_va i"
  "phy_shared_page (attached i a key p) = (phy_shared_page p)[i := a]"
  "vm_shared_page (attached i a key p) = (vm_shared_page p)[i := slot_va i]"
  "p_bitmap (attached i a key p) = (p_bitmap p)[i := 1]"
  "p_key (attached i a key p) = (p_key p)[i := cstr key @ drop (length (cstr key)) (p_key p ! i)]"
  by (simp_all add: attached_def)

lemma refs_ok_cong: "phy_shared_page p' = phy_shared_page p \<Longrightarrow> refs_ok arr (p' # ps) = refs_ok arr (p # ps)"
  by (simp add: refs_ok_def)

lemma pages_ok_cong:
  assumes "length arr' = length arr" "\<And>y. shmem_addr (arr' ! y) = shmem_addr (arr ! y)"
  shows "pages_ok k pgdir phy arr' fs = pages_ok k pgdir phy arr fs"
  by (simp add: pages_ok_def assms)

lemma find_pos_eq: "find_index (\<lambda>a. a = 0) (phy_shared_page p) = Some i \<Longrightarrow> find_pos p = int i"
  by (simp add: find_pos_def)

lemma map_shared_spec:
  assumes "pages_ok (shk s) (p_pgdir (cur s)) (phy_shared_page (cur s)) arr fs"
    "y < SHMEM_PAGES" "shmem_addr (arr ! y) = a" "a \<noteq> 0" "a \<notin> set (phy_shared_page (cur s))"
    and i: "find_index (\<lambda>a. a = 0) (phy_shared_page (cur s)) = Some i"
  shows "map_shared a s = Panic ''Failed to map page.\<newline>'' \<and> fs = [] \<or>
    (\<exists>k' fs'. map_shared a s = Ok (int i, s\<lparr>cur := (cur s)\<lparr>p_top := slot_va i\<rparr>, shk := k'\<rparr>)
      \<and> pages_ok k' (p_pgdir (cur s)) ((phy_shared_page (cur s))[i := a]) arr fs'
      \<and> pt_step (p_pgdir (cur s)) (shk s) fs k' fs')"
proof -
  have i': "i < SHMEM_PAGES" "phy_shared_page (cur s) ! i = 0"
    using find_index_SomeD [OF i] pages_okD(2) [OF assms(1)] by simp_all
  have "map_shared a s = bind_res (mappages (p_pgdir (cur s)) (slot_va i) PGSIZE (V2P a) (PTE_W OR PTE_U) (shk s))
      (\<lambda>(r, k). if r < 0 then Panic ''Failed to map page.\<newline>''
        else Ok (int i, s\<lparr>cur := (cur s)\<lparr>p_top := slot_va i\<rparr>, shk := k\<rparr>))"
    using find_pos_eq [OF i] by (simp add: map_shared_def Let_def slot_va_def cong: if_cong)
  then show ?thesis using attach_page [OF assms(1-5) i'] by auto
qed

lemma record_shared_eq:
  assumes "key_arg key" "i < SHMEM_PAGES" "length (p_key p) = SHMEM_PAGES" "p_top p = slot_va i"
  shows "record_shared (int i) a key p = Ok (attached i a key p)"
  using assms by (simp add: record_shared_def key_bytes_eq put_key_res_eq attached_def)

lemma ball_list_update: "\<forall>x \<in> set xs. P x \<Longrightarrow> P v \<Longrightarrow> \<forall>x \<in> set (xs[i := v]). P x"
  unfolding all_set_conv_all_nth by (cases "i < length xs") (simp_all add: nth_list_update)

lemma shm_ok_attached:
  assumes ok: "shm_ok k arr keys p others fs" and i: "i < SHMEM_PAGES" and key: "key_arg key"
    and pg: "pages_ok k' (p_pgdir p) ((phy_shared_page p)[i := a]) arr' fs'"
    and rf: "refs_ok arr' (p\<lparr>phy_shared_page := (phy_shared_page p)[i := a]\<rparr> # others)"
    and ks: "length keys' = SHMEM_PAGES" "\<forall>x \<in> set keys'. length x = 16"
      "\<forall>y < SHMEM_PAGES. if shmem_addr (arr' ! y) = 0 then keys' ! y = replicate 16 0 else hd (keys' ! y) \<noteq> 0"
  shows "shm_ok k' arr' keys' (attached i a key p) others fs'"
proof -
  note D = shm_okD [OF ok]
  have "length (cstr key @ drop (length (cstr key)) (p_key p ! i)) = 16"
    using D(9,10) i key by (simp add: key_arg_def)
  with D(10) have pk: "\<forall>x \<in> set (p_key (attached i a key p)). length x = 16"
    unfolding attached_simps by (rule ball_list_update)
  have len: "length (phy_shared_page p) = SHMEM_PAGES" by (rule pages_okD(2) [OF D(1)])
  show ?thesis
    unfolding shm_ok_def
  proof (intro conjI allI impI)
    show "refs_ok arr' (attached i a key p # others)" by (rule refs_ok_cong [THEN iffD1, OF _ rf]) simp
    fix j assume j: "j < SHMEM_PAGES" "phy_shared_page (attached i a key p) ! j \<noteq> 0"
    show "p_bitmap (attached i a key p) ! j = 1" using j D(8) D(11) [of j] len by (cases "j = i") auto
    show "vm_shared_page (attached i a key p) ! j = slot_va j" using j D(7) D(12) [of j] len by (cases "j = i") auto
  next
    show "pages_ok k' (p_pgdir (attached i a key p)) (phy_shared_page (attached i a key p)) arr' fs'"
      unfolding attached_simps by (rule pg)
    show "if shmem_addr (arr' ! y) = 0 then keys' ! y = replicate 16 0 else hd (keys' ! y) \<noteq> 0"
      if "y < SHMEM_PAGES" for y using ks(3) that by blast
  qed (use ks(1,2) pk D(7,8,9) in \<open>simp_all only: attached_simps length_list_update\<close>)
qed

text \<open>What \<^verbatim>\<open>shmget\<close> promises, by the outcome, for the state \<open>s\<close> it starts from.\<close>

definition shmget_post :: "nat \<Rightarrow> byte list \<Rightarrow> shm_state \<Rightarrow> proc list \<Rightarrow> addr list \<Rightarrow> (shm_ret \<times> shm_state) res \<Rightarrow> bool" where
  "shmget_post c key s others fs res = (case res of
       Ok (Ret va, s') \<Rightarrow> (\<exists>i a fs'. i < SHMEM_PAGES \<and> phy_shared_page (cur s) ! i = 0 \<and> va = slot_va i
         \<and> cur s' = attached i a key (cur s) \<and> shm_good s' others fs' \<and> lock_free c (sh_lock (sh_table s'), sh_mach s')
         \<and> (\<exists>y. find_index (key_eq key) (shp_key (sh_table s')) = Some y \<and> shmem_addr (shp_array (sh_table s') ! y) = a)
         \<and> (case find_index (key_eq key) (shp_key (sh_table s)) of
              Some y \<Rightarrow> a = shmem_addr (shp_array (sh_table s) ! y)
            | None \<Rightarrow> a \<in> set fs \<and> (\<forall>x. page_of x = a \<longrightarrow> kmem_mem (shk s') x = 0)))
     | Ok (Exit, s') \<Rightarrow> find_index (key_eq key) (shp_key (sh_table s)) = None
         \<and> (\<forall>y < SHMEM_PAGES. shmem_addr (shp_array (sh_table s) ! y) \<noteq> 0)
         \<and> lock_owned c (sh_lock (sh_table s'), sh_mach s')
     | Panic msg \<Rightarrow> msg = ''Failed to map page.\<newline>'' \<and> length fs \<le> 1 \<or> msg = ''Failed to allocate.\<newline>'' \<and> fs = []
         \<or> msg = ''Max processes.\<newline>'' \<and> (\<exists>y. find_index (key_eq key) (shp_key (sh_table s)) = Some y
             \<and> 16 \<le> users (shmem_addr (shp_array (sh_table s) ! y)) (cur s # others))
     | _ \<Rightarrow> False)"

lemma key_slot_nonempty:
  assumes "shm_ok k arr keys p others fs" "key_arg key" "find_index (key_eq key) keys = Some y"
  shows "y < SHMEM_PAGES" "shmem_addr (arr ! y) \<noteq> 0"
proof -
  note D = shm_okD [OF assms(1)] and F = find_index_SomeD [OF assms(3)]
  show y: "y < SHMEM_PAGES" using F(1) D(3) by simp
  show "shmem_addr (arr ! y) \<noteq> 0"
  proof
    assume "shmem_addr (arr ! y) = 0"
    then have "cstr (keys ! y) = []" using D(5) [OF y] by (simp add: cstr_def)
    then show False using F(2) assms(2) by (simp add: key_eq_def key_arg_def)
  qed
qed

lemma shmget_existing_spec:
  assumes ok: "shm_good s others fs" and key: "key_arg key"
    and own: "lock_owned c (sh_lock (sh_table s), sh_mach s)"
    and i: "find_index (\<lambda>a. a = 0) (phy_shared_page (cur s)) = Some i"
    and nk: "find_index (key_eq key) (p_key (cur s)) = None"
    and y: "find_index (key_eq key) (shp_key (sh_table s)) = Some y"
    and na: "shmem_addr (shp_array (sh_table s) ! y) \<notin> set (phy_shared_page (cur s))"
  shows "shmget_post c key s others fs (shmget_existing y key s)"
proof -
  note D = shm_okD [OF ok] and Y = key_slot_nonempty [OF ok key y]
  let ?arr = "shp_array (sh_table s)"
  define info where "info = ?arr ! y"
  define a where "a = shmem_addr info"
  have a0: "a \<noteq> 0" "a \<notin> set (phy_shared_page (cur s))" using Y(2) na by (simp_all add: a_def info_def)
  have ii: "i < SHMEM_PAGES" "phy_shared_page (cur s) ! i = 0"
    using find_index_SomeD [OF i] pages_okD(2) [OF D(1)] by simp_all
  have kx: "key_index (p_key (cur s)) key 0 = Ok None"
    using key_index_eq [OF D(10), of key 0] key nk by (simp add: key_arg_def)
  show ?thesis
  proof (cases "shmem_counter info < 16")
    case False
    then have "16 \<le> users a (cur s # others)" using refs_okD(3) [OF D(2) Y] by (simp add: a_def info_def)
    moreover obtain lk m where "sh_release s = Ok (s\<lparr>sh_table := (sh_table s)\<lparr>sh_lock := lk\<rparr>, sh_mach := m\<rparr>)"
      by (rule shm_unlock [OF own])
    ultimately show ?thesis
      using False y by (simp add: shmget_existing_def kx Let_def shmget_post_def info_def [symmetric] a_def)
  next
    case True
    note sp = map_shared_spec [OF D(1) Y(1) _ a0 i]
    show ?thesis
    proof (cases "map_shared a s = Panic ''Failed to map page.\<newline>''")
      case fail: True
      then show ?thesis using True sp by (simp add: shmget_existing_def kx Let_def shmget_post_def info_def [symmetric] a_def)
    next
      case False
      then obtain k' fs' where mp: "map_shared a s = Ok (int i, s\<lparr>cur := (cur s)\<lparr>p_top := slot_va i\<rparr>, shk := k'\<rparr>)"
        and pg: "pages_ok k' (p_pgdir (cur s)) ((phy_shared_page (cur s))[i := a]) ?arr fs'"
        using sp by (auto simp: a_def info_def)
      let ?p = "attached i a key (cur s)"
      let ?arr' = "?arr[y := info\<lparr>shmem_counter := shmem_counter info + 1\<rparr>]"
      let ?s = "s\<lparr>cur := (cur s)\<lparr>p_top := slot_va i\<rparr>, shk := k', sh_table := (sh_table s)\<lparr>shp_array := ?arr'\<rparr>, cur := ?p\<rparr>"
      have rec: "record_shared (int i) a key ((cur s)\<lparr>p_top := slot_va i\<rparr>) = Ok ?p"
        using record_shared_eq [OF key ii(1), of "(cur s)\<lparr>p_top := slot_va i\<rparr>"] D(9) by (simp add: attached_def)
      have len: "length ?arr = SHMEM_PAGES" by (rule pages_okD(3) [OF D(1)])
      have ad: "shmem_addr (?arr' ! z) = shmem_addr (?arr ! z)" for z
        using Y(1) len by (cases "z = y") (simp_all add: info_def)
      have rf: "refs_ok ?arr' ((cur s)\<lparr>phy_shared_page := (phy_shared_page (cur s))[i := a]\<rparr> # others)"
        using refs_ok_join [OF D(2) Y(1) _ a0(1), of i] ii pages_okD(2) [OF D(1)] by (simp add: a_def info_def)
      have "shm_ok k' ?arr' (shp_key (sh_table s)) ?p others fs'"
        by (rule shm_ok_attached [OF ok ii(1) key _ rf])
          (use pg D(3-6) in \<open>simp_all add: ad pages_ok_cong [of ?arr' ?arr]\<close>)
      then have good: "shm_good ?s others fs'" by simp
      obtain lk m where rel: "sh_release ?s = Ok (?s\<lparr>sh_table := (sh_table ?s)\<lparr>sh_lock := lk\<rparr>, sh_mach := m\<rparr>)" "lock_free c (lk, m)"
        by (rule shm_unlock [of c ?s]) (use own in simp)
      have "shmget_existing y key s = Ok (Ret (slot_va i), ?s\<lparr>sh_table := (sh_table ?s)\<lparr>sh_lock := lk\<rparr>, sh_mach := m\<rparr>)"
        using True rel(1) by (simp add: shmget_existing_def kx Let_def info_def [symmetric] a_def [symmetric] mp rec)
      then show ?thesis
        using good rel(2) ii y ad by (auto simp: shmget_post_def a_def info_def)
    qed
  qed
qed

lemma used_in_table:
  assumes "refs_ok arr (p # others)" "b \<in> set (phy_shared_page p)" "b \<noteq> 0"
  shows "\<exists>y < SHMEM_PAGES. shmem_addr (arr ! y) = b"
  using refs_okD(5) [OF assms(1,3)] assms(2) by (auto simp: count_list_0_iff)

lemma new_key:
  assumes "key_arg key"
  defines "bs \<equiv> cstr key @ drop (length (cstr key)) (replicate 16 0)"
  shows "length bs = 16" "key_eq key bs" "hd bs \<noteq> 0"
proof -
  show "length bs = 16" using assms by (simp add: key_arg_def)
  show "key_eq key bs" by (simp add: bs_def key_eq_def cstr_padded)
  have "hd (cstr key) \<in> set (cstr key)" using assms by (simp add: key_arg_def)
  from cstr_nonzero [OF this] show "hd bs \<noteq> 0" using assms by (simp add: key_arg_def)
qed

lemma shmget_new_spec:
  assumes ok: "shm_good s others fs" and key: "key_arg key"
    and own: "lock_owned c (sh_lock (sh_table s), sh_mach s)"
    and i: "find_index (\<lambda>a. a = 0) (phy_shared_page (cur s)) = Some i"
    and nk: "find_index (key_eq key) (shp_key (sh_table s)) = None"
    and f: "f < SHMEM_PAGES" "hd (shp_key (sh_table s) ! f) = 0"
  shows "shmget_post c key s others fs (shmget_new (Some f) key s)"
proof -
  note D = shm_okD [OF ok]
  let ?arr = "shp_array (sh_table s)" and ?keys = "shp_key (sh_table s)"
  have f0: "shmem_addr (?arr ! f) = 0" using D(6) [OF f(1)] f(2) by blast
  have ii: "i < SHMEM_PAGES" "phy_shared_page (cur s) ! i = 0"
    using find_index_SomeD [OF i] pages_okD(2) [OF D(1)] by simp_all
  have len: "length ?arr = SHMEM_PAGES" by (rule pages_okD(3) [OF D(1)])
  show ?thesis
  proof (cases fs)
    case Nil
    then have "kalloc (shk s) = (0, shk s)" using wf_spaceD(1) [OF pages_okD(1) [OF D(1)]] kalloc_empty by simp
    then show ?thesis using Nil by (simp add: shmget_new_def shmget_post_def)
  next
    case (Cons a fs1)
    define info where "info = (?arr ! f)\<lparr>shmem_addr := a\<rparr>"
    have info: "shmem_addr info = a" "shmem_counter info = 0"
      using refs_okD(2) [OF D(2) f(1) f0] by (simp_all add: info_def)
    define k1 where "k1 = (shk s)\<lparr>freelist := load32 (kmem_mem (shk s)) a, kmem_mem := memset (kmem_mem (shk s)) a 0 PGSIZE\<rparr>"
    note N = new_shared_page [OF D(1) [unfolded Cons] f(1) f0 used_in_table [OF D(2)] info(1) k1_def]
    define arr1 where "arr1 = ?arr[f := info]"
    define s1 where "s1 = s\<lparr>sh_table := (sh_table s)\<lparr>shp_array := arr1\<rparr>, shk := k1\<rparr>"
    have tab: "shp_key (sh_table s1) = ?keys" "shp_array (sh_table s1) = arr1" by (simp_all add: s1_def)
    have a1: "shmem_addr (arr1 ! f) = a" using f(1) len info(1) by (simp add: arr1_def)
    have p1: "pages_ok (shk s1) (p_pgdir (cur s1)) (phy_shared_page (cur s1)) arr1 fs1"
      using N(5) by (simp add: s1_def arr1_def)
    have sp: "map_shared a s1 = Panic ''Failed to map page.\<newline>'' \<and> fs1 = [] \<or>
      (\<exists>k' fs'. map_shared a s1 = Ok (int i, s1\<lparr>cur := (cur s1)\<lparr>p_top := slot_va i\<rparr>, shk := k'\<rparr>)
        \<and> pages_ok k' (p_pgdir (cur s1)) ((phy_shared_page (cur s1))[i := a]) arr1 fs'
        \<and> pt_step (p_pgdir (cur s1)) (shk s1) fs1 k' fs')"
      by (rule map_shared_spec [OF p1 f(1) a1 N(2)]) (use N(3) i in \<open>simp_all add: s1_def\<close>)
    have st: "shmget_new (Some f) key s = bind_res (map_shared a s1) (\<lambda>(pos, s1).
                     bind_res (key_bytes key) (\<lambda>bs.
                     bind_res (put_key_res (shp_key (sh_table s1)) (int f) bs) (\<lambda>ks.
                     let tab2 = (sh_table s1)\<lparr>shp_key := ks,
                           shp_array := (shp_array (sh_table s1))[f := info\<lparr>shmem_counter := shmem_counter info + 1\<rparr>]\<rparr>
                     in bind_res (record_shared pos a key (cur s1)) (\<lambda>p.
                        bind_res (sh_release (s1\<lparr>sh_table := tab2, cur := p\<rparr>)) (\<lambda>s2. Ok (Ret (p_top p), s2))))))"
      using N(1,2) by (simp add: shmget_new_def Let_def info_def s1_def arr1_def k1_def)
    show ?thesis
    proof (cases "map_shared a s1 = Panic ''Failed to map page.\<newline>''")
      case True
      then have "fs1 = []" using sp by auto
      then show ?thesis using True Cons by (simp add: st shmget_post_def)
    next
      case False
      then obtain k' fs' where mp: "map_shared a s1 = Ok (int i, s1\<lparr>cur := (cur s)\<lparr>p_top := slot_va i\<rparr>, shk := k'\<rparr>)"
        and pg: "pages_ok k' (p_pgdir (cur s)) ((phy_shared_page (cur s))[i := a]) arr1 fs'"
        and stp: "pt_step (p_pgdir (cur s)) k1 fs1 k' fs'"
        using sp by (auto simp: s1_def)
      let ?p = "attached i a key (cur s)"
      let ?bs = "cstr key @ drop (length (cstr key)) (replicate 16 0)"
      let ?keys' = "?keys[f := ?bs]" and ?arr' = "arr1[f := info\<lparr>shmem_counter := shmem_counter info + 1\<rparr>]"
      let ?s = "s1\<lparr>cur := (cur s)\<lparr>p_top := slot_va i\<rparr>, shk := k', sh_table := (sh_table s1)\<lparr>shp_key := ?keys', shp_array := ?arr'\<rparr>, cur := ?p\<rparr>"
      have rec: "record_shared (int i) a key ((cur s)\<lparr>p_top := slot_va i\<rparr>) = Ok ?p"
        using record_shared_eq [OF key ii(1), of "(cur s)\<lparr>p_top := slot_va i\<rparr>"] D(9) by (simp add: attached_def)
      have put: "put_key_res ?keys (int f) (cstr key) = Ok ?keys'"
        using put_key_res_eq [OF key, of f ?keys] f(1) D(3) D(5) [OF f(1) f0] by simp
      have ad: "shmem_addr (?arr' ! z) = shmem_addr (arr1 ! z)" for z
        using f(1) len a1 info(1) by (cases "z = f") (simp_all add: arr1_def)
      have "?arr' = ?arr[f := \<lparr>shmem_addr = a, shmem_counter = 1\<rparr>]" using info by (cases info) (simp add: arr1_def)
      then have rf: "refs_ok ?arr' ((cur s)\<lparr>phy_shared_page := (phy_shared_page (cur s))[i := a]\<rparr> # others)"
        using refs_ok_new [OF D(2) f(1) f0 N(2,4), of i] ii pages_okD(2) [OF D(1)] by simp
      have kz: "if shmem_addr (?arr' ! z) = 0 then ?keys' ! z = replicate 16 0 else hd (?keys' ! z) \<noteq> 0"
        if "z < SHMEM_PAGES" for z
        using that D(5) [of z] D(6) [of z] f(1) new_key(3) [OF key] N(2) a1 len D(3)
        by (cases "z = f") (simp_all add: ad arr1_def)
      have pg': "pages_ok k' (p_pgdir (cur s)) ((phy_shared_page (cur s))[i := a]) ?arr' fs'"
        using pg pages_ok_cong [of ?arr' arr1] ad by simp
      have kn: "length ?keys' = SHMEM_PAGES" using D(3) by simp
      have kl: "\<forall>x \<in> set ?keys'. length x = 16" by (rule ball_list_update [OF D(4) new_key(1) [OF key]])
      have good: "shm_ok k' ?arr' ?keys' ?p others fs'"
        by (rule shm_ok_attached [OF ok ii(1) key pg' rf kn kl]) (use kz in blast)
      obtain lk m where rel: "sh_release ?s = Ok (?s\<lparr>sh_table := (sh_table ?s)\<lparr>sh_lock := lk\<rparr>, sh_mach := m\<rparr>)" "lock_free c (lk, m)"
        by (rule shm_unlock [of c ?s]) (use own in \<open>simp add: s1_def\<close>)
      have res: "shmget_new (Some f) key s = Ok (Ret (slot_va i), ?s\<lparr>sh_table := (sh_table ?s)\<lparr>sh_lock := lk\<rparr>, sh_mach := m\<rparr>)"
        using rel(1) rec put by (simp add: st mp key_bytes_eq [OF key] tab Let_def)
      have fi: "find_index (key_eq key) ?keys' = Some f"
        using nk f(1) D(3) new_key(2) [OF key] by (auto simp: find_index_Some find_index_None nth_list_update)
      have "a \<notin> pt_pages (kmem_mem k1) (p_pgdir (cur s))" "a \<notin> set fs1"
        using pages_okD(6) [OF p1 f(1)] a1 N(2,3) by (auto simp: s1_def held_def)
      then have "agree_page a (kmem_mem k1) (kmem_mem k')" using pt_stepD(6) [OF stp] by blast
      then have z: "\<forall>x. page_of x = a \<longrightarrow> kmem_mem k' x = 0" using N(6) by (simp add: agree_page_def)
      show ?thesis
        unfolding res shmget_post_def
        using good rel(2) ii fi nk z Cons a1 ad [of f] by (simp add: s1_def) blast
    qed
  qed
qed

section \<open>Leaving the pages at exit\<close>

lemma exit_slots_append: "exit_slots i (xs @ ys) = (\<lambda>s. bind_res (exit_slots i xs s) (exit_slots i ys))"
proof (induction xs)
  case (Cons y xs)
  show ?case by (rule ext) (simp add: Cons.IH Let_def bind_res_assoc)
qed simp

lemma exit_slots_skip:
  assumes "\<forall>y \<in> set ys. phy_shared_page (cur s) ! i = shmem_addr (shp_array (sh_table s) ! y) \<longrightarrow>
      shmem_counter (shp_array (sh_table s) ! y) = 0"
  shows "exit_slots i ys s = Ok s"
  using assms by (induction ys) (auto simp: Let_def)

definition detached :: "nat \<Rightarrow> proc \<Rightarrow> proc" where
  "detached i p = p\<lparr>phy_shared_page := (phy_shared_page p)[i := 0]\<rparr>"

lemma detached_simps [simp]:
  "p_pgdir (detached i p) = p_pgdir p" "phy_shared_page (detached i p) = (phy_shared_page p)[i := 0]"
  "vm_shared_page (detached i p) = vm_shared_page p" "p_bitmap (detached i p) = p_bitmap p" "p_key (detached i p) = p_key p"
  by (simp_all add: detached_def)

lemma shm_ok_detached:
  assumes ok: "shm_ok k arr keys p others fs" and i: "i < SHMEM_PAGES"
    and pg: "pages_ok k' (p_pgdir p) ((phy_shared_page p)[i := 0]) arr' fs'"
    and rf: "refs_ok arr' (detached i p # others)"
    and ks: "length keys' = SHMEM_PAGES" "\<forall>x \<in> set keys'. length x = 16"
      "\<forall>y < SHMEM_PAGES. if shmem_addr (arr' ! y) = 0 then keys' ! y = replicate 16 0 else hd (keys' ! y) \<noteq> 0"
  shows "shm_ok k' arr' keys' (detached i p) others fs'"
proof -
  note D = shm_okD [OF ok]
  have len: "length (phy_shared_page p) = SHMEM_PAGES" by (rule pages_okD(2) [OF D(1)])
  show ?thesis
    unfolding shm_ok_def
  proof (intro conjI allI impI)
    fix j assume j: "j < SHMEM_PAGES" "phy_shared_page (detached i p) ! j \<noteq> 0"
    then have "phy_shared_page p ! j \<noteq> 0" using len by (cases "j = i") auto
    then show "p_bitmap (detached i p) ! j = 1" "vm_shared_page (detached i p) ! j = slot_va j"
      using D(11,12) [OF j(1)] by simp_all
  next
    show "if shmem_addr (arr' ! y) = 0 then keys' ! y = replicate 16 0 else hd (keys' ! y) \<noteq> 0"
      if "y < SHMEM_PAGES" for y using ks(3) that by blast
  qed (use rf pg ks(1,2) D(7-10) in \<open>simp_all only: detached_simps\<close>)
qed

text \<open>The table slot of the page loses one user; the last user frees the page.\<close>

lemma exit_slot_spec:
  assumes ok: "shm_good s others fs" and i: "i < SHMEM_PAGES" "phy_shared_page (cur s) ! i = a" "a \<noteq> 0"
    and y: "y < SHMEM_PAGES" "shmem_addr (shp_array (sh_table s) ! y) = a"
  shows "\<exists>s' fs'. exit_slots i [y] s = Ok s' \<and> shm_good s' others fs' \<and> cur s' = detached i (cur s)
    \<and> sh_lock (sh_table s') = sh_lock (sh_table s) \<and> sh_mach s' = sh_mach s
    \<and> fs' = (if shmem_counter (shp_array (sh_table s) ! y) = 1 then a # fs else fs)"
proof -
  note D = shm_okD [OF ok]
  let ?arr = "shp_array (sh_table s)" and ?keys = "shp_key (sh_table s)" and ?p = "cur s" and ?k = "shk s"
  define info where "info = ?arr ! y"
  have len: "length (phy_shared_page ?p) = SHMEM_PAGES" "length ?arr = SHMEM_PAGES"
    by (rule pages_okD(2) [OF D(1)], rule pages_okD(3) [OF D(1)])
  have cnt: "0 < shmem_counter info" using refs_okD(3) [OF D(2) y(1)] y(2) i(3) by (simp add: info_def)
  have vm: "vm_shared_page ?p ! i = slot_va i" using D(12) [OF i(1)] i(2,3) by simp
  have uniq: "shmem_addr (?arr ! z) \<noteq> a" if "z < SHMEM_PAGES" "z \<noteq> y" for z
    using refs_okD(4) [OF D(2) y(1) that(1)] y(2) i(3) that(2) by auto
  have al: "page_aligned a" using pages_okD(5) [OF D(1) y(1)] y(2) i(3) usable_page_aligned by auto
  let ?loc = "pte_loc (kmem_mem ?k) (p_pgdir ?p) (slot_va i)"
  note P = pages_ok_pte [OF D(1) i(1), unfolded i(2), OF i(3)]
  have rf: "refs_ok (?arr[y := if shmem_counter info = 1 then empty_info
      else info\<lparr>shmem_counter := shmem_counter info - 1\<rparr>]) (detached i ?p # others)"
    unfolding detached_def info_def by (rule refs_ok_leave [OF D(2) y i(3)]) (use i len in simp_all)
  show ?thesis
  proof (cases "shmem_counter info = 1")
    case True
    obtain k1 where k1: "kfree a ?k = Ok k1" "walkpgdir (p_pgdir ?p) (slot_va i) False k1 = (?loc, k1)"
      "pages_ok (k1\<lparr>kmem_mem := store32 (kmem_mem k1) ?loc 0\<rparr>) (p_pgdir ?p)
        ((phy_shared_page ?p)[i := 0]) (?arr[y := empty_info]) (a # fs)"
      using detach_last [OF D(1) i y uniq] by blast
    let ?k2 = "k1\<lparr>kmem_mem := store32 (kmem_mem k1) ?loc 0\<rparr>"
    have kz: "\<forall>z < SHMEM_PAGES. if shmem_addr (?arr[y := empty_info] ! z) = 0
        then ?keys[y := replicate 16 0] ! z = replicate 16 0 else hd (?keys[y := replicate 16 0] ! z) \<noteq> 0"
    proof (intro allI impI)
      fix z assume z: "z < SHMEM_PAGES"
      show "if shmem_addr (?arr[y := empty_info] ! z) = 0
        then ?keys[y := replicate 16 0] ! z = replicate 16 0 else hd (?keys[y := replicate 16 0] ! z) \<noteq> 0"
        using D(5,6) [OF z] D(3) len(2) y(1) by (cases "z = y") (simp_all add: empty_info_def)
    qed
    have kn: "length (?keys[y := replicate 16 0]) = SHMEM_PAGES" using D(3) by simp
    have kl: "\<forall>x \<in> set (?keys[y := replicate 16 0]). length x = 16" by (rule ball_list_update [OF D(4)]) simp
    have "shm_ok ?k2 (?arr[y := empty_info]) (?keys[y := replicate 16 0]) (detached i ?p) others (a # fs)"
      by (rule shm_ok_detached [OF ok i(1) k1(3) _ kn kl kz]) (use rf True in simp)
    moreover have "exit_slots i [y] s = Ok (set_phy i 0 (set_info y empty_info (s\<lparr>shk := k1,
         sh_table := (sh_table s)\<lparr>shp_key := ?keys[y := replicate 16 0]\<rparr>\<rparr>))\<lparr>shk := ?k2\<rparr>)"
      using True i(2) y(2) k1(1,2) P(2) vm
      by (simp add: Let_def info_def free_slot_def clear_pte_def set_phy_def set_info_def)
    ultimately show ?thesis using True by (simp add: set_phy_def set_info_def detached_def info_def)
  next
    case False
    let ?k2 = "?k\<lparr>kmem_mem := store32 (kmem_mem ?k) ?loc 0\<rparr>"
    let ?arr' = "?arr[y := info\<lparr>shmem_counter := shmem_counter info - 1\<rparr>]"
    have ad: "shmem_addr (?arr' ! z) = shmem_addr (?arr ! z)" for z
      using len(2) y(1) by (cases "z = y") (simp_all add: info_def)
    have "pages_ok ?k2 (p_pgdir ?p) ((phy_shared_page ?p)[i := 0]) ?arr fs"
      by (rule detach_page [OF D(1) i(1) _ refl]) (use i al in simp_all)
    then have pg: "pages_ok ?k2 (p_pgdir ?p) ((phy_shared_page ?p)[i := 0]) ?arr' fs"
      using pages_ok_cong [of ?arr' ?arr] ad by simp
    have "shm_ok ?k2 ?arr' ?keys (detached i ?p) others fs"
      by (rule shm_ok_detached [OF ok i(1) pg]) (use rf False D(3,4,5,6) ad in simp_all)
    moreover have "exit_slots i [y] s = Ok (set_phy i 0 (set_info y (info\<lparr>shmem_counter := shmem_counter info - 1\<rparr>) s)\<lparr>shk := ?k2\<rparr>)"
      using False cnt i(2) y(2) P(1,2) vm
      by (simp add: Let_def info_def clear_pte_def set_phy_def set_info_def)
    ultimately show ?thesis using False by (simp add: set_phy_def set_info_def detached_def info_def)
  qed
qed

lemma one_slot:
  assumes "pages_ok k pgdir phy arr fs" "i < SHMEM_PAGES" "phy ! i \<noteq> 0"
  shows "count_list phy (phy ! i) = 1"
proof -
  have "{j. j < length phy \<and> phy ! i = phy ! j} = {i}"
    using pages_ok_distinct [OF assms(1,2) _ _ assms(3)] pages_okD(2) [OF assms(1)] assms(2) by auto
  then show ?thesis by (simp add: count_list_eq_length_filter length_filter_conv_card)
qed

lemma exit_slots_all:
  assumes ok: "shm_good s others fs" and i: "i < SHMEM_PAGES"
  shows "\<exists>s' fs'. exit_slots i [0..<SHMEM_PAGES] s = Ok s' \<and> shm_good s' others fs' \<and> cur s' = detached i (cur s)
    \<and> sh_lock (sh_table s') = sh_lock (sh_table s) \<and> sh_mach s' = sh_mach s \<and> set fs \<subseteq> set fs'
    \<and> (phy_shared_page (cur s) ! i \<noteq> 0 \<longrightarrow> users (phy_shared_page (cur s) ! i) others = 0 \<longrightarrow>
         phy_shared_page (cur s) ! i \<in> set fs')"
proof -
  note D = shm_okD [OF ok]
  let ?phy = "phy_shared_page (cur s)"
  have zero: "exit_slots i ys s' = Ok s'" if "shm_good s' others fs'" "phy_shared_page (cur s') ! i = 0"
    "set ys \<subseteq> {0..<SHMEM_PAGES}" for s' fs' ys
    by (rule exit_slots_skip) (use that refs_okD(2) [OF shm_okD(2) [OF that(1)]] in auto)
  show ?thesis
  proof (cases "?phy ! i = 0")
    case True
    then have "detached i (cur s) = cur s" using list_update_id [of ?phy i] by (simp add: detached_def)
    then show ?thesis using zero [OF ok True] ok True by auto
  next
    case False
    have len: "length ?phy = SHMEM_PAGES" by (rule pages_okD(2) [OF D(1)])
    obtain y where y: "y < SHMEM_PAGES" "shmem_addr (shp_array (sh_table s) ! y) = ?phy ! i"
      using used_in_table [OF D(2) _ False] i len by auto
    have split: "[0..<SHMEM_PAGES] = [0..<y] @ [y] @ [Suc y..<SHMEM_PAGES]"
      using upt_add_eq_append [of 0 y "SHMEM_PAGES - y"] upt_conv_Cons [OF y(1)] y(1)
      by (simp only: le_add_diff_inverse less_imp_le append_Cons append_Nil le0)
    have skip: "exit_slots i [0..<y] s = Ok s"
      by (rule exit_slots_skip) (use refs_okD(4) [OF D(2) y(1)] y False in \<open>metis atLeastLessThan_iff less_trans nat_neq_iff set_upt\<close>)
    obtain s' fs' where s': "exit_slots i [y] s = Ok s'" "shm_good s' others fs'" "cur s' = detached i (cur s)"
      "sh_lock (sh_table s') = sh_lock (sh_table s)" "sh_mach s' = sh_mach s"
      "fs' = (if shmem_counter (shp_array (sh_table s) ! y) = 1 then ?phy ! i # fs else fs)"
      using exit_slot_spec [OF ok i refl False y] by blast
    have "?phy ! i \<in> set fs'" if "users (?phy ! i) others = 0"
      using s'(6) refs_okD(3) [OF D(2) y(1)] y(2) False that one_slot [OF D(1) i False] by simp
    moreover have "set fs \<subseteq> set fs'" using s'(6) by auto
    ultimately have fs': "set fs \<subseteq> set fs'" "users (?phy ! i) others = 0 \<longrightarrow> ?phy ! i \<in> set fs'" by blast+
    have "phy_shared_page (cur s') ! i = 0" using s'(3) i len by simp
    then have "exit_slots i [Suc y..<SHMEM_PAGES] s' = Ok s'" by (intro zero [OF s'(2)]) auto
    then have "exit_slots i [0..<SHMEM_PAGES] s = Ok s'"
      unfolding split exit_slots_append by (simp only: skip s'(1) bind_res_simps)
    then show ?thesis using s'(2-5) fs' by (intro exI [of _ s'] exI [of _ fs']) simp
  qed
qed

lemma exit_pages_spec:
  assumes "shm_good s others fs" "set is \<subseteq> {0..<SHMEM_PAGES}"
  shows "\<exists>s' fs'. exit_pages is s = Ok s' \<and> shm_good s' others fs' \<and> p_pgdir (cur s') = p_pgdir (cur s)
    \<and> (\<forall>j < SHMEM_PAGES. phy_shared_page (cur s') ! j = (if j \<in> set is then 0 else phy_shared_page (cur s) ! j))
    \<and> sh_lock (sh_table s') = sh_lock (sh_table s) \<and> sh_mach s' = sh_mach s \<and> set fs \<subseteq> set fs'
    \<and> (\<forall>j \<in> set is. phy_shared_page (cur s) ! j \<noteq> 0 \<longrightarrow> users (phy_shared_page (cur s) ! j) others = 0 \<longrightarrow>
         phy_shared_page (cur s) ! j \<in> set fs')"
  using assms
proof (induction "is" arbitrary: s fs)
  case Nil
  then show ?case by auto
next
  case (Cons i "is")
  have i: "i < SHMEM_PAGES" and sub: "set is \<subseteq> {0..<SHMEM_PAGES}" using Cons.prems(2) by simp_all
  have len: "length (phy_shared_page (cur s)) = SHMEM_PAGES" by (rule pages_okD(2) [OF shm_okD(1) [OF Cons.prems(1)]])
  obtain s1 fs1 where s1: "(if p_bitmap (cur s) ! i = 1 then exit_slots i [0..<SHMEM_PAGES] s else Ok s) = Ok s1"
    "shm_good s1 others fs1" "cur s1 = detached i (cur s)" "sh_lock (sh_table s1) = sh_lock (sh_table s)"
    "sh_mach s1 = sh_mach s" "set fs \<subseteq> set fs1"
    "phy_shared_page (cur s) ! i \<noteq> 0 \<longrightarrow> users (phy_shared_page (cur s) ! i) others = 0 \<longrightarrow>
       phy_shared_page (cur s) ! i \<in> set fs1"
  proof (cases "p_bitmap (cur s) ! i = 1")
    case True
    then show ?thesis using that exit_slots_all [OF Cons.prems(1) i] by (elim exE conjE) simp
  next
    case False
    then have "phy_shared_page (cur s) ! i = 0" using shm_okD(11) [OF Cons.prems(1) i] by blast
    moreover from this have "detached i (cur s) = cur s" using list_update_id [of "phy_shared_page (cur s)" i] by (simp add: detached_def)
    ultimately show ?thesis using that [of s fs] False Cons.prems(1) by simp
  qed
  have "exit_pages (i # is) s = exit_pages is s1" using s1(1) by (auto split: if_splits)
  moreover obtain s2 fs2 where s2: "exit_pages is s1 = Ok s2" "shm_good s2 others fs2" "p_pgdir (cur s2) = p_pgdir (cur s1)"
    "\<forall>j < SHMEM_PAGES. phy_shared_page (cur s2) ! j = (if j \<in> set is then 0 else phy_shared_page (cur s1) ! j)"
    "sh_lock (sh_table s2) = sh_lock (sh_table s1)" "sh_mach s2 = sh_mach s1" "set fs1 \<subseteq> set fs2"
    "\<forall>j \<in> set is. phy_shared_page (cur s1) ! j \<noteq> 0 \<longrightarrow> users (phy_shared_page (cur s1) ! j) others = 0 \<longrightarrow>
         phy_shared_page (cur s1) ! j \<in> set fs2"
    using Cons.IH [OF s1(2) sub] by blast
  moreover have "phy_shared_page (cur s) ! j \<in> set fs2" if "j \<in> set (i # is)" "phy_shared_page (cur s) ! j \<noteq> 0"
    "users (phy_shared_page (cur s) ! j) others = 0" for j
    using that s1(3,7) s2(7,8) i len by (cases "j = i") auto
  ultimately show ?case
    using s1(3-6) i len by (intro exI [of _ s2] exI [of _ fs2]) (auto simp: nth_list_update)
qed

lemma map_option_plus_0: "map_option ((+) (0 :: nat)) x = x"
  by (cases x) simp_all

section \<open>Properties\<close>

lemma shmget_spec:
  assumes "shm_good s others fs" "lock_free c (sh_lock (sh_table s), sh_mach s)" "key_arg key"
    and "0 \<in> set (phy_shared_page (cur s))" "find_index (key_eq key) (p_key (cur s)) = None"
    and "\<forall>y. find_index (key_eq key) (shp_key (sh_table s)) = Some y \<longrightarrow>
      shmem_addr (shp_array (sh_table s) ! y) \<notin> set (phy_shared_page (cur s))"
  shows "shmget_post c key s others fs (shmget kv key s)"
proof -
  note D = shm_okD [OF assms(1)]
  obtain lk m where a: "sh_acquire kv s = Ok (s\<lparr>sh_table := (sh_table s)\<lparr>sh_lock := lk\<rparr>, sh_mach := m\<rparr>)" "lock_owned c (lk, m)"
    by (rule shm_lock [OF assms(2)])
  let ?s = "s\<lparr>sh_table := (sh_table s)\<lparr>sh_lock := lk\<rparr>, sh_mach := m\<rparr>" and ?keys = "shp_key (sh_table s)"
  obtain i where i: "find_index (\<lambda>a. a = 0) (phy_shared_page (cur ?s)) = Some i"
    using assms(4) find_index_None [of "\<lambda>a. a = 0" "phy_shared_page (cur ?s)"] by auto
  have key: "16 \<le> length key" "cstr key \<noteq> []" using assms(3) by (simp_all add: key_arg_def)
  obtain ff where sc: "shm_scan ?keys key 0 None = Ok (find_index (key_eq key) ?keys, ff)"
    "find_index (key_eq key) ?keys = None \<Longrightarrow> ff = find_index (\<lambda>k. hd k = 0) ?keys"
    using shm_scan_eq [OF D(4) key, of 0 None] by (auto simp: map_option_plus_0 option.map_ident)
  have ok: "shm_good ?s others fs" "lock_owned c (sh_lock (sh_table ?s), sh_mach ?s)" using assms(1) a(2) by simp_all
  have eq: "shmget_post c key s others fs res = shmget_post c key ?s others fs res" for res
    unfolding shmget_post_def by (cases res; simp split: prod.split shm_ret.split cong: option.case_cong)
  show ?thesis
  proof (cases "find_index (key_eq key) ?keys")
    case (Some y)
    then show ?thesis
      using shmget_existing_spec [OF ok(1) assms(3) ok(2) i, of y] assms(5,6) a(1) sc(1)
      by (simp add: shmget_def eq)
  next
    case None
    show ?thesis
    proof (cases ff)
      case (Some f)
      then have "f < SHMEM_PAGES" "hd (?keys ! f) = 0" using sc(2) [OF None] D(3) by (auto dest: find_index_SomeD)
      then show ?thesis
        using shmget_new_spec [OF ok(1) assms(3) ok(2) i, of f] None Some a(1) sc(1) by (simp add: shmget_def eq)
    next
      case ff: None
      then have "\<forall>k \<in> set ?keys. hd k \<noteq> 0" using sc(2) [OF None] by (simp add: find_index_None)
      moreover have "hd (?keys ! y) = 0" if "y < SHMEM_PAGES" "shmem_addr (shp_array (sh_table s) ! y) = 0" for y
        using D(5) [OF that] by simp
      ultimately have "\<forall>y < SHMEM_PAGES. shmem_addr (shp_array (sh_table s) ! y) \<noteq> 0"
        using D(3) by (metis nth_mem)
      then show ?thesis using None ff a sc(1) by (simp add: shmget_def shmget_new_def shmget_post_def)
    qed
  qed
qed

text \<open>C3: \<open>shmget\<close> gives the calling process the page of the key. From a state where the counters agree with the processes, for a process that does not have the
  key and has a free slot, \<open>shmget\<close> maps one page, writable by the user, at the address it returns and keeps the counters right and the lock free: the page that
  other processes have under the key if there is one, a free page filled with zeros otherwise. It ends the process, with the lock still held, only if the key
  is new and all 32 slots are taken, and panics only if memory is out or the page has 16 users.\<close>

theorem shmget_correct:
  assumes "shm_good s others fs" "lock_free c (sh_lock (sh_table s), sh_mach s)" "key_arg key"
    and "0 \<in> set (phy_shared_page (cur s))" "find_index (key_eq key) (p_key (cur s)) = None"
    and "\<forall>y. find_index (key_eq key) (shp_key (sh_table s)) = Some y \<longrightarrow>
      shmem_addr (shp_array (sh_table s) ! y) \<notin> set (phy_shared_page (cur s))"
  shows "shmget_post c key s others fs (shmget kv key s)"
  using assms by (rule shmget_spec)

text \<open>A machine with an empty table of shared pages, for the examples.\<close>

definition small_shm :: shm_state where
  "small_shm = \<lparr>shk = small_kmem, sh_table = \<lparr>sh_lock = free_lock, shp_array = replicate SHMEM_PAGES empty_info,
     shp_key = replicate SHMEM_PAGES (replicate 16 0)\<rparr>, sh_mach = one_cpu, cur = idle_proc\<lparr>p_pgdir := 0x80400000\<rparr>\<rparr>"

lemma idle_proc_shared [simp]:
  "phy_shared_page idle_proc = replicate SHMEM_PAGES 0" "vm_shared_page idle_proc = replicate SHMEM_PAGES 0"
  "p_bitmap idle_proc = replicate SHMEM_PAGES 0" "p_key idle_proc = replicate SHMEM_PAGES (replicate 16 0)"
  by (simp_all add: idle_proc_def SHMEM_PAGES_def)

lemma small_shm_fields [simp]:
  "shk small_shm = small_kmem" "shp_array (sh_table small_shm) = replicate SHMEM_PAGES empty_info"
  "shp_key (sh_table small_shm) = replicate SHMEM_PAGES (replicate 16 0)" "p_pgdir (cur small_shm) = 0x80400000"
  "phy_shared_page (cur small_shm) = replicate SHMEM_PAGES 0" "vm_shared_page (cur small_shm) = replicate SHMEM_PAGES 0"
  "p_bitmap (cur small_shm) = replicate SHMEM_PAGES 0" "p_key (cur small_shm) = replicate SHMEM_PAGES (replicate 16 0)"
  by (simp_all add: small_shm_def)

lemma small_shm_lock: "lock_free 0 (sh_lock (sh_table small_shm), sh_mach small_shm)"
  by (simp add: small_shm_def lock_free_def one_cpu_at free_lock_def)

lemma count_list_replicate: "count_list (replicate n x) a = (if x = a then n else 0)"
  by (induction n) auto

lemma small_shm_ok: "shm_good small_shm [] [0x80401000]"
proof -
  have "pages_ok small_kmem 0x80400000 (replicate SHMEM_PAGES 0) (replicate SHMEM_PAGES empty_info) [0x80401000]"
    by (simp add: pages_ok_def small_kmem_ok empty_info_def)
  moreover have "refs_ok (replicate SHMEM_PAGES empty_info) [cur small_shm]"
    by (simp add: refs_ok_def empty_info_def count_list_replicate users_def)
  ultimately show ?thesis
    unfolding shm_ok_def by (simp add: empty_info_def)
qed

abbreviation key_a :: "byte list" where
  "key_a \<equiv> 97 # replicate 15 0"

lemma cstr_zeros [simp]: "cstr (replicate n 0) = []"
  by (simp add: cstr_def)

lemma key_a_arg: "key_arg key_a"
  by (simp add: key_arg_def)

lemma key_a_new: "find_index (key_eq key_a) (replicate n (replicate 16 0)) = None"
  by (simp add: find_index_None key_eq_def)

theorem shmget_correct_witness:
  "shmget_post 0 key_a small_shm [] [0x80401000] (shmget (\<lambda>_. 0, 0x80200000) key_a small_shm)"
  by (rule shmget_correct [OF small_shm_ok small_shm_lock key_a_arg])
    (simp_all add: key_a_new SHMEM_PAGES_def)

text \<open>C4: at exit a process gives back all its shared pages. \<open>shmrem\<close> called with the key of \<open>exit\<close> unmaps every shared page of the process and
  counts it out; a page with other users stays in the table and is not freed, a page without is on the free list afterwards.\<close>

theorem shmrem_exit_correct:
  assumes "shm_good s others fs" "lock_free c (sh_lock (sh_table s), sh_mach s)" "memcmp key lit 16 = Some 0"
  shows "\<exists>s' fs'. shmrem lit kv key s = Ok (1, s') \<and> shm_good s' others fs' \<and> lock_free c (sh_lock (sh_table s'), sh_mach s')
    \<and> (\<forall>i < SHMEM_PAGES. phy_shared_page (cur s') ! i = 0 \<and> vmap (kmem_mem (shk s')) (p_pgdir (cur s)) (slot_va i) = None)
    \<and> (\<forall>a \<in> set (phy_shared_page (cur s)). a \<noteq> 0 \<longrightarrow>
         (if users a others = 0 then a \<in> set fs' else a \<notin> set fs'
            \<and> (\<exists>y < SHMEM_PAGES. shp_array (sh_table s') ! y = \<lparr>shmem_addr = a, shmem_counter = int (users a others)\<rparr>)))"
proof -
  obtain lk m where a: "sh_acquire kv s = Ok (s\<lparr>sh_table := (sh_table s)\<lparr>sh_lock := lk\<rparr>, sh_mach := m\<rparr>)" "lock_owned c (lk, m)"
    by (rule shm_lock [OF assms(2)])
  let ?s = "s\<lparr>sh_table := (sh_table s)\<lparr>sh_lock := lk\<rparr>, sh_mach := m\<rparr>"
  have g: "shm_good ?s others fs" using assms(1) by simp
  obtain s1 fs' where s1: "exit_pages [0..<SHMEM_PAGES] ?s = Ok s1" "shm_good s1 others fs'" "p_pgdir (cur s1) = p_pgdir (cur s)"
    "\<forall>j < SHMEM_PAGES. phy_shared_page (cur s1) ! j = (if j \<in> set [0..<SHMEM_PAGES] then 0 else phy_shared_page (cur ?s) ! j)"
    "sh_lock (sh_table s1) = lk" "sh_mach s1 = m"
    "\<forall>j \<in> set [0..<SHMEM_PAGES]. phy_shared_page (cur s) ! j \<noteq> 0 \<longrightarrow> users (phy_shared_page (cur s) ! j) others = 0 \<longrightarrow>
         phy_shared_page (cur s) ! j \<in> set fs'"
    using exit_pages_spec [OF g, of "[0..<SHMEM_PAGES]"] by auto
  obtain lk' m' where r: "sh_release s1 = Ok (s1\<lparr>sh_table := (sh_table s1)\<lparr>sh_lock := lk'\<rparr>, sh_mach := m'\<rparr>)" "lock_free c (lk', m')"
    by (rule shm_unlock [of c s1]) (use s1(5,6) a(2) in simp)
  let ?s' = "s1\<lparr>sh_table := (sh_table s1)\<lparr>sh_lock := lk'\<rparr>, sh_mach := m'\<rparr>"
  note D = shm_okD [OF assms(1)] and D1 = shm_okD [OF s1(2)]
  have z: "phy_shared_page (cur s1) ! i = 0" if "i < SHMEM_PAGES" for i using s1(4) that by simp
  have vm: "vmap (kmem_mem (shk s1)) (p_pgdir (cur s)) (slot_va i) = None" if "i < SHMEM_PAGES" for i
    using pages_okD(4) [OF D1(1) that] z [OF that] s1(3) by simp
  have u: "users b (cur s1 # others) = users b others" if "b \<noteq> 0" for b
    using that z pages_okD(2) [OF D1(1)] by (auto simp: count_list_0_iff in_set_conv_nth)
  have "a \<in> set fs'" if "a \<in> set (phy_shared_page (cur s))" "a \<noteq> 0" "users a others = 0" for a
    using that s1(7) pages_okD(2) [OF D(1)] by (auto simp: in_set_conv_nth)
  moreover have "a \<notin> set fs' \<and> (\<exists>y < SHMEM_PAGES. shp_array (sh_table s1) ! y = \<lparr>shmem_addr = a, shmem_counter = int (users a others)\<rparr>)"
    if nz: "a \<noteq> 0" "users a others \<noteq> 0" for a
  proof -
    have "users a (cur s1 # others) \<noteq> 0" using nz u by metis
    then obtain y where y: "y < SHMEM_PAGES" "shmem_addr (shp_array (sh_table s1) ! y) = a"
      using refs_okD(5) [OF D1(2) nz(1)] by blast
    have "a \<notin> set (phy_shared_page (cur s1))" using nz(1) z pages_okD(2) [OF D1(1)] by (auto simp: in_set_conv_nth)
    then have "a \<notin> set fs'" using pages_okD(6) [OF D1(1) y(1)] y(2) nz(1) by (auto simp: held_def)
    moreover have "shmem_counter (shp_array (sh_table s1) ! y) = int (users a others)"
      using refs_okD(3) [OF D1(2) y(1)] y(2) nz(1) u by metis
    ultimately show ?thesis using y by (cases "shp_array (sh_table s1) ! y") auto
  qed
  moreover have "shmrem lit kv key s = Ok (1, ?s')" using a(1) assms(3) s1(1) r(1) by (simp add: shmrem_def)
  ultimately show ?thesis
    using s1(2) r(2) z vm by (intro exI [of _ ?s'] exI [of _ fs']) simp
qed

theorem shmrem_exit_correct_witness:
  "\<exists>s' fs'. shmrem key_a (\<lambda>_. 0, 0x80200000) key_a small_shm = Ok (1, s') \<and> shm_good s' [] fs'"
  using shmrem_exit_correct [OF small_shm_ok small_shm_lock, of key_a key_a "(\<lambda>_. 0, 0x80200000)"]
  by (auto simp: memcmp_zero_iff)

lemma count_child_eq:
  assumes "y \<in> set ys" "shmem_addr (arr ! y) = a" "shmem_counter (arr ! y) \<noteq> 16"
    "\<And>z. z \<in> set ys \<Longrightarrow> z \<noteq> y \<Longrightarrow> shmem_addr (arr ! z) \<noteq> a"
  shows "count_child a ys arr = (False, arr[y := (arr ! y)\<lparr>shmem_counter := shmem_counter (arr ! y) + 1\<rparr>])"
  using assms by (induction ys) auto

text \<open>The child has the pages of the parent at the slots already done.\<close>

definition fork_inv :: "nat list \<Rightarrow> proc \<Rightarrow> proc \<Rightarrow> shm_info list \<Rightarrow> kmem \<Rightarrow> proc list \<Rightarrow> addr list \<Rightarrow> bool" where
  "fork_inv is p c arr k others fs \<longleftrightarrow> pages_ok k (p_pgdir c) (phy_shared_page c) arr fs \<and> refs_ok arr (c # p # others)
     \<and> length (p_bitmap c) = SHMEM_PAGES
     \<and> (\<forall>j < SHMEM_PAGES. phy_shared_page c ! j = (if j \<in> set is then 0 else phy_shared_page p ! j))
     \<and> (\<forall>j < SHMEM_PAGES. p_bitmap c ! j = (if j \<in> set is then 0 else p_bitmap p ! j))
     \<and> (\<forall>j \<in> set is. phy_shared_page p ! j \<noteq> 0 \<longrightarrow> users (phy_shared_page p ! j) (c # p # others) < 16)"

definition parent_pages_ok :: "proc \<Rightarrow> bool" where
  "parent_pages_ok p \<longleftrightarrow> length (phy_shared_page p) = SHMEM_PAGES
     \<and> (\<forall>i < SHMEM_PAGES. if phy_shared_page p ! i = 0 then p_bitmap p ! i = 0 else p_bitmap p ! i = 1)
     \<and> (\<forall>i < SHMEM_PAGES. \<forall>j < SHMEM_PAGES. phy_shared_page p ! i \<noteq> 0 \<longrightarrow> phy_shared_page p ! i = phy_shared_page p ! j \<longrightarrow> i = j)"

lemma manage_fork_spec:
  assumes "fork_inv is p c arr k others fs" "parent_pages_ok p" "distinct is" "set is \<subseteq> {0..<SHMEM_PAGES}"
  shows "manage_fork is p c arr k = Panic ''Manage Fork\<newline>'' \<or>
    (\<exists>c' arr' k' fs'. manage_fork is p c arr k = Ok (False, c', arr', k') \<and> fork_inv [] p c' arr' k' others fs'
      \<and> p_pgdir c' = p_pgdir c)"
  using assms
proof (induction "is" arbitrary: c arr k fs)
  case Nil
  then show ?case by auto
next
  case (Cons i "is")
  let ?a = "phy_shared_page p ! i"
  have i: "i < SHMEM_PAGES" "i \<notin> set is" "distinct is" "set is \<subseteq> {0..<SHMEM_PAGES}" using Cons.prems by auto
  note I = Cons.prems(1) [unfolded fork_inv_def]
  have pp: "if ?a = 0 then p_bitmap p ! i = 0 else p_bitmap p ! i = 1" using Cons.prems(2) i(1) by (simp add: parent_pages_ok_def)
  have c0: "phy_shared_page c ! i = 0" "p_bitmap c ! i = 0" using I i(1) by simp_all
  show ?case
  proof (cases "?a = 0")
    case True
    then have "fork_inv is p c arr k others fs" using I pp c0 i(1) by (auto simp: fork_inv_def)
    then show ?thesis using Cons.IH [OF _ Cons.prems(2) i(3,4)] True pp by simp
  next
    case a0: False
    have pg: "pages_ok k (p_pgdir c) (phy_shared_page c) arr fs" and rf: "refs_ok arr (c # p # others)" using I by blast+
    have lc: "length (phy_shared_page c) = SHMEM_PAGES" "length (p_bitmap c) = SHMEM_PAGES" using pages_okD(2) [OF pg] I by simp_all
    have lp: "length (phy_shared_page p) = SHMEM_PAGES" using Cons.prems(2) by (simp add: parent_pages_ok_def)
    have ucp: "users ?a (c # p # others) \<noteq> 0" using lp i(1) by (auto simp: count_list_0_iff)
    obtain y where y: "y < SHMEM_PAGES" "shmem_addr (arr ! y) = ?a" using refs_okD(5) [OF rf a0 ucp] by blast
    have na: "?a \<notin> set (phy_shared_page c)"
    proof
      assume "?a \<in> set (phy_shared_page c)"
      then obtain j where j: "j < SHMEM_PAGES" "phy_shared_page c ! j = ?a" using lc by (auto simp: in_set_conv_nth)
      then have "j \<notin> set (i # is)" "phy_shared_page p ! j = ?a" using I a0 by (auto split: if_splits)
      then show False using Cons.prems(2) i(1) j(1) a0 by (auto simp: parent_pages_ok_def)
    qed
    have lt: "shmem_counter (arr ! y) \<noteq> 16" using refs_okD(3) [OF rf y(1)] y(2) a0 I by auto
    have uniq: "shmem_addr (arr ! z) \<noteq> ?a" if "z < SHMEM_PAGES" "z \<noteq> y" for z
      using refs_okD(4) [OF rf y(1) that(1)] y(2) a0 that(2) by auto
    obtain r k1 fs1 where m: "mappages (p_pgdir c) (slot_va i) PGSIZE (V2P ?a) (PTE_W OR PTE_U) k = Ok (r, k1)"
      "r = 0 \<and> pages_ok k1 (p_pgdir c) ((phy_shared_page c)[i := ?a]) arr fs1 \<or> r = -1"
      using attach_page [OF pg y a0 na i(1) c0(1)] by blast
    define c1 where "c1 = c\<lparr>phy_shared_page := (phy_shared_page c)[i := ?a],
                      vm_shared_page := (vm_shared_page c)[i := vm_shared_page p ! i],
                      p_key := (p_key c)[i := take 16 (p_key p ! i)], p_bitmap := (p_bitmap c)[i := 1]\<rparr>"
    define arr1 where "arr1 = arr[y := (arr ! y)\<lparr>shmem_counter := shmem_counter (arr ! y) + 1\<rparr>]"
    have cc: "count_child (phy_shared_page c1 ! i) [0..<SHMEM_PAGES] arr = (False, arr1)"
      using count_child_eq [of y "[0..<SHMEM_PAGES]" arr ?a] y lt uniq i(1) lc(1) by (simp add: c1_def arr1_def)
    have st: "manage_fork (i # is) p c arr k = (if r < 0 then Panic ''Manage Fork\<newline>'' else manage_fork is p c1 arr1 k1)"
      using pp a0 c0(2) m(1) cc by (simp add: slot_va_fork c1_def [symmetric] Let_def)
    show ?thesis
    proof (cases "r = 0")
      case True
      have ad: "shmem_addr (arr1 ! z) = shmem_addr (arr ! z)" for z
        using y(1) refs_okD(1) [OF rf] by (cases "z = y") (simp_all add: arr1_def)
      have "refs_ok arr1 (c\<lparr>phy_shared_page := (phy_shared_page c)[i := ?a]\<rparr> # p # others)"
        unfolding arr1_def by (rule refs_ok_join [OF rf y a0]) (use i c0 lc in simp_all)
      then have rf1: "refs_ok arr1 (c1 # p # others)" by (rule refs_ok_cong [THEN iffD1, rotated]) (simp add: c1_def)
      have pg1: "pages_ok k1 (p_pgdir c1) (phy_shared_page c1) arr1 fs1"
        using m(2) True pages_ok_cong [of arr1 arr, OF _ ad] by (simp add: c1_def arr1_def)
      have us: "users b (c1 # p # others) = users b (c # p # others)" if "b \<noteq> 0" "b \<noteq> ?a" for b
        using users_set_phy [of i c ?a b "p # others"] c0(1) lc(1) i(1) that a0 by (simp add: c1_def)
      have u1: "users (phy_shared_page p ! j) (c1 # p # others) < 16" if "j \<in> set is" "phy_shared_page p ! j \<noteq> 0" for j
      proof -
        have "j < SHMEM_PAGES" "j \<noteq> i" using that(1) i(2,4) by auto
        then have "phy_shared_page p ! j \<noteq> ?a" using that(2) i(1) Cons.prems(2) unfolding parent_pages_ok_def by blast
        then have "users (phy_shared_page p ! j) (c1 # p # others) = users (phy_shared_page p ! j) (c # p # others)"
          using us that(2) by blast
        then show ?thesis using I that by (metis list.set_intros(2))
      qed
      have nth: "\<forall>j < SHMEM_PAGES. phy_shared_page c1 ! j = (if j \<in> set is then 0 else phy_shared_page p ! j)"
        "\<forall>j < SHMEM_PAGES. p_bitmap c1 ! j = (if j \<in> set is then 0 else p_bitmap p ! j)"
        using I i pp a0 lc by (auto simp: c1_def nth_list_update)
      have "fork_inv is p c1 arr1 k1 others fs1"
        unfolding fork_inv_def using pg1 rf1 nth u1 lc(2) by (simp add: c1_def)
      from Cons.IH [OF this Cons.prems(2) i(3,4)] show ?thesis using st True by (simp add: c1_def)
    qed (use m(2) st in simp)
  qed
qed


text \<open>A parent with one shared page.\<close>

definition small_parent :: proc where
  "small_parent = idle_proc\<lparr>phy_shared_page := 0x80402000 # replicate 31 0, p_bitmap := 1 # replicate 31 0\<rparr>"

definition small_info :: "shm_info list" where
  "small_info = \<lparr>shmem_addr = 0x80402000, shmem_counter = 1\<rparr> # replicate 31 empty_info"

lemma nth_Cons_replicate: "j < Suc n \<Longrightarrow> (x # replicate n y) ! j = (if j = 0 then x else y)"
  by (cases j) auto

lemma small_info_nth:
  "j < SHMEM_PAGES \<Longrightarrow> small_info ! j = (if j = 0 then \<lparr>shmem_addr = 0x80402000, shmem_counter = 1\<rparr> else empty_info)"
  "j < SHMEM_PAGES \<Longrightarrow> phy_shared_page small_parent ! j = (if j = 0 then 0x80402000 else 0)"
  "j < SHMEM_PAGES \<Longrightarrow> p_bitmap small_parent ! j = (if j = 0 then 1 else 0)"
  "length small_info = SHMEM_PAGES" "length (phy_shared_page small_parent) = SHMEM_PAGES"
  by (simp_all add: small_info_def small_parent_def SHMEM_PAGES_def nth_Cons_replicate del: replicate.simps)


text \<open>C21: a full table stops the kernel. When all 32 slots are taken and the key is new, \<open>shmget\<close> calls \<open>exit\<close> with the
  table's lock held; \<open>exit\<close> calls \<open>shmrem\<close>, which acquires the lock again and panics.\<close>

theorem shmget_full_table_panics:
  assumes "lock_free c (sh_lock (sh_table s), sh_mach s)" "key_arg key"
    and "\<forall>k \<in> set (shp_key (sh_table s)). length k = 16 \<and> hd k \<noteq> 0 \<and> \<not> key_eq key k"
  shows "\<exists>s'. shmget kv key s = Ok (Exit, s') \<and> shmrem lit kv' key' s' = Panic ''acquire''"
proof -
  obtain lk m where a: "sh_acquire kv s = Ok (s\<lparr>sh_table := (sh_table s)\<lparr>sh_lock := lk\<rparr>, sh_mach := m\<rparr>)" "lock_owned c (lk, m)"
    by (rule shm_lock [OF assms(1)])
  let ?keys = "shp_key (sh_table s)"
  have n: "find_index (key_eq key) ?keys = None" "find_index (\<lambda>k. hd k = 0) ?keys = None"
    using assms(3) by (auto simp: find_index_None)
  have "shm_scan ?keys key 0 None = Ok (None, None)"
    using shm_scan_eq [of ?keys key 0 None] assms(2,3) n by (auto simp: key_arg_def)
  moreover have "shmrem lit kv' key' (s\<lparr>sh_table := (sh_table s)\<lparr>sh_lock := lk\<rparr>, sh_mach := m\<rparr>) = Panic ''acquire''"
    using spin.acq_owned [OF a(2), of "fst kv'" "snd kv'"] by (simp add: shmrem_def sh_acquire_def)
  ultimately show ?thesis using a(1) by (simp add: shmget_def shmget_new_def)
qed

theorem shmget_full_table_panics_witness:
  "let s = small_shm\<lparr>sh_table := (sh_table small_shm)\<lparr>shp_key := replicate SHMEM_PAGES (98 # replicate 15 98)\<rparr>\<rparr>
   in \<exists>s'. shmget (\<lambda>_. 0, 0x80200000) key_a s = Ok (Exit, s') \<and> shmrem key_a (\<lambda>_. 0, 0x80200000) key_a s' = Panic ''acquire''"
  unfolding Let_def
  by (rule shmget_full_table_panics [of 0]) (use small_shm_lock key_a_arg in \<open>simp_all add: key_eq_def cstr_def\<close>)


text \<open>A machine with two free pages, on which \<^verbatim>\<open>shmget\<close> succeeds.\<close>

definition two_shm :: shm_state where
  "two_shm = small_shm\<lparr>shk := small_kmem\<lparr>kmem_mem := store32 (\<lambda>_. 0) 0x80401000 0x80402000\<rparr>\<rparr>"

lemma two_shm_ok: "shm_good two_shm [] [0x80401000, 0x80402000]"
proof -
  let ?k = "small_kmem\<lparr>kmem_mem := store32 (\<lambda>_. 0) 0x80401000 0x80402000\<rparr>"
  have al: "aligned4 0x80401000" "page_of 0x80401000 = 0x80401000"
    by (simp_all add: aligned4_def PGROUNDDOWN_def PGSIZE_def)
  have ag: "agree_page q (kmem_mem small_kmem) (kmem_mem ?k)" if "q \<noteq> 0x80401000" for q
    using that agree_page_store32 [OF al(1), of q] al(2) by (auto simp: small_kmem_def)
  have l: "load32 (store32 (\<lambda>_. 0) 0x80401000 0x80402000) 0x80401000 = 0x80402000" by simp
  have l2: "load32 (kmem_mem ?k) 0x80402000 = load32 (kmem_mem small_kmem) 0x80402000"
    by (rule load32_agree [OF ag [of "0x80402000"]]) (simp_all add: aligned4_def PGROUNDDOWN_def PGSIZE_def)
  have fp: "free_pages ?k [0x80401000, 0x80402000]"
    using l l2 by (simp add: free_pages_def small_kmem_def usable_page_def page_aligned_def PGSIZE_def layout_defs V2P_def load32_def)
  have wf: "wf_space ?k 0x80400000 [0x80401000, 0x80402000]"
    by (rule wf_space_change(1) [OF small_kmem_ok(3) fp]) (use ag [of "0x80400000"] in \<open>simp_all add: small_kmem_ok user_frames_def\<close>)
  have vm: "vmap (kmem_mem ?k) 0x80400000 x = None" for x
    using wf_space_change(2) [OF small_kmem_ok(3) fp, of x] ag [of "0x80400000"] by (simp add: small_kmem_ok user_frames_def)
  have "pages_ok ?k 0x80400000 (replicate SHMEM_PAGES 0) (replicate SHMEM_PAGES empty_info) [0x80401000, 0x80402000]"
    using wf vm by (simp add: pages_ok_def empty_info_def)
  then show ?thesis
    using small_shm_ok unfolding shm_ok_def two_shm_def by (simp add: empty_info_def)
qed

lemma attached_key:
  assumes "key_arg key" "p_key p = replicate SHMEM_PAGES (replicate 16 0)" "i < SHMEM_PAGES"
  shows "find_index (key_eq key) (p_key (attached i a key p)) = Some i"
  using assms new_key(2) [OF assms(1)] key_a_new
  by (auto simp: find_index_Some nth_list_update key_eq_def key_arg_def)


end
