(* ===== verification/Block.thy ===== *)
theory Block
  imports Prelude
begin

text \<open>
  Disk blocks as lists of \<open>BSIZE\<close> bytes (fs.h) and the little-endian fields the kernel reads and
  writes in them through C structures.
\<close>

definition BSIZE :: nat where "BSIZE = 512"

type_synonym blk = "byte list"

definition get16 :: "blk \<Rightarrow> nat \<Rightarrow> ushort" where
  "get16 bs i = ucast (bs ! i) OR push_bit 8 (ucast (bs ! (i + 1)))"

definition get32 :: "blk \<Rightarrow> nat \<Rightarrow> uint" where
  "get32 bs i = ucast (bs ! i) OR push_bit 8 (ucast (bs ! (i + 1)))
     OR push_bit 16 (ucast (bs ! (i + 2))) OR push_bit 24 (ucast (bs ! (i + 3)))"

text \<open>Bytes \<open>ds\<close> written over \<open>bs\<close> from offset \<open>i\<close> on.\<close>

definition overlay :: "blk \<Rightarrow> nat \<Rightarrow> byte list \<Rightarrow> blk" where
  "overlay bs i ds = take i bs @ ds @ drop (i + length ds) bs"

definition bytes16 :: "ushort \<Rightarrow> byte list" where
  "bytes16 v = [ucast v, ucast (drop_bit 8 v)]"

definition bytes32 :: "uint \<Rightarrow> byte list" where
  "bytes32 v = [ucast v, ucast (drop_bit 8 v), ucast (drop_bit 16 v), ucast (drop_bit 24 v)]"

definition put16 :: "blk \<Rightarrow> nat \<Rightarrow> ushort \<Rightarrow> blk" where
  "put16 bs i v = overlay bs i (bytes16 v)"

definition put32 :: "blk \<Rightarrow> nat \<Rightarrow> uint \<Rightarrow> blk" where
  "put32 bs i v = overlay bs i (bytes32 v)"

named_theorems block_simps

lemma length_overlay [simp, block_simps]: "i + length ds \<le> length bs \<Longrightarrow> length (overlay bs i ds) = length bs"
  by (simp add: overlay_def)

lemma nth_overlay:
  assumes "i + length ds \<le> length bs" "j < length bs"
  shows "overlay bs i ds ! j = (if i \<le> j \<and> j < i + length ds then ds ! (j - i) else bs ! j)"
  using assms by (auto simp: overlay_def nth_append min_def not_less)

lemma take_drop_overlay:
  "i + length ds \<le> length bs \<Longrightarrow> take (length ds) (drop i (overlay bs i ds)) = ds"
  by (simp add: overlay_def)

lemma take_drop_overlay_other:
  assumes "i + length ds \<le> length bs" "j + n \<le> i \<or> i + length ds \<le> j" "j + n \<le> length bs"
  shows "take n (drop j (overlay bs i ds)) = take n (drop j bs)"
  using assms by (intro nth_equalityI) (auto simp: nth_overlay)

lemma length_bytes [simp]: "length (bytes16 v) = 2" "length (bytes32 w) = 4"
  by (simp_all add: bytes16_def bytes32_def)

lemma length_put [simp, block_simps]:
  "i + 2 \<le> length bs \<Longrightarrow> length (put16 bs i v) = length bs"
  "i + 4 \<le> length bs \<Longrightarrow> length (put32 bs i w) = length bs"
  by (simp_all add: put16_def put32_def)

lemma bytes_nth [simp]:
  "bytes16 v ! 0 = ucast v" "bytes16 v ! Suc 0 = ucast (drop_bit 8 v)"
  "bytes32 w ! 0 = ucast w" "bytes32 w ! Suc 0 = ucast (drop_bit 8 w)" "bytes32 w ! 2 = ucast (drop_bit 16 w)" "bytes32 w ! 3 = ucast (drop_bit 24 w)"
  by (simp_all add: bytes16_def bytes32_def)

lemma join32: "ucast (ucast v :: byte) OR push_bit 8 (ucast (ucast (drop_bit 8 v) :: byte))
     OR push_bit 16 (ucast (ucast (drop_bit 16 v) :: byte)) OR push_bit 24 (ucast (ucast (drop_bit 24 v) :: byte)) = (v :: uint)"
proof (rule bit_word_eqI)
  fix n assume "n < LENGTH(32)"
  consider "n < 8" | "8 \<le> n" "n < 16" | "16 \<le> n" "n < 24" | "24 \<le> n" by linarith
  then show "bit (ucast (ucast v :: byte) OR push_bit 8 (ucast (ucast (drop_bit 8 v) :: byte))
     OR push_bit 16 (ucast (ucast (drop_bit 16 v) :: byte)) OR push_bit 24 (ucast (ucast (drop_bit 24 v) :: byte)) :: uint) n = bit v n"
    using \<open>n < LENGTH(32)\<close> by cases (auto simp: bit_simps)
qed

lemma join16: "ucast (ucast v :: byte) OR push_bit 8 (ucast (ucast (drop_bit 8 v) :: byte)) = (v :: ushort)"
proof (rule bit_word_eqI)
  fix n assume "n < LENGTH(16)"
  consider "n < 8" | "8 \<le> n" by linarith
  then show "bit (ucast (ucast v :: byte) OR push_bit 8 (ucast (ucast (drop_bit 8 v) :: byte)) :: ushort) n = bit v n"
    using \<open>n < LENGTH(16)\<close> by cases (auto simp: bit_simps)
qed

text \<open>Reading back a field, and a field apart from it.\<close>

lemma get_put_same [simp, block_simps]:
  "i + 2 \<le> length bs \<Longrightarrow> get16 (put16 bs i v) i = v"
  "i + 4 \<le> length bs \<Longrightarrow> get32 (put32 bs i w) i = w"
  by (simp_all add: get16_def put16_def get32_def put32_def nth_overlay join16 join32)

lemma get_overlay_other [block_simps]:
  "i + length ds \<le> length bs \<Longrightarrow> j + 4 \<le> i \<or> i + length ds \<le> j \<and> j + 4 \<le> length bs \<Longrightarrow> get32 (overlay bs i ds) j = get32 bs j"
  "i + length ds \<le> length bs \<Longrightarrow> j + 2 \<le> i \<or> i + length ds \<le> j \<and> j + 2 \<le> length bs \<Longrightarrow> get16 (overlay bs i ds) j = get16 bs j"
  by (auto simp: get32_def get16_def nth_overlay)

lemma get_put_other [block_simps]:
  "i + 4 \<le> length bs \<Longrightarrow> j + 4 \<le> i \<or> i + 4 \<le> j \<and> j + 4 \<le> length bs \<Longrightarrow> get32 (put32 bs i w) j = get32 bs j"
  "i + 4 \<le> length bs \<Longrightarrow> j + 2 \<le> i \<or> i + 4 \<le> j \<and> j + 2 \<le> length bs \<Longrightarrow> get16 (put32 bs i w) j = get16 bs j"
  "i + 2 \<le> length bs \<Longrightarrow> j + 4 \<le> i \<or> i + 2 \<le> j \<and> j + 4 \<le> length bs \<Longrightarrow> get32 (put16 bs i v) j = get32 bs j"
  "i + 2 \<le> length bs \<Longrightarrow> j + 2 \<le> i \<or> i + 2 \<le> j \<and> j + 2 \<le> length bs \<Longrightarrow> get16 (put16 bs i v) j = get16 bs j"
  by (simp_all add: put32_def put16_def get_overlay_other)

text \<open>An array of words of a block: reading the first \<open>n\<close>, and writing words from an index on.\<close>

definition get_words :: "blk \<Rightarrow> nat \<Rightarrow> nat \<Rightarrow> uint list" where
  "get_words bs i n = map (\<lambda>j. get32 bs (i + 4 * j)) [0..<n]"

fun put_words :: "blk \<Rightarrow> nat \<Rightarrow> uint list \<Rightarrow> blk" where
  "put_words bs i [] = bs"
| "put_words bs i (w # ws) = put_words (put32 bs i w) (i + 4) ws"

lemma length_put_words [simp, block_simps]:
  "i + 4 * length ws \<le> length bs \<Longrightarrow> length (put_words bs i ws) = length bs"
  by (induction ws arbitrary: bs i) auto

lemma get_put_words_before:
  "i + 4 * length ws \<le> length bs \<Longrightarrow> j + 4 \<le> i \<Longrightarrow> get32 (put_words bs i ws) j = get32 bs j"
  by (induction ws arbitrary: bs i) (auto simp: get_put_other)

lemma get_put_words:
  "i + 4 * length ws \<le> length bs \<Longrightarrow> k < length ws \<Longrightarrow> get32 (put_words bs i ws) (i + 4 * k) = ws ! k"
proof (induction ws arbitrary: bs i k)
  case (Cons w ws)
  show ?case
  proof (cases k)
    case 0
    then show ?thesis using Cons.prems by (simp add: get_put_words_before)
  next
    case (Suc k')
    then show ?thesis using Cons.IH [of "i + 4" "put32 bs i w" k'] Cons.prems by (simp add: algebra_simps)
  qed
qed simp

lemma get_words_put_words:
  "i + 4 * length ws \<le> length bs \<Longrightarrow> get_words (put_words bs i ws) i (length ws) = ws"
  by (intro nth_equalityI) (simp_all add: get_words_def get_put_words)

end
