(* ===== verification/Bio.thy ===== *)
theory Bio
  imports Semaphore Block
begin

text \<open>
  The buffer cache (bio.c, buf.h) over a disk. The disk driver is the memory disk (memide.c), which serves a request before it
  returns; theory \<^verbatim>\<open>Ide\<close> models the queue of the interrupt-driven driver (ide.c).

  The cache is a list of \<open>NBUF\<close> buffers followed by the list head, and the links \<^verbatim>\<open>prev\<close> and \<^verbatim>\<open>next\<close> are
  indices into it. A buffer's sleep lock is one bit, held or not; where the code would sleep on it the outcome is
  \<open>Block\<close>. The field \<open>writes\<close> is a history of the writes that reached the disk; no operation reads it. The walks along the links carry fuel; \<open>NBUF + 1\<close> steps are enough on a well-formed ring.
\<close>

section \<open>Definitions\<close>

definition NBUF :: nat where "NBUF = 30"

abbreviation HEAD :: nat where "HEAD \<equiv> NBUF"

record buf =
  b_valid :: bool
  b_dirty :: bool
  b_dev :: uint
  b_blockno :: uint
  b_held :: bool
  b_refcnt :: uint
  b_prev :: nat
  b_next :: nat
  b_data :: "byte list"

record bio =
  bufs :: "buf list"
  disk :: "uint \<Rightarrow> byte list"
  disksize :: uint
  writes :: "(uint \<times> byte list) list"

definition set_buf :: "nat \<Rightarrow> (buf \<Rightarrow> buf) \<Rightarrow> buf list \<Rightarrow> buf list" where
  "set_buf i f bs = bs[i := f (bs ! i)]"

definition link_head :: "nat \<Rightarrow> buf list \<Rightarrow> buf list" where
  "link_head b bs =
     (let bs1 = set_buf b (\<lambda>x. x\<lparr>b_next := b_next (bs ! HEAD), b_prev := HEAD\<rparr>) bs;
          bs2 = set_buf (b_next (bs1 ! HEAD)) (\<lambda>x. x\<lparr>b_prev := b\<rparr>) bs1
      in set_buf HEAD (\<lambda>x. x\<lparr>b_next := b\<rparr>) bs2)"

definition unlink :: "nat \<Rightarrow> buf list \<Rightarrow> buf list" where
  "unlink b bs =
     (let bs1 = set_buf (b_next (bs ! b)) (\<lambda>x. x\<lparr>b_prev := b_prev (bs ! b)\<rparr>) bs
      in set_buf (b_prev (bs1 ! b)) (\<lambda>x. x\<lparr>b_next := b_next (bs1 ! b)\<rparr>) bs1)"

definition binit :: "buf list \<Rightarrow> buf list" where
  "binit bs = fold (\<lambda>b bs. link_head b (set_buf b (\<lambda>x. x\<lparr>b_held := False\<rparr>) bs)) [0..<NBUF]
     (set_buf HEAD (\<lambda>x. x\<lparr>b_prev := HEAD, b_next := HEAD\<rparr>) bs)"

text \<open>The first buffer from \<open>b\<close> on, along a link, that satisfies \<open>P\<close>.\<close>

fun walk :: "(buf \<Rightarrow> nat) \<Rightarrow> (buf \<Rightarrow> bool) \<Rightarrow> nat \<Rightarrow> nat \<Rightarrow> buf list \<Rightarrow> nat option res" where
  "walk step P 0 b bs = Block"
| "walk step P (Suc n) b bs =
     (if b = HEAD then Ok None else if P (bs ! b) then Ok (Some b) else walk step P n (step (bs ! b)) bs)"

definition lock_buf :: "nat \<Rightarrow> buf list \<Rightarrow> (nat \<times> buf list) res" where
  "lock_buf b bs = (if b_held (bs ! b) then Block else Ok (b, set_buf b (\<lambda>x. x\<lparr>b_held := True\<rparr>) bs))"

definition bget :: "uint \<Rightarrow> uint \<Rightarrow> buf list \<Rightarrow> (nat \<times> buf list) res" where
  "bget dev blockno bs =
     bind_res (walk b_next (\<lambda>x. b_dev x = dev \<and> b_blockno x = blockno) (NBUF + 1) (b_next (bs ! HEAD)) bs) (\<lambda>r.
     case r of
       Some b \<Rightarrow> lock_buf b (set_buf b (\<lambda>x. x\<lparr>b_refcnt := b_refcnt x + 1\<rparr>) bs)
     | None \<Rightarrow>
         bind_res (walk b_prev (\<lambda>x. b_refcnt x = 0 \<and> \<not> b_dirty x) (NBUF + 1) (b_prev (bs ! HEAD)) bs) (\<lambda>r.
         case r of
           Some b \<Rightarrow> lock_buf b (set_buf b (\<lambda>x. x\<lparr>b_dev := dev, b_blockno := blockno, b_valid := False,
                       b_dirty := False, b_refcnt := 1\<rparr>) bs)
         | None \<Rightarrow> Panic ''bget: no buffers''))"

definition iderw :: "nat \<Rightarrow> bio \<Rightarrow> bio res" where
  "iderw b s =
     (let x = bufs s ! b
      in if \<not> b_held x then Panic ''iderw: buf not locked''
         else if b_valid x \<and> \<not> b_dirty x then Panic ''iderw: nothing to do''
         else if b_dev x \<noteq> 1 then Panic ''iderw: request not for disk 1''
         else if b_blockno x \<ge> disksize s then Panic ''iderw: block out of range''
         else if b_dirty x
         then Ok (s\<lparr>bufs := set_buf b (\<lambda>x. x\<lparr>b_dirty := False, b_valid := True\<rparr>) (bufs s),
                    disk := (disk s)(b_blockno x := b_data x), writes := writes s @ [(b_blockno x, b_data x)]\<rparr>)
         else Ok (s\<lparr>bufs := set_buf b (\<lambda>x. x\<lparr>b_data := disk s (b_blockno x), b_valid := True\<rparr>) (bufs s)\<rparr>))"

definition bread :: "uint \<Rightarrow> uint \<Rightarrow> bio \<Rightarrow> (nat \<times> bio) res" where
  "bread dev blockno s =
     bind_res (bget dev blockno (bufs s)) (\<lambda>(b, bs).
     if \<not> b_valid (bs ! b)
     then bind_res (iderw b (s\<lparr>bufs := bs\<rparr>)) (\<lambda>s1. Ok (b, s1))
     else Ok (b, s\<lparr>bufs := bs\<rparr>))"

definition bwrite :: "nat \<Rightarrow> bio \<Rightarrow> bio res" where
  "bwrite b s =
     (if \<not> b_held (bufs s ! b) then Panic ''bwrite''
      else iderw b (s\<lparr>bufs := set_buf b (\<lambda>x. x\<lparr>b_dirty := True\<rparr>) (bufs s)\<rparr>))"

definition brelse :: "nat \<Rightarrow> bio \<Rightarrow> bio res" where
  "brelse b s =
     (if \<not> b_held (bufs s ! b) then Panic ''brelse''
      else let bs1 = set_buf b (\<lambda>x. x\<lparr>b_held := False, b_refcnt := b_refcnt x - 1\<rparr>) (bufs s)
           in Ok (s\<lparr>bufs := if b_refcnt (bs1 ! b) = 0 then link_head b (unlink b bs1) else bs1\<rparr>))"

section \<open>The ring of buffers\<close>

text \<open>A doubly linked segment from \<open>p\<close> through \<open>xs\<close> to \<open>q\<close>.\<close>

fun seg :: "buf list \<Rightarrow> nat \<Rightarrow> nat list \<Rightarrow> nat \<Rightarrow> bool" where
  "seg bs p [] q = (b_next (bs ! p) = q \<and> b_prev (bs ! q) = p)"
| "seg bs p (x # xs) q = (b_next (bs ! p) = x \<and> b_prev (bs ! x) = p \<and> seg bs x xs q)"

text \<open>The ring holds every buffer once, most recently used first.\<close>

definition ring :: "buf list \<Rightarrow> nat list \<Rightarrow> bool" where
  "ring bs xs \<longleftrightarrow> length bs = Suc NBUF \<and> distinct xs \<and> set xs = {..<NBUF} \<and> seg bs HEAD xs HEAD"

lemma seg_append: "seg bs p (ys @ x # zs) q \<longleftrightarrow> seg bs p ys x \<and> seg bs x zs q"
  by (induction ys arbitrary: p) auto

lemma seg_ends:
  assumes "seg bs p xs q"
  shows "b_prev (bs ! q) = last (p # xs)" "b_next (bs ! p) = hd (xs @ [q])"
  using assms by (induction xs arbitrary: p) auto

lemma seg_frame:
  assumes "\<And>y. y \<in> set (p # xs) \<Longrightarrow> b_next (bs' ! y) = b_next (bs ! y)"
    "\<And>y. y \<in> set (xs @ [q]) \<Longrightarrow> b_prev (bs' ! y) = b_prev (bs ! y)"
  shows "seg bs' p xs q = seg bs p xs q"
  using assms by (induction xs arbitrary: p) auto

lemma walk_next:
  assumes "seg bs p xs HEAD" "HEAD \<notin> set xs" "length xs < n"
  shows "walk b_next P n (b_next (bs ! p)) bs = Ok (find (\<lambda>i. P (bs ! i)) xs)"
  using assms
proof (induction xs arbitrary: p n)
  case Nil
  then show ?case by (cases n) auto
next
  case (Cons x xs)
  then show ?case by (cases n) auto
qed

lemma walk_prev:
  assumes "seg bs HEAD xs q" "HEAD \<notin> set xs" "length xs < n"
  shows "walk b_prev P n (b_prev (bs ! q)) bs = Ok (find (\<lambda>i. P (bs ! i)) (rev xs))"
  using assms
proof (induction xs arbitrary: q n rule: rev_induct)
  case Nil
  then show ?case by (cases n) auto
next
  case (snoc x xs)
  then show ?case by (cases n) (auto simp: seg_append)
qed

lemma set_buf_nth: "i < length bs \<Longrightarrow> set_buf i f bs ! j = (if j = i then f (bs ! i) else bs ! j)"
  by (simp add: set_buf_def nth_list_update)

lemma set_buf_length [simp]: "length (set_buf i f bs) = length bs"
  by (simp add: set_buf_def)

text \<open>A segment that ends elsewhere.\<close>

lemma seg_retarget:
  assumes "seg bs p ys b" "distinct (p # ys)" "b_next (bs' ! last (p # ys)) = q" "b_prev (bs' ! q) = last (p # ys)"
    "\<And>y. y \<in> set (p # ys) \<Longrightarrow> y \<noteq> last (p # ys) \<Longrightarrow> b_next (bs' ! y) = b_next (bs ! y)"
    "\<And>y. y \<in> set ys \<Longrightarrow> b_prev (bs' ! y) = b_prev (bs ! y)"
  shows "seg bs' p ys q"
  using assms
proof (induction ys arbitrary: p)
  case (Cons y ys)
  have "p \<noteq> last (y # ys)" using Cons.prems(2) last_in_set [of "y # ys"] by (metis distinct.simps(2) list.distinct(1))
  moreover have "seg bs' y ys q" by (rule Cons.IH) (use Cons.prems in \<open>auto split: if_splits\<close>)
  ultimately show ?case using Cons.prems(1,5,6) by (auto split: if_splits)
qed simp

lemma seg_unlink:
  assumes sg: "seg bs p (ys @ b # zs) q" and d: "distinct (p # ys @ b # zs)" "q \<notin> set (ys @ b # zs)"
    and len: "\<forall>y \<in> set (p # q # ys @ b # zs). y < length bs"
  shows "seg (unlink b bs) p (ys @ zs) q"
proof -
  let ?p = "last (p # ys)" and ?n = "hd (zs @ [q])"
  have s: "seg bs p ys b" "seg bs b zs q" using sg by (simp_all add: seg_append)
  have pb: "b_prev (bs ! b) = ?p" "b_next (bs ! b) = ?n" using seg_ends(1) [OF s(1)] seg_ends(2) [OF s(2)] by simp_all
  have p: "?p \<in> set (p # ys)" "?p \<noteq> b" "?p < length bs" using d(1) len last_in_set [of "p # ys"] by (auto simp del: last.simps)
  have n: "?n \<in> set (zs @ [q])" "?n \<noteq> b" "?n < length bs" using d len hd_in_set [of "zs @ [q]"] by (auto simp del: hd_append)
  define bs1 where "bs1 = set_buf ?n (\<lambda>x. x\<lparr>b_prev := ?p\<rparr>) bs"
  have b1: "bs1 ! b = bs ! b" using n by (auto simp: bs1_def set_buf_nth simp del: hd_append)
  have u: "unlink b bs = set_buf ?p (\<lambda>x. x\<lparr>b_next := ?n\<rparr>) bs1"
    using b1 unfolding unlink_def Let_def pb bs1_def [symmetric] by (simp only: pb)
  have nx: "b_next (unlink b bs ! y) = (if y = ?p then ?n else b_next (bs ! y))" for y
    unfolding u bs1_def using p(3) n(3) by (simp add: set_buf_nth del: last.simps hd_append)
  have pv: "b_prev (unlink b bs ! y) = (if y = ?n then ?p else b_prev (bs ! y))" for y
    unfolding u bs1_def using p(3) n(3) by (simp add: set_buf_nth del: last.simps hd_append)
  have first: "seg (unlink b bs) p ys ?n"
  proof (rule seg_retarget [OF s(1)])
    show "b_prev (unlink b bs ! y) = b_prev (bs ! y)" if "y \<in> set ys" for y
      using that n(1) d by (auto simp: pv simp del: last.simps hd_append)
  qed (use d(1) in \<open>auto simp: nx pv simp del: last.simps hd_append\<close>)
  show ?thesis
  proof (cases zs)
    case (Cons z vs)
    have "seg (unlink b bs) z vs q = seg bs z vs q"
      using d p(1) Cons by (intro seg_frame) (auto simp: nx pv simp del: last.simps)
    then show ?thesis using first s(2) Cons by (simp add: seg_append)
  qed (use first in simp)
qed

lemma seg_link_head:
  assumes "seg bs HEAD xs HEAD" "distinct (HEAD # b # xs)" "\<forall>y \<in> set (HEAD # b # xs). y < length bs"
  shows "seg (link_head b bs) HEAD (b # xs) HEAD"
proof -
  let ?n = "hd (xs @ [HEAD])"
  have n: "b_next (bs ! HEAD) = ?n" "?n \<noteq> b" "?n < length bs" "?n \<in> set (xs @ [HEAD])"
    using seg_ends(2) [OF assms(1)] assms(2,3) hd_in_set [of "xs @ [HEAD]"] by (auto simp del: hd_append)
  have b: "b < length bs" "HEAD < length bs" "b \<noteq> HEAD" using assms(2,3) by auto
  have nx: "b_next (link_head b bs ! y) = (if y = HEAD then b else if y = b then ?n else b_next (bs ! y))" for y
    using n b by (simp add: link_head_def Let_def set_buf_nth del: hd_append)
  have pv: "b_prev (link_head b bs ! y) = (if y = ?n then b else if y = b then HEAD else b_prev (bs ! y))" for y
    using n b by (auto simp: link_head_def Let_def set_buf_nth simp del: hd_append)
  show ?thesis
  proof (cases xs)
    case (Cons x vs)
    have "seg (link_head b bs) x vs HEAD = seg bs x vs HEAD"
      using assms(2) Cons by (intro seg_frame) (auto simp: nx pv)
    then show ?thesis using assms(1) Cons b n(2) by (auto simp: nx pv)
  qed (use b in \<open>auto simp: nx pv\<close>)
qed

text \<open>Relinking moves a buffer to the front of the ring and changes nothing but links.\<close>

definition same_but_links :: "buf \<Rightarrow> buf \<Rightarrow> bool" where
  "same_but_links x y \<longleftrightarrow> x\<lparr>b_next := b_next y, b_prev := b_prev y\<rparr> = y"

lemma same_but_linksD:
  assumes "same_but_links x y"
  shows "b_valid y = b_valid x" "b_dirty y = b_dirty x" "b_dev y = b_dev x" "b_blockno y = b_blockno x"
    "b_held y = b_held x" "b_refcnt y = b_refcnt x" "b_data y = b_data x"
  using assms by (cases x; cases y; simp add: same_but_links_def)+

lemma nth_list_update_any: "(xs[i := x]) ! j = (if i = j \<and> j < length xs then x else xs ! j)"
  by (cases "i < length xs") (auto simp: list_update_beyond)

lemma same_but_links_refl [simp]: "same_but_links x x"
  by (simp add: same_but_links_def)

lemma same_but_links_trans: "same_but_links x y \<Longrightarrow> same_but_links y z \<Longrightarrow> same_but_links x z"
  by (cases x; cases y; cases z) (simp add: same_but_links_def)

lemma same_but_links_set:
  assumes "\<And>x. same_but_links x (f x)" "same_but_links y (bs ! i)"
  shows "same_but_links y (set_buf j f bs ! i)"
  using assms same_but_links_trans by (auto simp: set_buf_def nth_list_update_any)

lemma relink_fields: "same_but_links (bs ! i) (link_head b (unlink b bs) ! i)"
  unfolding link_head_def unlink_def Let_def
  by (intro same_but_links_set) (simp_all add: same_but_links_def)

text \<open>Well-formedness of the ring does not depend on the other fields.\<close>

lemma ring_set_buf:
  assumes "\<And>x. b_next (f x) = b_next x" "\<And>x. b_prev (f x) = b_prev x"
  shows "ring (set_buf i f bs) xs = ring bs xs"
proof -
  have "b_next (set_buf i f bs ! y) = b_next (bs ! y)" "b_prev (set_buf i f bs ! y) = b_prev (bs ! y)" for y
    using assms by (auto simp: set_buf_def nth_list_update_any)
  then show ?thesis by (simp add: ring_def cong: seg_frame)
qed

lemma ring_relink:
  assumes "ring bs xs" "b < NBUF"
  shows "ring (link_head b (unlink b bs)) (b # remove1 b xs)"
proof -
  have xs: "distinct xs" "set xs = {..<NBUF}" "seg bs HEAD xs HEAD" "length bs = Suc NBUF" using assms(1) by (simp_all add: ring_def)
  then obtain ys zs where split: "xs = ys @ b # zs" using assms(2) split_list [of b xs] by auto
  have r: "remove1 b xs = ys @ zs" using split xs(1) by (simp add: remove1_append)
  have "HEAD \<notin> set xs" using xs(2) by simp
  then have d: "distinct (HEAD # ys @ b # zs)" "HEAD \<notin> set (ys @ b # zs)" using xs(1) split by auto
  have lt: "y \<in> set (ys @ b # zs) \<Longrightarrow> y < NBUF" for y using xs(2) split by auto
  have len: "length (unlink b bs) = Suc NBUF" using xs(4) by (simp add: unlink_def Let_def)
  have "seg (unlink b bs) HEAD (ys @ zs) HEAD"
    by (rule seg_unlink [OF _ d]) (use xs(3,4) split lt in \<open>auto simp: less_Suc_eq\<close>)
  then have "seg (link_head b (unlink b bs)) HEAD (b # ys @ zs) HEAD"
    by (rule seg_link_head) (use d len lt in \<open>auto simp: less_Suc_eq\<close>)
  moreover have "set (b # ys @ zs) = {..<NBUF}" using xs(2) split by auto
  ultimately show ?thesis using d r len by (simp add: ring_def link_head_def Let_def)
qed

text \<open>\<^verbatim>\<open>binit\<close> builds the ring.\<close>

lemma ring_binit:
  assumes "length bs = Suc NBUF"
  shows "ring (binit bs) (rev [0..<NBUF])"
proof -
  let ?f = "\<lambda>b bs. link_head b (set_buf b (\<lambda>x. x\<lparr>b_held := False\<rparr>) bs)"
  let ?bs = "set_buf HEAD (\<lambda>x. x\<lparr>b_prev := HEAD, b_next := HEAD\<rparr>) bs"
  have "seg (fold ?f [0..<n] ?bs) HEAD (rev [0..<n]) HEAD \<and> length (fold ?f [0..<n] ?bs) = Suc NBUF" if "n \<le> NBUF" for n
    using that
  proof (induction n)
    case 0
    then show ?case using assms by (simp add: set_buf_nth)
  next
    case (Suc n)
    let ?g = "fold ?f [0..<n] ?bs"
    let ?h = "set_buf n (\<lambda>x. x\<lparr>b_held := False\<rparr>) ?g"
    have IH: "seg ?g HEAD (rev [0..<n]) HEAD" "length ?g = Suc NBUF" using Suc by simp_all
    have "seg ?h HEAD (rev [0..<n]) HEAD = seg ?g HEAD (rev [0..<n]) HEAD"
      by (rule seg_frame) (simp_all add: set_buf_def nth_list_update_any)
    then have "seg (link_head n ?h) HEAD (n # rev [0..<n]) HEAD"
      using IH Suc.prems by (intro seg_link_head) auto
    then show ?case using IH(2) by (simp add: link_head_def Let_def)
  qed
  from this [of NBUF] show ?thesis by (auto simp: ring_def binit_def)
qed

section \<open>The cache invariant\<close>

definition caches :: "uint \<Rightarrow> buf \<Rightarrow> bool" where
  "caches n x \<longleftrightarrow> b_dev x = 1 \<and> b_blockno x = n"

text \<open>The content of a block as the rest of the kernel sees it.\<close>

definition view :: "bio \<Rightarrow> uint \<Rightarrow> byte list" where
  "view s n = (case find (\<lambda>i. caches n (bufs s ! i) \<and> b_valid (bufs s ! i)) [0..<NBUF] of
     Some i \<Rightarrow> b_data (bufs s ! i) | None \<Rightarrow> disk s n)"

definition buf_ok :: "bio \<Rightarrow> buf \<Rightarrow> bool" where
  "buf_ok s x \<longleftrightarrow> (b_held x \<longrightarrow> b_refcnt x \<noteq> 0) \<and> (b_dirty x \<longrightarrow> b_valid x)
     \<and> (b_dev x = 1 \<longrightarrow> b_valid x \<longrightarrow> \<not> b_dirty x \<longrightarrow> \<not> b_held x \<longrightarrow> b_data x = disk s (b_blockno x))"

definition unique_blocks :: "buf list \<Rightarrow> bool" where
  "unique_blocks bs \<longleftrightarrow> (\<forall>i < NBUF. \<forall>j < NBUF. \<forall>n. caches n (bs ! i) \<longrightarrow> caches n (bs ! j) \<longrightarrow> i = j)"

definition cache_inv :: "bio \<Rightarrow> nat list \<Rightarrow> bool" where
  "cache_inv s xs \<longleftrightarrow> ring (bufs s) xs \<and> (\<forall>i < NBUF. buf_ok s (bufs s ! i)) \<and> unique_blocks (bufs s)"

lemma cache_invD:
  assumes "cache_inv s xs"
  shows "ring (bufs s) xs" "\<And>i. i < NBUF \<Longrightarrow> buf_ok s (bufs s ! i)" "unique_blocks (bufs s)" "length (bufs s) = Suc NBUF"
    "\<And>i. i < NBUF \<Longrightarrow> i < length (bufs s)"
  using assms by (simp_all add: cache_inv_def ring_def)

lemma unique_blocksD:
  "unique_blocks bs \<Longrightarrow> caches n (bs ! i) \<Longrightarrow> caches n (bs ! j) \<Longrightarrow> i < NBUF \<Longrightarrow> j < NBUF \<Longrightarrow> i = j"
  unfolding unique_blocks_def by blast

lemma view_cached:
  assumes "unique_blocks (bufs s)" "i < NBUF" "caches n (bufs s ! i)" "b_valid (bufs s ! i)"
  shows "view s n = b_data (bufs s ! i)"
proof (cases "find (\<lambda>i. caches n (bufs s ! i) \<and> b_valid (bufs s ! i)) [0..<NBUF]")
  case None
  then show ?thesis using assms by (simp add: find_None_iff)
next
  case (Some j)
  then have "j < NBUF" "caches n (bufs s ! j)" by (auto simp: find_Some_iff)
  then have "j = i" using unique_blocksD assms by blast
  then show ?thesis using Some by (simp add: view_def)
qed

lemma view_uncached:
  assumes "\<And>i. i < NBUF \<Longrightarrow> caches n (bufs s ! i) \<Longrightarrow> \<not> b_valid (bufs s ! i)"
  shows "view s n = disk s n"
proof -
  have "find (\<lambda>i. caches n (bufs s ! i) \<and> b_valid (bufs s ! i)) [0..<NBUF] = None"
    using assms by (auto simp: find_None_iff)
  then show ?thesis by (simp add: view_def)
qed

text \<open>A change of one buffer, and perhaps of the block on disk that it caches.\<close>

lemma cache_inv_change:
  assumes inv: "cache_inv s xs" "b < NBUF" and x: "b_next x = b_next (bufs s ! b)" "b_prev x = b_prev (bufs s ! b)"
    and s': "bufs s' = (bufs s)[b := x]" "\<And>m. \<not> caches m x \<Longrightarrow> disk s' m = disk s m" and ok: "buf_ok s' x"
    and un: "\<And>j n. j < NBUF \<Longrightarrow> j \<noteq> b \<Longrightarrow> caches n x \<Longrightarrow> \<not> caches n (bufs s ! j)"
  shows "cache_inv s' xs"
proof -
  note D = cache_invD [OF inv(1)]
  have nth: "bufs s' ! i = (if i = b then x else bufs s ! i)" for i
    unfolding s'(1) using D(5) [OF inv(2)] by (simp add: nth_list_update)
  have "seg (bufs s') HEAD xs HEAD = seg (bufs s) HEAD xs HEAD"
    by (rule seg_frame) (simp_all add: nth x)
  then have "ring (bufs s') xs = ring (bufs s) xs" by (simp add: ring_def s'(1))
  moreover have "buf_ok s' (bufs s' ! i)" if i: "i < NBUF" for i
  proof (cases "i = b")
    case False
    have "disk s' (b_blockno (bufs s ! i)) = disk s (b_blockno (bufs s ! i))" if "b_dev (bufs s ! i) = 1"
      using un [OF i False] that by (intro s'(2)) (auto simp: caches_def)
    then show ?thesis using D(2) [OF i] False by (auto simp: nth buf_ok_def)
  qed (use ok nth in simp)
  moreover have "unique_blocks (bufs s')"
    unfolding unique_blocks_def
  proof (intro allI impI)
    fix i j n assume a: "i < NBUF" "j < NBUF" "caches n (bufs s' ! i)" "caches n (bufs s' ! j)"
    show "i = j"
      using a un [of i n] un [of j n] unique_blocksD [OF D(3), of n i j] by (auto simp: nth split: if_splits)
  qed
  ultimately show ?thesis using D(1) by (simp add: cache_inv_def)
qed

text \<open>What buffer \<open>b\<close> makes of block \<open>m\<close> when no other buffer caches it.\<close>

definition own :: "bio \<Rightarrow> nat \<Rightarrow> uint \<Rightarrow> byte list" where
  "own s b m = (if caches m (bufs s ! b) \<and> b_valid (bufs s ! b) then b_data (bufs s ! b) else disk s m)"

lemma view_own:
  assumes "unique_blocks (bufs s)" "b < NBUF" "\<And>i. i < NBUF \<Longrightarrow> i \<noteq> b \<Longrightarrow> caches m (bufs s ! i) \<Longrightarrow> \<not> b_valid (bufs s ! i)"
  shows "view s m = own s b m"
proof (cases "caches m (bufs s ! b) \<and> b_valid (bufs s ! b)")
  case True
  then show ?thesis using view_cached [OF assms(1,2)] by (simp add: own_def)
next
  case False
  have "view s m = disk s m"
  proof (rule view_uncached)
    fix i assume "i < NBUF" "caches m (bufs s ! i)"
    then show "\<not> b_valid (bufs s ! i)" using assms(3) False by (cases "i = b") auto
  qed
  then show ?thesis using False by (auto simp: own_def)
qed

lemma view_other:
  assumes inv: "unique_blocks (bufs s)" "unique_blocks (bufs s')" and b: "b < NBUF"
    and o: "\<And>i. i < NBUF \<Longrightarrow> i \<noteq> b \<Longrightarrow> caches m (bufs s' ! i) = caches m (bufs s ! i)
      \<and> b_valid (bufs s' ! i) = b_valid (bufs s ! i) \<and> b_data (bufs s' ! i) = b_data (bufs s ! i)"
    and c: "(\<And>i. i < NBUF \<Longrightarrow> i \<noteq> b \<Longrightarrow> caches m (bufs s ! i) \<Longrightarrow> \<not> b_valid (bufs s ! i)) \<Longrightarrow> own s' b m = own s b m"
  shows "view s' m = view s m"
proof (cases "\<exists>i < NBUF. i \<noteq> b \<and> caches m (bufs s ! i) \<and> b_valid (bufs s ! i)")
  case True
  then obtain i where i: "i < NBUF" "i \<noteq> b" "caches m (bufs s ! i)" "b_valid (bufs s ! i)" by blast
  then show ?thesis
    using view_cached [OF inv(1) i(1,3,4)] view_cached [OF inv(2) i(1)] o [OF i(1,2)] by simp
next
  case False
  then have n: "\<not> b_valid (bufs s ! i)" if "i < NBUF" "i \<noteq> b" "caches m (bufs s ! i)" for i using that by blast
  have "view s' m = own s' b m" by (rule view_own [OF inv(2) b]) (use o n in blast)
  also have "\<dots> = own s b m" using n by (rule c)
  also have "\<dots> = view s m" by (rule view_own [OF inv(1) b, symmetric]) (use n in blast)
  finally show ?thesis .
qed

section \<open>Reading, writing and releasing a block\<close>

definition lookup_ok :: "bio \<Rightarrow> uint \<Rightarrow> bool" where
  "lookup_ok s n \<longleftrightarrow> (\<forall>i < NBUF. caches n (bufs s ! i) \<longrightarrow> \<not> b_held (bufs s ! i) \<and> b_refcnt (bufs s ! i) + 1 \<noteq> 0)
     \<and> (\<exists>i < NBUF. caches n (bufs s ! i) \<or> b_refcnt (bufs s ! i) = 0 \<and> \<not> b_dirty (bufs s ! i))"

text \<open>\<^verbatim>\<open>bget\<close> gives the buffer of the block, or recycles one that is neither used nor dirty.\<close>

lemma find_SomeD:
  assumes "find P xs = Some x"
  shows "x \<in> set xs" "P x"
  using assms by (auto simp: find_Some_iff)

lemma bget_cases:
  assumes "cache_inv s xs" "lookup_ok s n"
  obtains (hit) b where "b < NBUF" "caches n (bufs s ! b)"
      "bget 1 n (bufs s) = Ok (b, (bufs s)[b := (bufs s ! b)\<lparr>b_refcnt := b_refcnt (bufs s ! b) + 1, b_held := True\<rparr>])"
    | (recycled) b where "b < NBUF" "\<And>i. i < NBUF \<Longrightarrow> \<not> caches n (bufs s ! i)" "b_refcnt (bufs s ! b) = 0" "\<not> b_dirty (bufs s ! b)"
      "bget 1 n (bufs s) = Ok (b, (bufs s)[b := (bufs s ! b)\<lparr>b_dev := 1, b_blockno := n, b_valid := False,
         b_dirty := False, b_refcnt := 1, b_held := True\<rparr>])"
proof -
  note D = cache_invD [OF assms(1)]
  have xs: "set xs = {..<NBUF}" "seg (bufs s) HEAD xs HEAD" "HEAD \<notin> set xs" "length xs < NBUF + 1"
    using D(1) distinct_card [of xs] unfolding ring_def by simp_all
  let ?P = "\<lambda>x. b_dev x = 1 \<and> b_blockno x = n" and ?Q = "\<lambda>x. b_refcnt x = 0 \<and> \<not> b_dirty x"
  note w1 = walk_next [OF xs(2-4), of ?P] and w2 = walk_prev [OF xs(2-4), of ?Q]
  show ?thesis
  proof (cases "find (\<lambda>i. ?P (bufs s ! i)) xs")
    case (Some b)
    then have b: "b < NBUF" "caches n (bufs s ! b)" using find_SomeD [OF Some] xs(1) by (auto simp: caches_def)
    have "\<not> b_held (bufs s ! b)" using assms(2) b by (simp add: lookup_ok_def)
    then show ?thesis using hit [OF b] Some w1 D(5) [OF b(1)] by (simp add: bget_def lock_buf_def set_buf_def)
  next
    case None
    then have n: "\<not> caches n (bufs s ! i)" if "i < NBUF" for i using xs(1) that by (auto simp: find_None_iff caches_def)
    then obtain i where i: "i < NBUF" "?Q (bufs s ! i)" using assms(2) by (auto simp: lookup_ok_def)
    then obtain b where b: "find (\<lambda>i. ?Q (bufs s ! i)) (rev xs) = Some b" using xs(1)
      by (cases "find (\<lambda>i. ?Q (bufs s ! i)) (rev xs)") (auto simp: find_None_iff)
    then have b': "b < NBUF" "?Q (bufs s ! b)" using find_SomeD [OF b] xs(1) by auto
    have "\<not> b_held (bufs s ! b)" using D(2) [OF b'(1)] b'(2) by (auto simp: buf_ok_def)
    then show ?thesis
      using recycled [OF b'(1) n] b'(2) None b w1 w2 D(5) [OF b'(1)] by (simp add: bget_def lock_buf_def set_buf_def)
  qed
qed

lemma bread_spec:
  assumes inv: "cache_inv s xs" and l: "lookup_ok s n" "n < disksize s"
  shows "\<exists>b s'. bread 1 n s = Ok (b, s') \<and> b < NBUF \<and> cache_inv s' xs \<and> caches n (bufs s' ! b) \<and> b_held (bufs s' ! b) \<and> b_valid (bufs s' ! b)
    \<and> b_data (bufs s' ! b) = view s n \<and> (\<forall>m. view s' m = view s m) \<and> disk s' = disk s \<and> disksize s' = disksize s
    \<and> (\<forall>i. i \<noteq> b \<longrightarrow> bufs s' ! i = bufs s ! i) \<and> (b_refcnt (bufs s ! b) = 0 \<longrightarrow> b_refcnt (bufs s' ! b) = 1)
    \<and> (b_dirty (bufs s' ! b) \<or> b_data (bufs s' ! b) = disk s n) \<and> (b_dirty (bufs s' ! b) \<longrightarrow> b_dirty (bufs s ! b)) \<and> writes s' = writes s \<and> \<not> b_held (bufs s ! b)"
proof -
  note D = cache_invD [OF inv]
  have step: "\<exists>b s'. bread 1 n s = Ok (b, s') \<and> b < NBUF \<and> cache_inv s' xs \<and> caches n (bufs s' ! b) \<and> b_held (bufs s' ! b) \<and> b_valid (bufs s' ! b)
      \<and> b_data (bufs s' ! b) = view s n \<and> (\<forall>m. view s' m = view s m) \<and> disk s' = disk s \<and> disksize s' = disksize s
    \<and> (\<forall>i. i \<noteq> b \<longrightarrow> bufs s' ! i = bufs s ! i) \<and> (b_refcnt (bufs s ! b) = 0 \<longrightarrow> b_refcnt (bufs s' ! b) = 1)
    \<and> (b_dirty (bufs s' ! b) \<or> b_data (bufs s' ! b) = disk s n) \<and> (b_dirty (bufs s' ! b) \<longrightarrow> b_dirty (bufs s ! b)) \<and> writes s' = writes s \<and> \<not> b_held (bufs s ! b)"
    if b: "b < NBUF" and x: "caches n x" "b_held x" "b_refcnt x \<noteq> 0" "b_next x = b_next (bufs s ! b)" "b_prev x = b_prev (bufs s ! b)"
      and g: "bget 1 n (bufs s) = Ok (b, (bufs s)[b := x])" and un: "\<And>i. i < NBUF \<Longrightarrow> i \<noteq> b \<Longrightarrow> \<not> caches n (bufs s ! i)"
      and dv: "b_dirty x \<longrightarrow> b_valid x"
      and keep: "if b_valid x then caches n (bufs s ! b) \<and> b_valid (bufs s ! b) \<and> b_data x = b_data (bufs s ! b)
         else caches n (bufs s ! b) \<and> \<not> b_valid (bufs s ! b)
           \<or> \<not> caches n (bufs s ! b) \<and> (\<forall>m. caches m (bufs s ! b) \<longrightarrow> b_valid (bufs s ! b) \<longrightarrow> b_data (bufs s ! b) = disk s m)"
      and rc: "b_refcnt (bufs s ! b) = 0 \<longrightarrow> b_refcnt x = 1" and cl: "b_valid x \<longrightarrow> b_dirty x \<or> b_data x = disk s n"
      and dd: "b_dirty x \<longrightarrow> b_dirty (bufs s ! b)" and nh: "\<not> b_held (bufs s ! b)" for b x
  proof -
    define y where "y = (if b_valid x then x else x\<lparr>b_data := disk s n, b_valid := True\<rparr>)"
    define s' where "s' = s\<lparr>bufs := (bufs s)[b := y]\<rparr>"
    have y: "caches n y" "b_held y" "b_refcnt y \<noteq> 0" "b_valid y" "b_next y = b_next (bufs s ! b)" "b_prev y = b_prev (bufs s ! b)"
      using x by (simp_all add: y_def caches_def)
    have r: "bread 1 n s = Ok (b, s')"
      using g x D(5) [OF b] l(2) dv by (auto simp: bread_def iderw_def Let_def set_buf_def y_def s'_def caches_def)
    have inv': "cache_inv s' xs"
    proof (rule cache_inv_change [OF inv b y(5,6)])
      show "\<not> caches m (bufs s ! j)" if "j < NBUF" "j \<noteq> b" "caches m y" for j m
        using un [OF that(1,2)] that(3) y(1) by (auto simp: caches_def)
    qed (use y in \<open>simp_all add: s'_def buf_ok_def\<close>)
    have nb: "bufs s' ! i = (if i = b then y else bufs s ! i)" for i using D(5) [OF b] by (simp add: s'_def nth_list_update)
    have dk: "disk s' = disk s" by (simp add: s'_def)
    have v: "view s' m = view s m" for m
    proof (rule view_other [OF D(3) cache_invD(3) [OF inv'] b])
      show "own s' b m = own s b m"
        using keep y by (cases "b_valid x") (auto simp: own_def nb y_def dk caches_def split: if_splits)
    qed (simp add: nb)
    moreover have "view s' n = b_data y"
      using view_cached [OF cache_invD(3) [OF inv'] b, of n] y nb by simp
    moreover have "b_refcnt (bufs s ! b) = 0 \<longrightarrow> b_refcnt y = 1" "b_dirty y \<or> b_data y = disk s n" "b_dirty y \<longrightarrow> b_dirty (bufs s ! b)"
      using rc cl dd by (auto simp: y_def)
    ultimately show ?thesis using r inv' y(1,2,4) b nb dk nh by (intro exI [of _ b] exI [of _ s']) (simp add: s'_def)
  qed
  show ?thesis
  proof (rule bget_cases [OF inv l(1)])
    fix b assume h: "b < NBUF" "caches n (bufs s ! b)"
      "bget 1 n (bufs s) = Ok (b, (bufs s)[b := (bufs s ! b)\<lparr>b_refcnt := b_refcnt (bufs s ! b) + 1, b_held := True\<rparr>])"
    have un: "\<not> caches n (bufs s ! i)" if "i < NBUF" "i \<noteq> b" for i using unique_blocksD [OF D(3) _ h(2) that(1) h(1)] that(2) by blast
    have rc: "b_refcnt (bufs s ! b) + 1 \<noteq> 0" using l(1) h(1,2) by (simp add: lookup_ok_def)
    have nh: "\<not> b_held (bufs s ! b)" using l(1) h(1,2) by (simp add: lookup_ok_def)
    have dv: "b_dirty (bufs s ! b) \<longrightarrow> b_valid (bufs s ! b)" using D(2) [OF h(1)] by (simp add: buf_ok_def)
    have cl: "b_valid (bufs s ! b) \<longrightarrow> b_dirty (bufs s ! b) \<or> b_data (bufs s ! b) = disk s n"
      using D(2) [OF h(1)] l(1) h(1,2) by (auto simp: buf_ok_def lookup_ok_def caches_def)
    show ?thesis
      by (rule step [OF h(1) _ _ _ _ _ h(3) un]) (use h(2) rc dv cl nh in \<open>simp_all add: caches_def\<close>)
  next
    fix b assume h: "b < NBUF" "\<And>i. i < NBUF \<Longrightarrow> \<not> caches n (bufs s ! i)" "b_refcnt (bufs s ! b) = 0" "\<not> b_dirty (bufs s ! b)"
      "bget 1 n (bufs s) = Ok (b, (bufs s)[b := (bufs s ! b)\<lparr>b_dev := 1, b_blockno := n, b_valid := False,
         b_dirty := False, b_refcnt := 1, b_held := True\<rparr>])"
    have cl: "b_data (bufs s ! b) = disk s m" if "caches m (bufs s ! b)" "b_valid (bufs s ! b)" for m
      using D(2) [OF h(1)] h(3,4) that by (auto simp: buf_ok_def caches_def)
    have nh: "\<not> b_held (bufs s ! b)" using D(2) [OF h(1)] h(3) by (auto simp: buf_ok_def)
    show ?thesis
      by (rule step [OF h(1) _ _ _ _ _ h(5) h(2)]) (use h(1,2) cl nh in \<open>simp_all add: caches_def\<close>)
  qed
qed

lemma unique_other:
  "unique_blocks bs \<Longrightarrow> b < NBUF \<Longrightarrow> caches m (bs ! b) \<Longrightarrow> j < NBUF \<Longrightarrow> j \<noteq> b \<Longrightarrow> \<not> caches m (bs ! j)"
  by (blast dest: unique_blocksD)

text \<open>The holder of a buffer changes its data.\<close>

lemma modify_spec:
  assumes inv: "cache_inv s xs" and b: "b < NBUF" "caches n (bufs s ! b)" "b_held (bufs s ! b)"
    and s': "s' = s\<lparr>bufs := set_buf b (\<lambda>x. x\<lparr>b_data := d, b_valid := True, b_dirty := e\<rparr>) (bufs s)\<rparr>"
  shows "cache_inv s' xs" "view s' m = (if m = n then d else view s m)"
proof -
  note D = cache_invD [OF inv]
  let ?y = "(bufs s ! b)\<lparr>b_data := d, b_valid := True, b_dirty := e\<rparr>"
  have nb: "bufs s' ! i = (if i = b then ?y else bufs s ! i)" for i using D(5) [OF b(1)] by (simp add: s' set_buf_nth)
  have dk: "disk s' = disk s" by (simp add: s')
  have un: "\<not> caches m (bufs s ! j)" if "j < NBUF" "j \<noteq> b" "caches m ?y" for j m
    using unique_blocksD [OF D(3) _ _ that(1) b(1)] that(2,3) by (auto simp: caches_def)
  show inv': "cache_inv s' xs"
  proof (rule cache_inv_change [OF inv b(1), of ?y])
    show "buf_ok s' ?y" using D(2) [OF b(1)] b(3) by (simp add: buf_ok_def)
    show "\<And>j m. j < NBUF \<Longrightarrow> j \<noteq> b \<Longrightarrow> caches m ?y \<Longrightarrow> \<not> caches m (bufs s ! j)" by (rule un)
  qed (simp_all add: s' set_buf_def)
  show "view s' m = (if m = n then d else view s m)"
  proof (cases "m = n")
    case True
    then show ?thesis using view_cached [OF cache_invD(3) [OF inv'] b(1), of n] b(2) by (simp add: nb caches_def)
  next
    case False
    have "view s' m = view s m"
      by (rule view_other [OF D(3) cache_invD(3) [OF inv'] b(1)]) (use False b(2) in \<open>simp_all add: nb own_def caches_def dk\<close>)
    then show ?thesis using False by simp
  qed
qed

lemma bwrite_spec:
  assumes inv: "cache_inv s xs" and b: "b < NBUF" "caches n (bufs s ! b)" "b_held (bufs s ! b)" "n < disksize s"
  shows "\<exists>s'. bwrite b s = Ok s' \<and> cache_inv s' xs \<and> caches n (bufs s' ! b) \<and> b_held (bufs s' ! b)
    \<and> b_data (bufs s' ! b) = b_data (bufs s ! b) \<and> \<not> b_dirty (bufs s' ! b)
    \<and> disk s' = (disk s)(n := b_data (bufs s ! b)) \<and> writes s' = writes s @ [(n, b_data (bufs s ! b))]
    \<and> disksize s' = disksize s \<and> b_refcnt (bufs s' ! b) = b_refcnt (bufs s ! b) \<and> (\<forall>i. i \<noteq> b \<longrightarrow> bufs s' ! i = bufs s ! i) \<and> (\<forall>m. view s' m = (if m = n then b_data (bufs s ! b) else view s m))"
proof -
  note D = cache_invD [OF inv]
  let ?y = "(bufs s ! b)\<lparr>b_dirty := False, b_valid := True\<rparr>"
  define s' where "s' = s\<lparr>bufs := (bufs s)[b := ?y], disk := (disk s)(n := b_data (bufs s ! b)), writes := writes s @ [(n, b_data (bufs s ! b))]\<rparr>"
  have nb: "bufs s' ! i = (if i = b then ?y else bufs s ! i)" for i using D(5) [OF b(1)] by (simp add: s'_def nth_list_update)
  have r: "bwrite b s = Ok s'"
    using b D(5) [OF b(1)] by (auto simp: bwrite_def iderw_def Let_def set_buf_def s'_def caches_def)
  have inv': "cache_inv s' xs"
  proof (rule cache_inv_change [OF inv b(1), of ?y])
    show "buf_ok s' ?y" using D(2) [OF b(1)] b(3) by (simp add: buf_ok_def)
    show "\<not> caches m (bufs s ! j)" if "j < NBUF" "j \<noteq> b" "caches m ?y" for j m
      using unique_other [OF D(3) b(1) _ that(1,2)] that(3) by (simp add: caches_def)
  qed (use b(2) in \<open>auto simp: s'_def caches_def\<close>)
  have dk: "disk s' = (disk s)(n := b_data (bufs s ! b))" by (simp add: s'_def)
  have "view s' m = (if m = n then b_data (bufs s ! b) else view s m)" for m
  proof (cases "m = n")
    case True
    then show ?thesis using view_cached [OF cache_invD(3) [OF inv'] b(1), of n] b(2) by (simp add: nb caches_def)
  next
    case False
    have "view s' m = view s m"
      by (rule view_other [OF D(3) cache_invD(3) [OF inv'] b(1)]) (use False b(2) in \<open>simp_all add: nb own_def caches_def dk\<close>)
    then show ?thesis using False by simp
  qed
  then show ?thesis using r inv' b(2,3) nb dk by (intro exI [of _ s']) (simp add: caches_def, simp add: s'_def)
qed

lemma cache_inv_relink:
  assumes "cache_inv s xs" "b < NBUF"
  shows "cache_inv (s\<lparr>bufs := link_head b (unlink b (bufs s))\<rparr>) (b # remove1 b xs)"
    "view (s\<lparr>bufs := link_head b (unlink b (bufs s))\<rparr>) m = view s m"
proof -
  let ?s = "s\<lparr>bufs := link_head b (unlink b (bufs s))\<rparr>"
  note f = same_but_linksD [OF relink_fields [of "bufs s" _ b]]
  note D = cache_invD [OF assms(1)]
  have c: "caches k (bufs ?s ! i) = caches k (bufs s ! i)" for k i by (simp add: caches_def f)
  have "buf_ok ?s (bufs ?s ! i)" if "i < NBUF" for i using D(2) [OF that] by (simp add: buf_ok_def f)
  moreover have "unique_blocks (bufs ?s)" using D(3) unfolding unique_blocks_def c by simp
  ultimately show "cache_inv ?s (b # remove1 b xs)"
    using ring_relink [OF D(1) assms(2)] unfolding cache_inv_def by simp
  show "view ?s m = view s m" by (simp add: view_def c [simplified] f cong: option.case_cong)
qed

lemma brelse_spec:
  assumes inv: "cache_inv s xs" and b: "b < NBUF" "b_held (bufs s ! b)"
    and clean: "b_dev (bufs s ! b) = 1 \<longrightarrow> b_valid (bufs s ! b) \<longrightarrow> \<not> b_dirty (bufs s ! b) \<longrightarrow> b_data (bufs s ! b) = disk s (b_blockno (bufs s ! b))"
  shows "\<exists>s' ys. brelse b s = Ok s' \<and> cache_inv s' ys \<and> \<not> b_held (bufs s' ! b) \<and> (\<forall>m. view s' m = view s m) \<and> disk s' = disk s
    \<and> ys = (if b_refcnt (bufs s ! b) = 1 then b # remove1 b xs else xs) \<and> writes s' = writes s \<and> disksize s' = disksize s
    \<and> b_refcnt (bufs s' ! b) = b_refcnt (bufs s ! b) - 1 \<and> b_dirty (bufs s' ! b) = b_dirty (bufs s ! b)
    \<and> (\<forall>i. i \<noteq> b \<longrightarrow> same_but_links (bufs s ! i) (bufs s' ! i))"
proof -
  note D = cache_invD [OF inv]
  let ?y = "(bufs s ! b)\<lparr>b_held := False, b_refcnt := b_refcnt (bufs s ! b) - 1\<rparr>"
  define s1 where "s1 = s\<lparr>bufs := (bufs s)[b := ?y]\<rparr>"
  have nb: "bufs s1 ! i = (if i = b then ?y else bufs s ! i)" for i using D(5) [OF b(1)] by (simp add: s1_def nth_list_update)
  have dk: "disk s1 = disk s" by (simp add: s1_def)
  have inv1: "cache_inv s1 xs"
  proof (rule cache_inv_change [OF inv b(1), of ?y])
    show "buf_ok s1 ?y" using D(2) [OF b(1)] clean by (auto simp: buf_ok_def s1_def)
    show "\<not> caches m (bufs s ! j)" if "j < NBUF" "j \<noteq> b" "caches m ?y" for j m
      using unique_other [OF D(3) b(1) _ that(1,2)] that(3) by (simp add: caches_def)
  qed (simp_all add: s1_def)
  have v1: "view s1 m = view s m" for m
    by (rule view_other [OF D(3) cache_invD(3) [OF inv1] b(1)]) (simp_all add: nb own_def caches_def dk)
  have r: "brelse b s = Ok (s1\<lparr>bufs := if b_refcnt (bufs s ! b) = 1 then link_head b (unlink b (bufs s1)) else bufs s1\<rparr>)"
    using b D(5) [OF b(1)] by (simp add: brelse_def Let_def set_buf_def s1_def)
  show ?thesis
  proof (cases "b_refcnt (bufs s ! b) = 1")
    case True
    let ?bs = "link_head b (unlink b (bufs s1))"
    note f = same_but_linksD [OF relink_fields [of "bufs s1" b b]]
    have "\<not> b_held (?bs ! b)" "b_refcnt (?bs ! b) = b_refcnt (bufs s ! b) - 1" "b_dirty (?bs ! b) = b_dirty (bufs s ! b)"
      using f nb by simp_all
    moreover have "same_but_links (bufs s ! i) (?bs ! i)" if "i \<noteq> b" for i
      using relink_fields [of "bufs s1" i b] nb that by simp
    ultimately show ?thesis using r True cache_inv_relink [OF inv1 b(1)] v1 by (simp add: s1_def)
  next
    case False
    then have "brelse b s = Ok s1" using r by (simp add: s1_def)
    then show ?thesis using False inv1 v1 nb by (intro exI [of _ s1] exI [of _ xs]) (simp, simp add: s1_def)
  qed
qed

section \<open>Copying a block\<close>

text \<open>
  The body of the loops of log.c: two buffers are read, the data of one is moved to the other, which is written, and both are
  released. \<open>a\<close> is the source and \<open>b\<close> the destination.
\<close>

definition copy_held :: "nat \<Rightarrow> nat \<Rightarrow> bio \<Rightarrow> bio res" where
  "copy_held a b s =
     bind_res (bwrite b (s\<lparr>bufs := set_buf b (\<lambda>x. x\<lparr>b_data := b_data (bufs s ! a)\<rparr>) (bufs s)\<rparr>)) (\<lambda>s1.
     bind_res (brelse a s1) (\<lambda>s2. brelse b s2))"

text \<open>No buffer is in use.\<close>

definition idle :: "bio \<Rightarrow> bool" where
  "idle s \<longleftrightarrow> (\<forall>i < NBUF. \<not> b_held (bufs s ! i) \<and> b_refcnt (bufs s ! i) = 0)"

definition two_clean :: "bio \<Rightarrow> bool" where
  "two_clean s \<longleftrightarrow> (\<exists>i < NBUF. \<exists>j < NBUF. i \<noteq> j \<and> \<not> b_dirty (bufs s ! i) \<and> \<not> b_dirty (bufs s ! j))"

text \<open>Two buffers for different blocks can be held at once.\<close>

lemma lookup_two:
  assumes "idle s" "two_clean s"
    and "\<forall>i. i \<noteq> a \<longrightarrow> bufs s1 ! i = bufs s ! i" "caches m (bufs s1 ! a)" "m \<noteq> n" "a < NBUF"
  shows "lookup_ok s m" "lookup_ok s1 n"
proof -
  show "lookup_ok s m" using assms(1,2) by (auto simp: lookup_ok_def idle_def two_clean_def)
  obtain i where i: "i < NBUF" "i \<noteq> a" "\<not> b_dirty (bufs s ! i)" using assms(2) by (auto simp: two_clean_def)
  have "\<not> caches n (bufs s1 ! a)" using assms(4,5) by (auto simp: caches_def)
  then have "\<not> b_held (bufs s1 ! k) \<and> b_refcnt (bufs s1 ! k) + 1 \<noteq> 0" if "k < NBUF" "caches n (bufs s1 ! k)" for k
    using that assms(1,3) by (cases "k = a") (auto simp: idle_def)
  moreover have "b_refcnt (bufs s1 ! i) = 0 \<and> \<not> b_dirty (bufs s1 ! i)" using i assms(1,3) by (simp add: idle_def)
  ultimately show "lookup_ok s1 n" using i(1) by (auto simp: lookup_ok_def)
qed

text \<open>The state after block \<open>n\<close> was written with \<open>d\<close> and all buffers released.\<close>

definition wrote :: "bio \<Rightarrow> uint \<Rightarrow> byte list \<Rightarrow> bio \<Rightarrow> bool" where
  "wrote s n d s' \<longleftrightarrow> (\<exists>xs. cache_inv s' xs) \<and> idle s' \<and> (\<forall>i < NBUF. b_dirty (bufs s' ! i) \<longrightarrow> b_dirty (bufs s ! i))
     \<and> (\<forall>k. view s' k = (if k = n then d else view s k)) \<and> disk s' = (disk s)(n := d)
     \<and> writes s' = writes s @ [(n, d)] \<and> disksize s' = disksize s"

lemma copy_held_spec:
  assumes inv: "cache_inv s xs" and ab: "a < NBUF" "b < NBUF" "a \<noteq> b"
    and a: "caches m (bufs s ! a)" "b_held (bufs s ! a)" "b_refcnt (bufs s ! a) = 1" "b_dirty (bufs s ! a) \<or> b_data (bufs s ! a) = disk s m"
    and b: "caches n (bufs s ! b)" "b_held (bufs s ! b)" "b_refcnt (bufs s ! b) = 1" "b_valid (bufs s ! b)"
    and d: "b_data (bufs s ! a) = view s m" "m \<noteq> n" "n < disksize s"
    and rest: "\<forall>i < NBUF. i \<noteq> a \<longrightarrow> i \<noteq> b \<longrightarrow> \<not> b_held (bufs s ! i) \<and> b_refcnt (bufs s ! i) = 0"
  shows "\<exists>s'. copy_held a b s = Ok s' \<and> wrote s n (view s m) s'"
proof -
  define s1 where "s1 = s\<lparr>bufs := set_buf b (\<lambda>x. x\<lparr>b_data := view s m, b_valid := True, b_dirty := b_dirty (bufs s ! b)\<rparr>) (bufs s)\<rparr>"
  note M = modify_spec [OF inv ab(2) b(1,2) s1_def]
  have len: "a < length (bufs s)" "b < length (bufs s)" using cache_invD(5) [OF inv] ab by auto
  have n1: "bufs s1 ! i = (if i = b then (bufs s ! b)\<lparr>b_data := view s m\<rparr> else bufs s ! i)" for i
    using len b(4) by (cases "bufs s ! b") (simp add: s1_def set_buf_nth)
  have e1: "s\<lparr>bufs := set_buf b (\<lambda>x. x\<lparr>b_data := b_data (bufs s ! a)\<rparr>) (bufs s)\<rparr> = s1"
    using b(4) d(1) by (cases "bufs s ! b") (simp add: s1_def set_buf_def)
  have f1: "disk s1 = disk s" "writes s1 = writes s" "disksize s1 = disksize s" by (simp_all add: s1_def)
  obtain s2 where s2: "bwrite b s1 = Ok s2" "cache_inv s2 xs" "caches n (bufs s2 ! b)" "b_held (bufs s2 ! b)"
    "b_data (bufs s2 ! b) = view s m" "\<not> b_dirty (bufs s2 ! b)" "disk s2 = (disk s)(n := view s m)"
    "writes s2 = writes s @ [(n, view s m)]" "disksize s2 = disksize s" "b_refcnt (bufs s2 ! b) = 1"
    "\<forall>i. i \<noteq> b \<longrightarrow> bufs s2 ! i = bufs s ! i" "\<forall>k. view s2 k = (if k = n then view s m else view s k)"
    using bwrite_spec [OF M(1) ab(2), of n] b d(3) f1 M(2) by (auto simp: n1 caches_def)
  have a2: "bufs s2 ! a = bufs s ! a" using s2(11) ab(3) by simp
  have ca: "b_dev (bufs s2 ! a) = 1 \<longrightarrow> b_valid (bufs s2 ! a) \<longrightarrow> \<not> b_dirty (bufs s2 ! a) \<longrightarrow> b_data (bufs s2 ! a) = disk s2 (b_blockno (bufs s2 ! a))"
    using a(1,4) d(2) by (auto simp: a2 caches_def s2(7))
  obtain s3 ys where s3: "brelse a s2 = Ok s3" "cache_inv s3 ys" "\<not> b_held (bufs s3 ! a)" "\<forall>k. view s3 k = view s2 k" "disk s3 = disk s2"
    "writes s3 = writes s2" "disksize s3 = disksize s2" "b_refcnt (bufs s3 ! a) = 0" "b_dirty (bufs s3 ! a) = b_dirty (bufs s ! a)"
    "\<forall>i. i \<noteq> a \<longrightarrow> same_but_links (bufs s2 ! i) (bufs s3 ! i)"
    using brelse_spec [OF s2(2) ab(1) _ ca] a(2,3) a2 by auto
  note f3 = same_but_linksD [OF s3(10) [rule_format]]
  have b3: "b_held (bufs s3 ! b)" "b_data (bufs s3 ! b) = view s m" "b_refcnt (bufs s3 ! b) = 1" "\<not> b_dirty (bufs s3 ! b)" "caches n (bufs s3 ! b)"
    using f3 [of b] ab(3) s2(3-6,10) by (auto simp: caches_def)
  have cb: "b_dev (bufs s3 ! b) = 1 \<longrightarrow> b_valid (bufs s3 ! b) \<longrightarrow> \<not> b_dirty (bufs s3 ! b) \<longrightarrow> b_data (bufs s3 ! b) = disk s3 (b_blockno (bufs s3 ! b))"
    using b3(2,5) s3(5) s2(7) by (simp add: caches_def)
  obtain s4 zs where s4: "brelse b s3 = Ok s4" "cache_inv s4 zs" "\<not> b_held (bufs s4 ! b)" "\<forall>k. view s4 k = view s3 k" "disk s4 = disk s3"
    "writes s4 = writes s3" "disksize s4 = disksize s3" "b_refcnt (bufs s4 ! b) = 0" "\<not> b_dirty (bufs s4 ! b)"
    "\<forall>i. i \<noteq> b \<longrightarrow> same_but_links (bufs s3 ! i) (bufs s4 ! i)"
    using brelse_spec [OF s3(2) ab(2) b3(1) cb] b3(3,4) by auto
  note f4 = same_but_linksD [OF s4(10) [rule_format]]
  have fin: "\<not> b_held (bufs s4 ! i) \<and> b_refcnt (bufs s4 ! i) = 0 \<and> (b_dirty (bufs s4 ! i) \<longrightarrow> b_dirty (bufs s ! i))" if "i < NBUF" for i
  proof -
    consider "i = b" | "i = a" | "i \<noteq> a" "i \<noteq> b" by blast
    then show ?thesis
    proof cases
      case 1
      then show ?thesis using s4(3,8,9) by simp
    next
      case 2
      then show ?thesis using f4 [of a] ab(3) s3(3,8,9) by simp
    next
      case 3
      then show ?thesis using f4 [of i] f3 [of i] s2(11) rest that by simp
    qed
  qed
  have "copy_held a b s = Ok s4" using e1 s2(1) s3(1) s4(1) by (simp add: copy_held_def)
  moreover have "wrote s n (view s m) s4"
    unfolding wrote_def idle_def using fin s4(2,4-7) s3(4-7) s2(7-9,12) by auto
  ultimately show ?thesis by blast
qed

end
