(* ===== verification/Log.thy ===== *)
theory Log
  imports Bio
begin

text \<open>
  The redo log (log.c) over the buffer cache. A transaction's blocks stay in the cache, marked dirty, until the last
  system call of the group ends; \<^verbatim>\<open>commit\<close> then copies them to the log, writes the header, copies them home and clears the
  header. The history of disk writes of theory \<^verbatim>\<open>Bio\<close> gives the states a crash can leave behind.

  \<^verbatim>\<open>begin_op\<close> is one pass of its loop: \<open>None\<close> when it sleeps. The header's array has \<open>LOGSIZE\<close> entries; a header read from the disk
  with a larger count leaves the array, which is \<open>Fault\<close>.
\<close>

section \<open>Definitions\<close>

definition MAXOPBLOCKS :: int where "MAXOPBLOCKS = 10"
definition LOGSIZE :: nat where "LOGSIZE = 30"

record log =
  lg_start :: uint
  lg_size :: int
  outstanding :: int
  committing :: bool
  lg_dev :: uint
  lh_n :: int
  lh_block :: "uint list"

definition log_loc :: "log \<Rightarrow> nat \<Rightarrow> uint" where
  "log_loc l i = lg_start l + word_of_nat i + 1"

text \<open>\<^verbatim>\<open>install_trans\<close>, one block and the loop.\<close>

definition install_block :: "log \<Rightarrow> nat \<Rightarrow> bio \<Rightarrow> bio res" where
  "install_block l i s =
     bind_res (bread (lg_dev l) (log_loc l i) s) (\<lambda>(lbuf, s1).
     bind_res (bread (lg_dev l) (lh_block l ! i) s1) (\<lambda>(dbuf, s2). copy_held lbuf dbuf s2))"

fun for_blocks :: "(nat \<Rightarrow> bio \<Rightarrow> bio res) \<Rightarrow> nat list \<Rightarrow> bio \<Rightarrow> bio res" where
  "for_blocks f [] s = Ok s"
| "for_blocks f (i # is) s = bind_res (f i s) (for_blocks f is)"

definition install_trans :: "log \<Rightarrow> bio \<Rightarrow> bio res" where
  "install_trans l s = for_blocks (install_block l) [0..<nat (lh_n l)] s"

definition read_head :: "log \<Rightarrow> bio \<Rightarrow> (log \<times> bio) res" where
  "read_head l s =
     bind_res (bread (lg_dev l) (lg_start l) s) (\<lambda>(b, s1).
     let d = b_data (bufs s1 ! b); n = sint (get32 d 0)
     in if n > int LOGSIZE then Fault
        else bind_res (brelse b s1) (\<lambda>s2.
          Ok (l\<lparr>lh_n := n, lh_block := get_words d 4 (nat n) @ drop (nat n) (lh_block l)\<rparr>, s2)))"

definition write_head :: "log \<Rightarrow> bio \<Rightarrow> bio res" where
  "write_head l s =
     bind_res (bread (lg_dev l) (lg_start l) s) (\<lambda>(b, s1).
     let d = b_data (bufs s1 ! b);
         d' = put_words (put32 d 0 (word_of_int (lh_n l))) 4 (take (nat (lh_n l)) (lh_block l))
     in bind_res (bwrite b (s1\<lparr>bufs := set_buf b (\<lambda>x. x\<lparr>b_data := d'\<rparr>) (bufs s1)\<rparr>)) (\<lambda>s2. brelse b s2))"

definition recover_from_log :: "log \<Rightarrow> bio \<Rightarrow> (log \<times> bio) res" where
  "recover_from_log l s =
     bind_res (read_head l s) (\<lambda>(l1, s1).
     bind_res (install_trans l1 s1) (\<lambda>s2.
     let l2 = l1\<lparr>lh_n := 0\<rparr> in bind_res (write_head l2 s2) (\<lambda>s3. Ok (l2, s3))))"

definition initlog :: "uint \<Rightarrow> uint \<Rightarrow> uint \<Rightarrow> log \<Rightarrow> bio \<Rightarrow> (log \<times> bio) res" where
  "initlog dev logstart nlog l s =
     recover_from_log (l\<lparr>lg_start := logstart, lg_size := sint nlog, lg_dev := dev\<rparr>) s"

definition begin_op :: "log \<Rightarrow> log option" where
  "begin_op l =
     (if committing l then None
      else if lh_n l + (outstanding l + 1) * MAXOPBLOCKS > int LOGSIZE then None
      else Some (l\<lparr>outstanding := outstanding l + 1\<rparr>))"

text \<open>\<^verbatim>\<open>write_log\<close>, one block and the loop.\<close>

definition log_block :: "log \<Rightarrow> nat \<Rightarrow> bio \<Rightarrow> bio res" where
  "log_block l i s =
     bind_res (bread (lg_dev l) (log_loc l i) s) (\<lambda>(to, s1).
     bind_res (bread (lg_dev l) (lh_block l ! i) s1) (\<lambda>(from, s2). copy_held from to s2))"

definition write_log :: "log \<Rightarrow> bio \<Rightarrow> bio res" where
  "write_log l s = for_blocks (log_block l) [0..<nat (lh_n l)] s"

definition commit :: "log \<Rightarrow> bio \<Rightarrow> (log \<times> bio) res" where
  "commit l s =
     (if lh_n l > 0
      then bind_res (write_log l s) (\<lambda>s1.
           bind_res (write_head l s1) (\<lambda>s2.
           bind_res (install_trans l s2) (\<lambda>s3.
           let l1 = l\<lparr>lh_n := 0\<rparr> in bind_res (write_head l1 s3) (\<lambda>s4. Ok (l1, s4)))))
      else Ok (l, s))"

definition end_op :: "log \<Rightarrow> bio \<Rightarrow> (log \<times> bio) res" where
  "end_op l s =
     (let l1 = l\<lparr>outstanding := outstanding l - 1\<rparr>
      in if committing l1 then Panic ''log.committing''
         else if outstanding l1 = 0
         then bind_res (commit (l1\<lparr>committing := True\<rparr>) s) (\<lambda>(l2, s2). Ok (l2\<lparr>committing := False\<rparr>, s2))
         else Ok (l1, s))"

definition log_write :: "nat \<Rightarrow> log \<Rightarrow> bio \<Rightarrow> (log \<times> bio) res" where
  "log_write b l s =
     (if lh_n l \<ge> int LOGSIZE \<or> lh_n l \<ge> lg_size l - 1 then Panic ''too big a transaction''
      else if outstanding l < 1 then Panic ''log_write outside of trans''
      else let n = nat (lh_n l); x = b_blockno (bufs s ! b);
               i = (case find_index (\<lambda>k. k = x) (take n (lh_block l)) of Some i \<Rightarrow> i | None \<Rightarrow> n);
               l1 = l\<lparr>lh_block := (lh_block l)[i := x]\<rparr>
           in Ok (if i = n then l1\<lparr>lh_n := lh_n l + 1\<rparr> else l1,
                  s\<lparr>bufs := set_buf b (\<lambda>x. x\<lparr>b_dirty := True\<rparr>) (bufs s)\<rparr>))"

section \<open>One block\<close>

abbreviation rested :: "bio \<Rightarrow> bool" where
  "rested s \<equiv> (\<exists>xs. cache_inv s xs) \<and> idle s \<and> two_clean s"

lemma two_clean_mono:
  "two_clean s \<Longrightarrow> \<forall>i < NBUF. b_dirty (bufs s' ! i) \<longrightarrow> b_dirty (bufs s ! i) \<Longrightarrow> two_clean s'"
  unfolding two_clean_def by blast

lemma wrote_rested: "rested s \<Longrightarrow> wrote s n d s' \<Longrightarrow> rested s'"
  using two_clean_mono by (auto simp: wrote_def)

text \<open>Reading two blocks and copying one to the other.\<close>

lemma read_two:
  assumes "rested s" "m \<noteq> n" "m < disksize s" "n < disksize s"
  obtains a b s1 s2 xs where "bread 1 m s = Ok (a, s1)" "bread 1 n s1 = Ok (b, s2)" "cache_inv s2 xs" "a < NBUF" "b < NBUF" "a \<noteq> b"
    "caches m (bufs s2 ! a)" "b_held (bufs s2 ! a)" "b_refcnt (bufs s2 ! a) = 1" "b_valid (bufs s2 ! a)"
    "b_dirty (bufs s2 ! a) \<or> b_data (bufs s2 ! a) = disk s m" "b_data (bufs s2 ! a) = view s m"
    "caches n (bufs s2 ! b)" "b_held (bufs s2 ! b)" "b_refcnt (bufs s2 ! b) = 1" "b_valid (bufs s2 ! b)"
    "b_dirty (bufs s2 ! b) \<or> b_data (bufs s2 ! b) = disk s n" "b_data (bufs s2 ! b) = view s n"
    "\<forall>k. view s2 k = view s k" "disk s2 = disk s" "writes s2 = writes s" "disksize s2 = disksize s"
    "\<forall>i < NBUF. i \<noteq> a \<longrightarrow> i \<noteq> b \<longrightarrow> \<not> b_held (bufs s2 ! i) \<and> b_refcnt (bufs s2 ! i) = 0"
    "\<forall>i < NBUF. b_dirty (bufs s2 ! i) \<longrightarrow> b_dirty (bufs s ! i)"
proof -
  obtain xs where inv: "cache_inv s xs" and id: "idle s" and tc: "two_clean s" using assms(1) by blast
  have l1: "lookup_ok s m" using id tc by (auto simp: lookup_ok_def idle_def two_clean_def)
  obtain a s1 where s1: "bread 1 m s = Ok (a, s1)" "a < NBUF" "cache_inv s1 xs" "caches m (bufs s1 ! a)" "b_held (bufs s1 ! a)"
    "b_valid (bufs s1 ! a)" "b_data (bufs s1 ! a) = view s m" "\<forall>k. view s1 k = view s k" "disk s1 = disk s" "disksize s1 = disksize s"
    "\<forall>i. i \<noteq> a \<longrightarrow> bufs s1 ! i = bufs s ! i" "b_refcnt (bufs s ! a) = 0 \<longrightarrow> b_refcnt (bufs s1 ! a) = 1"
    "b_dirty (bufs s1 ! a) \<or> b_data (bufs s1 ! a) = disk s m" "b_dirty (bufs s1 ! a) \<longrightarrow> b_dirty (bufs s ! a)" "writes s1 = writes s"
    using bread_spec [OF inv l1 assms(3)] by blast
  have l2: "lookup_ok s1 n" by (rule lookup_two(2) [OF id tc s1(11,4) assms(2) s1(2)])
  obtain b s2 where s2: "bread 1 n s1 = Ok (b, s2)" "b < NBUF" "cache_inv s2 xs" "caches n (bufs s2 ! b)" "b_held (bufs s2 ! b)"
    "b_valid (bufs s2 ! b)" "b_data (bufs s2 ! b) = view s1 n" "\<forall>k. view s2 k = view s1 k" "disk s2 = disk s1" "disksize s2 = disksize s1"
    "\<forall>i. i \<noteq> b \<longrightarrow> bufs s2 ! i = bufs s1 ! i" "b_refcnt (bufs s1 ! b) = 0 \<longrightarrow> b_refcnt (bufs s2 ! b) = 1"
    "b_dirty (bufs s2 ! b) \<or> b_data (bufs s2 ! b) = disk s1 n" "b_dirty (bufs s2 ! b) \<longrightarrow> b_dirty (bufs s1 ! b)" "writes s2 = writes s1" "\<not> b_held (bufs s1 ! b)"
    using bread_spec [OF s1(3) l2] assms(4) s1(10) by (metis (no_types, lifting))
  have ab: "a \<noteq> b" using s2(16) s1(5) by auto
  have r: "b_refcnt (bufs s1 ! a) = 1" using s1(12) id s1(2) by (simp add: idle_def)
  have "b_refcnt (bufs s1 ! b) = 0" using s1(11) ab id s2(2) by (simp add: idle_def)
  then have r2: "b_refcnt (bufs s2 ! b) = 1" using s2(12) by simp
  have a2: "bufs s2 ! a = bufs s1 ! a" using s2(11) ab by simp
  have rest: "\<forall>i < NBUF. i \<noteq> a \<longrightarrow> i \<noteq> b \<longrightarrow> \<not> b_held (bufs s2 ! i) \<and> b_refcnt (bufs s2 ! i) = 0"
    using s2(11) s1(11) id by (simp add: idle_def)
  have dirt: "\<forall>i < NBUF. b_dirty (bufs s2 ! i) \<longrightarrow> b_dirty (bufs s ! i)"
    using s2(11,14) s1(11,14) ab by metis
  show ?thesis
    by (rule that [OF s1(1) s2(1) s2(3) s1(2) s2(2) ab])
      (use s1 s2 r r2 a2 rest dirt in simp_all)
qed

lemma wrote_start:
  assumes "wrote s2 n d s'" "\<forall>k. view s2 k = view s k" "disk s2 = disk s" "writes s2 = writes s" "disksize s2 = disksize s"
    "\<forall>i < NBUF. b_dirty (bufs s2 ! i) \<longrightarrow> b_dirty (bufs s ! i)"
  shows "wrote s n d s'"
  using assms by (auto simp: wrote_def)

lemma copy_blocks:
  assumes "rested s" "m \<noteq> n" "m < disksize s" "n < disksize s"
  shows "\<exists>s'. bind_res (bread 1 m s) (\<lambda>(a, s1). bind_res (bread 1 n s1) (\<lambda>(b, s2). copy_held a b s2)) = Ok s' \<and> wrote s n (view s m) s'"
    "\<exists>s'. bind_res (bread 1 n s) (\<lambda>(b, s1). bind_res (bread 1 m s1) (\<lambda>(a, s2). copy_held a b s2)) = Ok s' \<and> wrote s n (view s m) s'"
proof -
  show "\<exists>s'. bind_res (bread 1 m s) (\<lambda>(a, s1). bind_res (bread 1 n s1) (\<lambda>(b, s2). copy_held a b s2)) = Ok s' \<and> wrote s n (view s m) s'"
  proof (rule read_two [OF assms])
    fix a b s1 s2 xs assume r: "bread 1 m s = Ok (a, s1)" "bread 1 n s1 = Ok (b, s2)" "cache_inv s2 xs" "a < NBUF" "b < NBUF" "a \<noteq> b"
      "caches m (bufs s2 ! a)" "b_held (bufs s2 ! a)" "b_refcnt (bufs s2 ! a) = 1" "b_valid (bufs s2 ! a)"
      "b_dirty (bufs s2 ! a) \<or> b_data (bufs s2 ! a) = disk s m" "b_data (bufs s2 ! a) = view s m"
      "caches n (bufs s2 ! b)" "b_held (bufs s2 ! b)" "b_refcnt (bufs s2 ! b) = 1" "b_valid (bufs s2 ! b)"
      "\<forall>k. view s2 k = view s k" "disk s2 = disk s" "writes s2 = writes s" "disksize s2 = disksize s"
      "\<forall>i < NBUF. i \<noteq> a \<longrightarrow> i \<noteq> b \<longrightarrow> \<not> b_held (bufs s2 ! i) \<and> b_refcnt (bufs s2 ! i) = 0"
      "\<forall>i < NBUF. b_dirty (bufs s2 ! i) \<longrightarrow> b_dirty (bufs s ! i)"
    have "\<exists>s'. copy_held a b s2 = Ok s' \<and> wrote s2 n (view s2 m) s'"
      by (rule copy_held_spec [OF r(3-6) r(7-9) _ r(13-16)]) (use r assms(2,4) in simp_all)
    then show ?thesis using r(1,2) wrote_start [OF _ r(17-20,22)] r(17) by auto
  qed
  show "\<exists>s'. bind_res (bread 1 n s) (\<lambda>(b, s1). bind_res (bread 1 m s1) (\<lambda>(a, s2). copy_held a b s2)) = Ok s' \<and> wrote s n (view s m) s'"
  proof (rule read_two [OF assms(1) assms(2) [symmetric] assms(4,3)])
    fix b a s1 s2 xs assume r: "bread 1 n s = Ok (b, s1)" "bread 1 m s1 = Ok (a, s2)" "cache_inv s2 xs" "b < NBUF" "a < NBUF" "b \<noteq> a"
      "caches n (bufs s2 ! b)" "b_held (bufs s2 ! b)" "b_refcnt (bufs s2 ! b) = 1" "b_valid (bufs s2 ! b)"
      "caches m (bufs s2 ! a)" "b_held (bufs s2 ! a)" "b_refcnt (bufs s2 ! a) = 1"
      "b_dirty (bufs s2 ! a) \<or> b_data (bufs s2 ! a) = disk s m" "b_data (bufs s2 ! a) = view s m"
      "\<forall>k. view s2 k = view s k" "disk s2 = disk s" "writes s2 = writes s" "disksize s2 = disksize s"
      "\<forall>i < NBUF. i \<noteq> b \<longrightarrow> i \<noteq> a \<longrightarrow> \<not> b_held (bufs s2 ! i) \<and> b_refcnt (bufs s2 ! i) = 0"
      "\<forall>i < NBUF. b_dirty (bufs s2 ! i) \<longrightarrow> b_dirty (bufs s ! i)"
    have "\<exists>s'. copy_held a b s2 = Ok s' \<and> wrote s2 n (view s2 m) s'"
      by (rule copy_held_spec [OF r(3,5,4) r(6) [symmetric] r(11-13) _ r(7-10)]) (use r assms(2,4) in simp_all)
    then show ?thesis using r(1,2) wrote_start [OF _ r(16-19,21)] r(16) by auto
  qed
qed

text \<open>Reading a block, changing it and writing it; and reading it only.\<close>

lemma rewrite_block:
  assumes "rested s" "n < disksize s"
  shows "\<exists>b s1 s2 s'. bread 1 n s = Ok (b, s1) \<and> b_data (bufs s1 ! b) = view s n
      \<and> bwrite b (s1\<lparr>bufs := set_buf b (\<lambda>x. x\<lparr>b_data := d\<rparr>) (bufs s1)\<rparr>) = Ok s2 \<and> brelse b s2 = Ok s' \<and> wrote s n d s'"
    and "\<exists>b s1 s'. bread 1 n s = Ok (b, s1) \<and> b_data (bufs s1 ! b) = view s n \<and> brelse b s1 = Ok s' \<and> rested s'
      \<and> (\<forall>k. view s' k = view s k) \<and> disk s' = disk s \<and> writes s' = writes s \<and> disksize s' = disksize s
      \<and> (\<forall>i < NBUF. b_dirty (bufs s' ! i) \<longrightarrow> b_dirty (bufs s ! i))"
proof -
  obtain xs where inv: "cache_inv s xs" and id: "idle s" and tc: "two_clean s" using assms(1) by blast
  have l: "lookup_ok s n" using id tc by (auto simp: lookup_ok_def idle_def two_clean_def)
  obtain b s1 where s1: "bread 1 n s = Ok (b, s1)" "b < NBUF" "cache_inv s1 xs" "caches n (bufs s1 ! b)" "b_held (bufs s1 ! b)"
    "b_valid (bufs s1 ! b)" "b_data (bufs s1 ! b) = view s n" "\<forall>k. view s1 k = view s k" "disk s1 = disk s" "disksize s1 = disksize s"
    "\<forall>i. i \<noteq> b \<longrightarrow> bufs s1 ! i = bufs s ! i" "b_refcnt (bufs s ! b) = 0 \<longrightarrow> b_refcnt (bufs s1 ! b) = 1"
    "b_dirty (bufs s1 ! b) \<or> b_data (bufs s1 ! b) = disk s n" "b_dirty (bufs s1 ! b) \<longrightarrow> b_dirty (bufs s ! b)" "writes s1 = writes s"
    using bread_spec [OF inv l assms(2)] by blast
  have r1: "b_refcnt (bufs s1 ! b) = 1" using s1(2,12) id by (simp add: idle_def)
  have o1: "\<not> b_held (bufs s1 ! i) \<and> b_refcnt (bufs s1 ! i) = 0" if "i < NBUF" "i \<noteq> b" for i
    using s1(11) id that by (simp add: idle_def)
  have d1: "b_dirty (bufs s1 ! i) \<longrightarrow> b_dirty (bufs s ! i)" for i using s1(11,14) by metis
  {
    define s1' where "s1' = s1\<lparr>bufs := set_buf b (\<lambda>x. x\<lparr>b_data := d, b_valid := True, b_dirty := b_dirty (bufs s1 ! b)\<rparr>) (bufs s1)\<rparr>"
    note M = modify_spec [OF s1(3,2,4,5) s1'_def]
    have len: "b < length (bufs s1)" using cache_invD(5) [OF s1(3,2)] by simp
    have e: "s1\<lparr>bufs := set_buf b (\<lambda>x. x\<lparr>b_data := d\<rparr>) (bufs s1)\<rparr> = s1'"
      using s1(6) by (cases "bufs s1 ! b") (simp add: s1'_def set_buf_def)
    have n1: "bufs s1' ! i = (if i = b then (bufs s1 ! b)\<lparr>b_data := d\<rparr> else bufs s1 ! i)" for i
      using len s1(6) by (cases "bufs s1 ! b") (simp add: s1'_def set_buf_nth)
    have f: "disk s1' = disk s" "writes s1' = writes s" "disksize s1' = disksize s" using s1(9,10,15) by (simp_all add: s1'_def)
    obtain s2 where s2: "bwrite b s1' = Ok s2" "cache_inv s2 xs" "caches n (bufs s2 ! b)" "b_held (bufs s2 ! b)"
      "b_data (bufs s2 ! b) = d" "\<not> b_dirty (bufs s2 ! b)" "disk s2 = (disk s)(n := d)"
      "writes s2 = writes s @ [(n, d)]" "disksize s2 = disksize s" "b_refcnt (bufs s2 ! b) = 1"
      "\<forall>i. i \<noteq> b \<longrightarrow> bufs s2 ! i = bufs s1 ! i" "\<forall>k. view s2 k = (if k = n then d else view s k)"
      using bwrite_spec [OF M(1) s1(2), of n] s1(4,5,8) r1 assms(2) f M(2) by (auto simp: n1 caches_def)
    obtain s3 ys where s3: "brelse b s2 = Ok s3" "cache_inv s3 ys" "\<not> b_held (bufs s3 ! b)" "\<forall>k. view s3 k = view s2 k" "disk s3 = disk s2"
      "writes s3 = writes s2" "disksize s3 = disksize s2" "b_refcnt (bufs s3 ! b) = 0" "\<not> b_dirty (bufs s3 ! b)"
      "\<forall>i. i \<noteq> b \<longrightarrow> same_but_links (bufs s2 ! i) (bufs s3 ! i)"
      using brelse_spec [OF s2(2) s1(2) s2(4)] s2(3,5,6,7,10) by (auto simp: caches_def)
    note f3 = same_but_linksD [OF s3(10) [rule_format]]
    have "\<not> b_held (bufs s3 ! i) \<and> b_refcnt (bufs s3 ! i) = 0 \<and> (b_dirty (bufs s3 ! i) \<longrightarrow> b_dirty (bufs s ! i))" if "i < NBUF" for i
      using s3(3,8,9) f3 [of i] s2(11) o1 [OF that] d1 [of i] by (cases "i = b") auto
    then have "wrote s n d s3" unfolding wrote_def idle_def using s3(2,4-7) s2(7-9,12) by auto
    then show "\<exists>b s1 s2 s'. bread 1 n s = Ok (b, s1) \<and> b_data (bufs s1 ! b) = view s n
      \<and> bwrite b (s1\<lparr>bufs := set_buf b (\<lambda>x. x\<lparr>b_data := d\<rparr>) (bufs s1)\<rparr>) = Ok s2 \<and> brelse b s2 = Ok s' \<and> wrote s n d s'"
      using s1(1,7) s2(1) s3(1) e by (intro exI [of _ b] exI [of _ s1] exI [of _ s2] exI [of _ s3]) simp
  }
  obtain s3 ys where s3: "brelse b s1 = Ok s3" "cache_inv s3 ys" "\<not> b_held (bufs s3 ! b)" "\<forall>k. view s3 k = view s1 k" "disk s3 = disk s1"
      "writes s3 = writes s1" "disksize s3 = disksize s1" "b_refcnt (bufs s3 ! b) = 0" "b_dirty (bufs s3 ! b) = b_dirty (bufs s1 ! b)"
      "\<forall>i. i \<noteq> b \<longrightarrow> same_but_links (bufs s1 ! i) (bufs s3 ! i)"
    using brelse_spec [OF s1(3,2,5)] s1(4,9,13) r1 by (auto simp: caches_def)
  note f3 = same_but_linksD [OF s3(10) [rule_format]]
  have fin: "\<not> b_held (bufs s3 ! i) \<and> b_refcnt (bufs s3 ! i) = 0 \<and> (b_dirty (bufs s3 ! i) \<longrightarrow> b_dirty (bufs s ! i))" if "i < NBUF" for i
    using s3(3,8,9) f3 [of i] o1 [OF that] d1 [of i] by (cases "i = b") auto
  then have "rested s3" using s3(2) two_clean_mono [OF tc, of s3] by (auto simp: idle_def)
  then show "\<exists>b s1 s'. bread 1 n s = Ok (b, s1) \<and> b_data (bufs s1 ! b) = view s n \<and> brelse b s1 = Ok s' \<and> rested s'
      \<and> (\<forall>k. view s' k = view s k) \<and> disk s' = disk s \<and> writes s' = writes s \<and> disksize s' = disksize s
      \<and> (\<forall>i < NBUF. b_dirty (bufs s' ! i) \<longrightarrow> b_dirty (bufs s ! i))"
    using s1(1,7-10,15) s3(1,4-7) fin by (intro exI [of _ b] exI [of _ s1] exI [of _ s3]) simp
qed

section \<open>Sequences of block writes\<close>

definition apply_writes :: "(uint \<times> blk) list \<Rightarrow> (uint \<Rightarrow> blk) \<Rightarrow> uint \<Rightarrow> blk" where
  "apply_writes ws d = fold (\<lambda>(k, v) d. d(k := v)) ws d"

lemma apply_writes_simps [simp]:
  "apply_writes [] d = d" "apply_writes ((k, v) # ws) d = apply_writes ws (d(k := v))"
  "apply_writes (ws @ vs) d = apply_writes vs (apply_writes ws d)"
  by (simp_all add: apply_writes_def)

lemma apply_writes_other: "k \<notin> fst ` set ws \<Longrightarrow> apply_writes ws d k = d k"
  by (induction ws arbitrary: d) auto

lemma apply_writes_map:
  assumes "distinct (map t is)" "i \<in> set is"
  shows "apply_writes (map (\<lambda>i. (t i, v i)) is) d (t i) = v i"
  using assms
proof (induction "is" arbitrary: d)
  case (Cons j "is")
  show ?case
  proof (cases "i = j")
    case True
    have "t j \<notin> fst ` set (map (\<lambda>i. (t i, v i)) is)" using Cons.prems(1) by force
    then show ?thesis using True by (simp add: apply_writes_other)
  qed (use Cons in auto)
qed simp

lemma apply_writes_cong: "(\<And>k. d k = d' k) \<Longrightarrow> apply_writes ws d = apply_writes ws d'"
  by (metis ext)

text \<open>A loop that copies blocks, none of which is a source of a later copy.\<close>

lemma for_blocks_copy:
  assumes "rested s" "\<forall>i \<in> set is. \<forall>j \<in> set is. src i \<noteq> tgt j"
    and "\<forall>i \<in> set is. \<forall>t. rested t \<longrightarrow> disksize t = disksize s \<longrightarrow> (\<exists>t'. f i t = Ok t' \<and> wrote t (tgt i) (view t (src i)) t')"
  shows "\<exists>s'. for_blocks f is s = Ok s' \<and> rested s' \<and> disksize s' = disksize s
    \<and> writes s' = writes s @ map (\<lambda>i. (tgt i, view s (src i))) is
    \<and> view s' = apply_writes (map (\<lambda>i. (tgt i, view s (src i))) is) (view s)
    \<and> disk s' = apply_writes (map (\<lambda>i. (tgt i, view s (src i))) is) (disk s)"
  using assms
proof (induction "is" arbitrary: s)
  case (Cons i "is")
  obtain s1 where s1: "f i s = Ok s1" "wrote s (tgt i) (view s (src i)) s1" using Cons.prems(1,3) by auto
  have r1: "rested s1" using Cons.prems(1) s1(2) by (rule wrote_rested)
  have w: "view s1 = (view s)(tgt i := view s (src i))" "disk s1 = (disk s)(tgt i := view s (src i))"
    "writes s1 = writes s @ [(tgt i, view s (src i))]" "disksize s1 = disksize s"
    using s1(2) by (auto simp: wrote_def fun_eq_iff)
  have src: "view s1 (src j) = view s (src j)" if "j \<in> set is" for j using Cons.prems(2) that by (simp add: w(1))
  have m: "map (\<lambda>j. (tgt j, view s1 (src j))) is = map (\<lambda>j. (tgt j, view s (src j))) is" using src by simp
  have "\<exists>s'. for_blocks f is s1 = Ok s' \<and> rested s' \<and> disksize s' = disksize s1
    \<and> writes s' = writes s1 @ map (\<lambda>j. (tgt j, view s1 (src j))) is
    \<and> view s' = apply_writes (map (\<lambda>j. (tgt j, view s1 (src j))) is) (view s1)
    \<and> disk s' = apply_writes (map (\<lambda>j. (tgt j, view s1 (src j))) is) (disk s1)"
    by (rule Cons.IH [OF r1]) (use Cons.prems(2,3) w(4) in auto)
  then show ?case unfolding m using s1(1) w by auto
qed auto

section \<open>Commit and recovery\<close>

text \<open>The blocks of a transaction, and a log whose blocks and area lie on the disk, apart from each other.\<close>

definition logged :: "log \<Rightarrow> uint list" where
  "logged l = take (nat (lh_n l)) (lh_block l)"

definition log_area :: "log \<Rightarrow> uint set" where
  "log_area l = insert (lg_start l) (log_loc l ` {..<nat (lg_size l - 1)})"

definition log_ok :: "log \<Rightarrow> uint \<Rightarrow> bool" where
  "log_ok l dsz \<longleftrightarrow> lg_dev l = 1 \<and> 0 \<le> lh_n l \<and> lh_n l \<le> int LOGSIZE \<and> lh_n l < lg_size l \<and> length (lh_block l) = LOGSIZE
     \<and> (\<forall>a \<in> log_area l. a < dsz) \<and> (\<forall>b \<in> set (logged l). b < dsz \<and> b \<notin> log_area l) \<and> distinct (logged l)"

lemma log_okD:
  assumes "log_ok l dsz"
  shows "lg_dev l = 1" "0 \<le> lh_n l" "lh_n l \<le> int LOGSIZE" "length (lh_block l) = LOGSIZE" "length (logged l) = nat (lh_n l)"
    "\<And>a. a \<in> log_area l \<Longrightarrow> a < dsz" "\<And>b. b \<in> set (logged l) \<Longrightarrow> b < dsz \<and> b \<notin> log_area l" "distinct (logged l)"
    "nat (lh_n l) \<le> LOGSIZE" "nat (lh_n l) \<le> nat (lg_size l - 1)"
  using assms by (auto simp: log_ok_def logged_def)

lemma logged_nth: "log_ok l dsz \<Longrightarrow> i < nat (lh_n l) \<Longrightarrow> lh_block l ! i = logged l ! i \<and> logged l ! i \<in> set (logged l)"
  using log_okD(5) [of l dsz] nth_mem [of i "logged l"] by (simp add: logged_def)

lemma log_loc_in: "log_ok l dsz \<Longrightarrow> i < nat (lh_n l) \<Longrightarrow> log_loc l i \<in> log_area l"
  using log_okD(10) [of l dsz] by (simp add: log_area_def)

lemma log_loc_inj:
  assumes "i < LOGSIZE" "j < LOGSIZE"
  shows "log_loc l i = log_loc l j \<longleftrightarrow> i = j" "log_loc l i \<noteq> lg_start l"
proof -
  have u: "unat (word_of_nat k + 1 :: uint) = k + 1" if "k < LOGSIZE" for k
  proof -
    have "k + 1 < 4294967296" using that by (simp add: LOGSIZE_def)
    from unat_of_nat_small [OF this] show ?thesis by (simp only: of_nat_add of_nat_1)
  qed
  have loc: "log_loc l k = lg_start l + (word_of_nat k + 1)" for k by (simp only: log_loc_def add.assoc)
  show "log_loc l i = log_loc l j \<longleftrightarrow> i = j"
  proof
    assume "log_loc l i = log_loc l j"
    then have "(word_of_nat i + 1 :: uint) = word_of_nat j + 1" unfolding loc by (rule add_left_imp_eq)
    then have "i + 1 = j + 1" using u [OF assms(1)] u [OF assms(2)] by metis
    then show "i = j" by simp
  qed simp
  have "(word_of_nat i + 1 :: uint) \<noteq> 0" using u [OF assms(1)] by (metis Suc_eq_plus1 nat.distinct(1) unat_0)
  then show "log_loc l i \<noteq> lg_start l" unfolding loc by simp
qed

definition log_writes :: "log \<Rightarrow> (uint \<Rightarrow> blk) \<Rightarrow> (uint \<times> blk) list" where
  "log_writes l v = map (\<lambda>i. (log_loc l i, v (logged l ! i))) [0..<length (logged l)]"

definition home_writes :: "log \<Rightarrow> (uint \<Rightarrow> blk) \<Rightarrow> (uint \<times> blk) list" where
  "home_writes l v = map (\<lambda>i. (logged l ! i, v (logged l ! i))) [0..<length (logged l)]"

definition head_of :: "log \<Rightarrow> blk \<Rightarrow> blk" where
  "head_of l d = put_words (put32 d 0 (word_of_int (lh_n l))) 4 (logged l)"

lemma write_log_spec:
  assumes "log_ok l (disksize s)" "rested s"
  shows "\<exists>s'. write_log l s = Ok s' \<and> rested s' \<and> disksize s' = disksize s \<and> writes s' = writes s @ log_writes l (view s)
    \<and> view s' = apply_writes (log_writes l (view s)) (view s) \<and> disk s' = apply_writes (log_writes l (view s)) (disk s)"
proof -
  note D = log_okD [OF assms(1)]
  have ne: "logged l ! i \<noteq> log_loc l j" if "i < nat (lh_n l)" "j < nat (lh_n l)" for i j
    using logged_nth [OF assms(1) that(1)] D(7) log_loc_in [OF assms(1) that(2)] by force
  have "\<exists>s'. for_blocks (log_block l) [0..<nat (lh_n l)] s = Ok s' \<and> rested s' \<and> disksize s' = disksize s
    \<and> writes s' = writes s @ map (\<lambda>i. (log_loc l i, view s (logged l ! i))) [0..<nat (lh_n l)]
    \<and> view s' = apply_writes (map (\<lambda>i. (log_loc l i, view s (logged l ! i))) [0..<nat (lh_n l)]) (view s)
    \<and> disk s' = apply_writes (map (\<lambda>i. (log_loc l i, view s (logged l ! i))) [0..<nat (lh_n l)]) (disk s)"
  proof (rule for_blocks_copy [OF assms(2)]; intro ballI allI impI)
    fix i t assume i: "i \<in> set [0..<nat (lh_n l)]" and t: "rested t" "disksize t = disksize s"
    have lt: "logged l ! i < disksize t" "log_loc l i < disksize t" "lh_block l ! i = logged l ! i"
      using logged_nth [OF assms(1), of i] D(6,7,9) log_loc_in [OF assms(1), of i] i t(2) by auto
    show "\<exists>t'. log_block l i t = Ok t' \<and> wrote t (log_loc l i) (view t (logged l ! i)) t'"
      using copy_blocks(2) [OF t(1) _ lt(1,2)] ne [of i i] i D(1) lt(3) by (simp add: log_block_def)
  qed (use ne in auto)
  then show ?thesis by (simp add: write_log_def log_writes_def D(5))
qed

lemma install_trans_spec:
  assumes "log_ok l (disksize s)" "rested s"
  shows "\<exists>s'. install_trans l s = Ok s' \<and> rested s' \<and> disksize s' = disksize s
    \<and> (let W = map (\<lambda>i. (logged l ! i, view s (log_loc l i))) [0..<length (logged l)]
       in writes s' = writes s @ W \<and> view s' = apply_writes W (view s) \<and> disk s' = apply_writes W (disk s))"
proof -
  note D = log_okD [OF assms(1)]
  have ne: "log_loc l j \<noteq> logged l ! i" if "i < nat (lh_n l)" "j < nat (lh_n l)" for i j
    using logged_nth [OF assms(1) that(1)] D(7) log_loc_in [OF assms(1) that(2)] by force
  have "\<exists>s'. for_blocks (install_block l) [0..<nat (lh_n l)] s = Ok s' \<and> rested s' \<and> disksize s' = disksize s
    \<and> writes s' = writes s @ map (\<lambda>i. (logged l ! i, view s (log_loc l i))) [0..<nat (lh_n l)]
    \<and> view s' = apply_writes (map (\<lambda>i. (logged l ! i, view s (log_loc l i))) [0..<nat (lh_n l)]) (view s)
    \<and> disk s' = apply_writes (map (\<lambda>i. (logged l ! i, view s (log_loc l i))) [0..<nat (lh_n l)]) (disk s)"
  proof (rule for_blocks_copy [OF assms(2)]; intro ballI allI impI)
    fix i t assume i: "i \<in> set [0..<nat (lh_n l)]" and t: "rested t" "disksize t = disksize s"
    have lt: "logged l ! i < disksize t" "log_loc l i < disksize t" "lh_block l ! i = logged l ! i"
      using logged_nth [OF assms(1), of i] D(6,7,9) log_loc_in [OF assms(1), of i] i t(2) by auto
    show "\<exists>t'. install_block l i t = Ok t' \<and> wrote t (logged l ! i) (view t (log_loc l i)) t'"
      using copy_blocks(1) [OF t(1) _ lt(2,1)] ne [of i i] i D(1) lt(3) by (simp add: install_block_def)
  qed (use ne in auto)
  then show ?thesis by (simp add: install_trans_def D(5) Let_def)
qed

lemma write_head_spec:
  assumes "lg_dev l = 1" "lg_start l < disksize s" "rested s"
  shows "\<exists>s'. write_head l s = Ok s' \<and> wrote s (lg_start l) (head_of l (view s (lg_start l))) s'"
  using rewrite_block(1) [OF assms(3,2), of "head_of l (view s (lg_start l))"] assms(1)
  by (auto simp: write_head_def head_of_def logged_def Let_def)

text \<open>All disk writes of a commit, in order: the log blocks, the header, the blocks at home, the cleared header.\<close>

definition commit_writes :: "log \<Rightarrow> (uint \<Rightarrow> blk) \<Rightarrow> (uint \<times> blk) list" where
  "commit_writes l v = log_writes l v @ [(lg_start l, head_of l (v (lg_start l)))] @ home_writes l v
     @ [(lg_start l, put32 (head_of l (v (lg_start l))) 0 0)]"

lemma fst_log_writes: "log_ok l dsz \<Longrightarrow> fst ` set (log_writes l v) \<subseteq> log_area l - {lg_start l}"
proof
  fix k assume ok: "log_ok l dsz" and "k \<in> fst ` set (log_writes l v)"
  then obtain i where i: "i < length (logged l)" "k = log_loc l i" by (auto simp: log_writes_def)
  then have "i < LOGSIZE" "i < nat (lh_n l)" using log_okD(5,9) [OF ok] by simp_all
  then show "k \<in> log_area l - {lg_start l}" using i(2) log_loc_in [OF ok] log_loc_inj(2) [of i i l] by simp
qed

lemma fst_home_writes: "fst ` set (home_writes l v) = set (logged l)"
  by (force simp: home_writes_def in_set_conv_nth)

lemma log_writes_at:
  assumes "log_ok l dsz" "i < length (logged l)"
  shows "apply_writes (log_writes l v) d (log_loc l i) = v (logged l ! i)"
proof -
  have "distinct (map (log_loc l) [0..<length (logged l)])"
    using log_okD(5,9) [OF assms(1)] log_loc_inj(1) [of _ _ l] unfolding distinct_map inj_on_def by simp
  then show ?thesis unfolding log_writes_def using assms(2) by (intro apply_writes_map) auto
qed

lemma home_writes_at:
  assumes "log_ok l dsz"
  shows "apply_writes (home_writes l v) d k = (if k \<in> set (logged l) then v k else d k)"
proof (cases "k \<in> set (logged l)")
  case True
  then obtain i where i: "i < length (logged l)" "logged l ! i = k" by (auto simp: in_set_conv_nth)
  have "map ((!) (logged l)) [0..<length (logged l)] = logged l" by (rule map_nth)
  then have "distinct (map ((!) (logged l)) [0..<length (logged l)])" using log_okD(8) [OF assms] by simp
  from apply_writes_map [OF this, of i "\<lambda>i. v (logged l ! i)" d] show ?thesis using i True by (simp add: home_writes_def)
next
  case False
  then show ?thesis using apply_writes_other [of k "home_writes l v" d] by (simp add: fst_home_writes)
qed

lemma start_in_area: "lg_start l \<in> log_area l"
  by (simp add: log_area_def)

lemma commit_spec:
  assumes ok: "log_ok l (disksize s)" "0 < lh_n l" and r: "rested s"
  shows "\<exists>s'. commit l s = Ok (l\<lparr>lh_n := 0\<rparr>, s') \<and> rested s' \<and> disksize s' = disksize s
    \<and> writes s' = writes s @ commit_writes l (view s) \<and> disk s' = apply_writes (commit_writes l (view s)) (disk s)
    \<and> view s' = apply_writes (commit_writes l (view s)) (view s)"
proof -
  note D = log_okD [OF ok(1)]
  let ?st = "lg_start l" and ?v = "view s"
  obtain s1 where s1: "write_log l s = Ok s1" "rested s1" "disksize s1 = disksize s" "writes s1 = writes s @ log_writes l ?v"
    "view s1 = apply_writes (log_writes l ?v) ?v" "disk s1 = apply_writes (log_writes l ?v) (disk s)"
    using write_log_spec [OF ok(1) r] by blast
  have st: "?st < disksize s" using D(6) start_in_area by blast
  have v1: "view s1 ?st = ?v ?st" using apply_writes_other [of ?st "log_writes l ?v" ?v] fst_log_writes [OF ok(1)] s1(5) by auto
  obtain s2 where s2: "write_head l s1 = Ok s2" "wrote s1 ?st (head_of l (?v ?st)) s2"
    using write_head_spec [OF D(1) _ s1(2)] st s1(3) v1 by auto
  have r2: "rested s2" using s1(2) s2(2) by (rule wrote_rested)
  have w2: "view s2 = (view s1)(?st := head_of l (?v ?st))" "disk s2 = (disk s1)(?st := head_of l (?v ?st))"
    "writes s2 = writes s1 @ [(?st, head_of l (?v ?st))]" "disksize s2 = disksize s"
    using s2(2) s1(3) by (auto simp: wrote_def fun_eq_iff)
  have src: "view s2 (log_loc l i) = ?v (logged l ! i)" if "i < length (logged l)" for i
    using log_writes_at [OF ok(1) that, of ?v ?v] log_loc_inj(2) [of i 0 l] that D(5,9) by (simp add: w2(1) s1(5) LOGSIZE_def)
  have ok2: "log_ok l (disksize s2)" using ok(1) w2(4) by simp
  have hw: "map (\<lambda>i. (logged l ! i, view s2 (log_loc l i))) [0..<length (logged l)] = home_writes l ?v"
    by (simp add: home_writes_def src)
  obtain s3 where s3: "install_trans l s2 = Ok s3" "rested s3" "disksize s3 = disksize s" "writes s3 = writes s2 @ home_writes l ?v"
    "view s3 = apply_writes (home_writes l ?v) (view s2)" "disk s3 = apply_writes (home_writes l ?v) (disk s2)"
    using install_trans_spec [OF ok2 r2] w2(4) unfolding Let_def hw by auto
  have v3: "view s3 ?st = head_of l (?v ?st)"
    using home_writes_at [OF ok(1), of ?v "view s2" ?st] D(7) start_in_area [of l] by (auto simp: s3(5) w2(1))
  let ?l = "l\<lparr>lh_n := 0\<rparr>"
  have h0: "head_of ?l d = put32 d 0 0" for d by (simp add: head_of_def logged_def)
  obtain s4 where s4: "write_head ?l s3 = Ok s4" "wrote s3 ?st (put32 (head_of l (?v ?st)) 0 0) s4"
    using write_head_spec [of ?l s3] s3(2,3) D(1) st v3 h0 by auto
  have "commit l s = Ok (?l, s4)" using ok(2) s1(1) s2(1) s3(1) s4(1) by (simp add: commit_def Let_def)
  moreover have "rested s4" using s3(2) s4(2) by (rule wrote_rested)
  moreover have "view s4 = (view s3)(?st := put32 (head_of l (?v ?st)) 0 0)" "disk s4 = (disk s3)(?st := put32 (head_of l (?v ?st)) 0 0)"
    "writes s4 = writes s3 @ [(?st, put32 (head_of l (?v ?st)) 0 0)]" "disksize s4 = disksize s"
    using s4(2) s3(3) by (auto simp: wrote_def fun_eq_iff)
  ultimately show ?thesis
    by (intro exI [of _ s4]) (simp add: commit_writes_def s3(4-6) w2(1-3) s1(4-6))
qed

text \<open>Recovery: what the header on the disk says is copied home, and the header is cleared.\<close>

definition head_log :: "log \<Rightarrow> blk \<Rightarrow> log" where
  "head_log l d = l\<lparr>lh_n := sint (get32 d 0), lh_block := get_words d 4 (nat (sint (get32 d 0))) @ drop (nat (sint (get32 d 0))) (lh_block l)\<rparr>"

lemma recover_spec:
  assumes ok: "log_ok (head_log l (view s (lg_start l))) (disksize s)" and r: "rested s" and vd: "view s = disk s"
  defines "l1 \<equiv> head_log l (view s (lg_start l))"
  shows "\<exists>s'. recover_from_log l s = Ok (l1\<lparr>lh_n := 0\<rparr>, s')
    \<and> (\<forall>k. k \<noteq> lg_start l \<longrightarrow> disk s' k = apply_writes (map (\<lambda>i. (logged l1 ! i, disk s (log_loc l i))) [0..<length (logged l1)]) (disk s) k)"
proof -
  note D = log_okD [OF ok, folded l1_def]
  have same: "lg_start l1 = lg_start l" "lg_dev l1 = lg_dev l" "log_loc l1 = log_loc l" "log_area l1 = log_area l"
    by (simp_all add: l1_def head_log_def fun_eq_iff log_loc_def log_area_def)
  have st: "lg_start l < disksize s" using D(6) start_in_area [of l1] same(1) by auto
  obtain b s0 s1 where b: "bread 1 (lg_start l) s = Ok (b, s0)" "b_data (bufs s0 ! b) = view s (lg_start l)" "brelse b s0 = Ok s1" "rested s1"
    "\<forall>k. view s1 k = view s k" "disk s1 = disk s" "disksize s1 = disksize s"
    using rewrite_block(2) [OF r st] by blast
  have le: "\<not> sint (get32 (view s (lg_start l)) 0) > int LOGSIZE" using D(3) by (simp add: l1_def head_log_def)
  have dev: "lg_dev l = 1" using D(1) same(2) by simp
  have rh: "read_head l s = Ok (l1, s1)"
    using b(1-3) le dev by (simp add: read_head_def Let_def l1_def head_log_def)
  have v1: "view s1 = disk s" using b(5) vd by auto
  obtain s2 where s2: "install_trans l1 s1 = Ok s2" "rested s2" "disksize s2 = disksize s"
    "disk s2 = apply_writes (map (\<lambda>i. (logged l1 ! i, disk s (log_loc l i))) [0..<length (logged l1)]) (disk s)"
    using install_trans_spec [of l1 s1] ok b(4,6,7) v1 same(3) by (auto simp: l1_def [symmetric] Let_def)
  obtain s3 where s3: "write_head (l1\<lparr>lh_n := 0\<rparr>) s2 = Ok s3" "wrote s2 (lg_start l) (head_of (l1\<lparr>lh_n := 0\<rparr>) (view s2 (lg_start l))) s3"
    using write_head_spec [of "l1\<lparr>lh_n := 0\<rparr>" s2] s2(2,3) D(1) st same(1) by auto
  have "recover_from_log l s = Ok (l1\<lparr>lh_n := 0\<rparr>, s3)" using rh s2(1) s3(1) by (simp add: recover_from_log_def Let_def)
  moreover have "disk s3 = (disk s2)(lg_start l := head_of (l1\<lparr>lh_n := 0\<rparr>) (view s2 (lg_start l)))" using s3(2) by (simp add: wrote_def)
  ultimately show ?thesis using s2(4) by (intro exI [of _ s3]) simp
qed

text \<open>The cache at boot: zeroed buffers, linked by \<open>binit\<close>.\<close>

definition zero_buf :: buf where
  "zero_buf = \<lparr>b_valid = False, b_dirty = False, b_dev = 0, b_blockno = 0, b_held = False, b_refcnt = 0, b_prev = 0, b_next = 0, b_data = []\<rparr>"

definition boot :: "(uint \<Rightarrow> blk) \<Rightarrow> uint \<Rightarrow> bio" where
  "boot d n = \<lparr>bufs = binit (replicate (Suc NBUF) zero_buf), disk = d, disksize = n, writes = []\<rparr>"

lemma same_zero_links: "same_but_links zero_buf x \<Longrightarrow> same_but_links zero_buf (x\<lparr>b_next := p\<rparr>) \<and> same_but_links zero_buf (x\<lparr>b_prev := p\<rparr>)
    \<and> same_but_links zero_buf (x\<lparr>b_held := False\<rparr>)"
  by (cases x) (simp add: same_but_links_def zero_buf_def)

lemma ball_set_buf: "\<forall>x \<in> set bs. P x \<Longrightarrow> (\<And>x. P x \<Longrightarrow> P (f x)) \<Longrightarrow> \<forall>x \<in> set (set_buf i f bs). P x"
  unfolding all_set_conv_all_nth by (cases "i < length bs") (simp_all add: set_buf_def nth_list_update)

lemma link_head_zero:
  assumes "\<forall>x \<in> set bs. same_but_links zero_buf x"
  shows "\<forall>x \<in> set (link_head b bs). same_but_links zero_buf x"
  using assms unfolding link_head_def Let_def by (intro ball_set_buf) (simp_all add: same_zero_links)

lemma binit_zero: "\<forall>x \<in> set (binit (replicate (Suc NBUF) zero_buf)). same_but_links zero_buf x"
proof -
  let ?f = "\<lambda>b bs. link_head b (set_buf b (\<lambda>x. x\<lparr>b_held := False\<rparr>) bs)"
  have "\<forall>x \<in> set (fold ?f ns bs). same_but_links zero_buf x" if "\<forall>x \<in> set bs. same_but_links zero_buf x" for ns bs
    using that
  proof (induction ns arbitrary: bs)
    case (Cons n ns)
    have "\<forall>x \<in> set (?f n bs). same_but_links zero_buf x"
      by (intro link_head_zero ball_set_buf) (use Cons.prems same_zero_links in simp_all)
    from Cons.IH [OF this] show ?case by simp
  qed simp
  note fd = this
  have z: "same_but_links zero_buf zero_buf" by (simp add: same_but_links_def)
  have "\<forall>x \<in> set (set_buf HEAD (\<lambda>x. x\<lparr>b_prev := HEAD, b_next := HEAD\<rparr>) (replicate (Suc NBUF) zero_buf)). same_but_links zero_buf x"
    by (rule ball_set_buf) (use z same_zero_links in simp_all)
  then show ?thesis unfolding binit_def by (rule fd)
qed

lemma boot_rested: "rested (boot d n)" "view (boot d n) = d" "disk (boot d n) = d" "disksize (boot d n) = n"
proof -
  let ?bs = "binit (replicate (Suc NBUF) zero_buf)"
  have r: "ring ?bs (rev [0..<NBUF])" by (rule ring_binit) simp
  then have len: "length ?bs = Suc NBUF" by (simp add: ring_def)
  have z: "\<not> b_valid (?bs ! i) \<and> \<not> b_dirty (?bs ! i) \<and> b_dev (?bs ! i) = 0 \<and> \<not> b_held (?bs ! i) \<and> b_refcnt (?bs ! i) = 0" if "i < NBUF" for i
    using bspec [OF binit_zero nth_mem, of i] that len by (simp add: same_but_linksD zero_buf_def)
  have "cache_inv (boot d n) (rev [0..<NBUF])"
    using r z by (simp add: cache_inv_def boot_def buf_ok_def unique_blocks_def caches_def)
  moreover have "idle (boot d n)" using z by (simp add: idle_def boot_def)
  moreover have "two_clean (boot d n)" 
  proof -
    have "0 < NBUF" "1 < NBUF" by (simp_all add: NBUF_def)
    then show ?thesis using z [of 0] z [of 1] unfolding two_clean_def boot_def bio.simps by (metis zero_neq_one)
  qed
  ultimately show "rested (boot d n)" by blast
  show "view (boot d n) = d"
  proof
    fix k
    have "find (\<lambda>i. caches k (?bs ! i) \<and> b_valid (?bs ! i)) [0..<NBUF] = None" using z by (auto simp: find_None_iff)
    then show "view (boot d n) k = d k" by (simp add: view_def boot_def)
  qed
qed (simp_all add: boot_def)

text \<open>Recovery from a disk with an empty header, and from one whose header is that of a committed transaction.\<close>

definition zero_log :: log where
  "zero_log = \<lparr>lg_start = 0, lg_size = 0, outstanding = 0, committing = False, lg_dev = 0, lh_n = 0, lh_block = replicate LOGSIZE 0\<rparr>"

definition boot_log :: "log \<Rightarrow> log" where
  "boot_log l = zero_log\<lparr>lg_start := lg_start l, lg_size := lg_size l, lg_dev := lg_dev l\<rparr>"

lemma boot_log_simps [simp]:
  "lg_start (boot_log l) = lg_start l" "lg_dev (boot_log l) = lg_dev l" "log_loc (boot_log l) = log_loc l"
    "lg_size (boot_log l) = lg_size l" "lh_n (boot_log l) = 0" "lh_block (boot_log l) = replicate LOGSIZE 0"
  by (simp_all add: boot_log_def log_loc_def fun_eq_iff zero_log_def)

lemma recover_empty:
  assumes ok: "log_ok l n" and h: "get32 (d (lg_start l)) 0 = 0"
  shows "\<exists>l' s'. recover_from_log (boot_log l) (boot d n) = Ok (l', s') \<and> (\<forall>k. k \<noteq> lg_start l \<longrightarrow> disk s' k = d k)"
proof -
  note D = log_okD [OF ok]
  let ?h = "head_log (boot_log l) (view (boot d n) (lg_start (boot_log l)))"
  have e: "?h = boot_log l" by (simp add: head_log_def boot_rested(2) h boot_log_def get_words_def zero_log_def)
  have nil: "logged (boot_log l) = []" by (simp add: logged_def)
  have "log_area (boot_log l) = log_area l" by (simp add: log_area_def)
  then have "log_ok ?h (disksize (boot d n))" using D ok unfolding e
    by (simp add: log_ok_def nil boot_rested(4))
  from recover_spec [OF this boot_rested(1)] show ?thesis
    unfolding e by (auto simp: nil boot_rested(2,3))
qed

lemma head_of_fields:
  assumes "log_ok l n" "length d = BSIZE"
  shows "get32 (head_of l d) 0 = word_of_int (lh_n l)" "get_words (head_of l d) 4 (nat (lh_n l)) = logged l"
    "length (head_of l d) = BSIZE"
proof -
  note D = log_okD [OF assms(1)]
  have len: "4 + 4 * length (logged l) \<le> length (put32 d 0 (word_of_int (lh_n l)))"
    using D(5,9) assms(2) by (simp add: LOGSIZE_def MAXOPBLOCKS_def BSIZE_def)
  show "get32 (head_of l d) 0 = word_of_int (lh_n l)"
    using len assms(2) by (simp add: head_of_def get_put_words_before BSIZE_def)
  show "get_words (head_of l d) 4 (nat (lh_n l)) = logged l"
    using get_words_put_words [OF len] D(5) by (simp add: head_of_def)
  show "length (head_of l d) = BSIZE" using len assms(2) by (simp add: head_of_def) (simp add: BSIZE_def)
qed

lemma recover_full:
  assumes ok: "log_ok l n" and h: "d (lg_start l) = head_of l h0" "length h0 = BSIZE"
    and lg: "\<And>i. i < length (logged l) \<Longrightarrow> d (log_loc l i) = v (logged l ! i)"
  shows "\<exists>l' s'. recover_from_log (boot_log l) (boot d n) = Ok (l', s')
    \<and> (\<forall>k. k \<noteq> lg_start l \<longrightarrow> disk s' k = apply_writes (home_writes l v) d k)"
proof -
  note D = log_okD [OF ok] and H = head_of_fields [OF ok h(2)]
  let ?h = "head_log (boot_log l) (view (boot d n) (lg_start (boot_log l)))"
  have "lh_n l < 2 ^ 31" using D(3) by (simp add: LOGSIZE_def MAXOPBLOCKS_def)
  then have "sint (word_of_int (lh_n l) :: uint) = lh_n l" using D(2)
    by (simp add: signed_of_int signed_take_bit_int_eq_self)
  then have e: "?h = (boot_log l)\<lparr>lh_n := lh_n l, lh_block := logged l @ drop (nat (lh_n l)) (replicate LOGSIZE 0)\<rparr>"
    by (simp add: head_log_def boot_rested(2) h(1) H)
  have lo: "logged ?h = logged l" using D(5) unfolding e logged_def by simp
  have "log_area ?h = log_area l" "log_loc ?h = log_loc l" "lg_dev ?h = lg_dev l" "lh_n ?h = lh_n l" "lg_size ?h = lg_size l"
    unfolding e by (simp_all add: log_area_def log_loc_def fun_eq_iff)
  moreover have "length (lh_block ?h) = LOGSIZE" using D(5,9) unfolding e by simp
  ultimately have "log_ok ?h (disksize (boot d n))" using ok unfolding log_ok_def lo
    by (simp add: boot_rested(4))
  moreover have hw: "map (\<lambda>i. (logged l ! i, d (log_loc l i))) [0..<length (logged l)] = home_writes l v"
    by (simp add: home_writes_def lg)
  ultimately show ?thesis using recover_spec [OF _ boot_rested(1), of "boot_log l" d n]
    unfolding lo using hw by (auto simp: boot_rested(2,3))
qed

lemma commit_writes_at:
  assumes ok: "log_ok l n" and k: "k \<notin> log_area l"
  shows "apply_writes (commit_writes l v) d k = (if k \<in> set (logged l) then v k else d k)"
proof -
  have "k \<noteq> lg_start l" using k start_in_area by blast
  moreover have "k \<notin> fst ` set (log_writes l v)" using k fst_log_writes [OF ok] by blast
  ultimately show ?thesis by (simp add: commit_writes_def home_writes_at [OF ok] apply_writes_other)
qed

text \<open>After the header write of a commit the header and the log blocks stay on the disk while blocks are installed.\<close>

lemma installing:
  fixes d :: "uint \<Rightarrow> blk" and h :: blk
  assumes ok: "log_ok l n" and W: "set W \<subseteq> set (home_writes l v)"
  defines "d1 \<equiv> apply_writes (log_writes l v @ (lg_start l, h) # W) d"
  shows "d1 (lg_start l) = h" "\<And>i. i < length (logged l) \<Longrightarrow> d1 (log_loc l i) = v (logged l ! i)"
    "\<And>k. k \<notin> log_area l \<Longrightarrow> k \<notin> set (logged l) \<Longrightarrow> d1 k = d k"
proof -
  have home: "k \<in> fst ` set W \<Longrightarrow> k \<in> set (logged l)" for k using W fst_home_writes by blast
  have area: "k \<in> log_area l \<Longrightarrow> k \<notin> fst ` set W" for k using home log_okD(7) [OF ok] by blast
  show "d1 (lg_start l) = h" using area [OF start_in_area] by (simp add: d1_def apply_writes_other)
  show "d1 (log_loc l i) = v (logged l ! i)" if i: "i < length (logged l)" for i
  proof -
    have "i < LOGSIZE" "i < nat (lh_n l)" using i log_okD(5,9) [OF ok] by simp_all
    then have "log_loc l i \<in> log_area l" "log_loc l i \<noteq> lg_start l" using log_loc_in [OF ok] log_loc_inj(2) [of i i l] by simp_all
    then show ?thesis using area log_writes_at [OF ok i] by (simp add: d1_def apply_writes_other)
  qed
  show "d1 k = d k" if "k \<notin> log_area l" "k \<notin> set (logged l)" for k
  proof -
    have "k \<notin> fst ` set W" "k \<noteq> lg_start l" "k \<notin> fst ` set (log_writes l v)"
      using that home start_in_area fst_log_writes [OF ok] by blast+
    then show ?thesis by (simp add: d1_def apply_writes_other)
  qed
qed

lemma take_commit:
  assumes "m \<le> length (log_writes l v) \<Longrightarrow> P (take m (log_writes l v))"
    and "\<And>W. set W \<subseteq> set (home_writes l v) \<Longrightarrow> P (log_writes l v @ (lg_start l, head_of l (v (lg_start l))) # W)"
    and "P (commit_writes l v)"
  shows "P (take m (commit_writes l v))"
proof -
  have n: "length (commit_writes l v) = Suc (Suc (length (log_writes l v) + length (home_writes l v)))"
    by (simp add: commit_writes_def)
  consider "m \<le> length (log_writes l v)" | j where "m = length (log_writes l v) + Suc j" "j \<le> length (home_writes l v)"
    | "m \<ge> length (commit_writes l v)"
    using that(2) [of "m - Suc (length (log_writes l v))"] n by linarith
  then show ?thesis
  proof cases
    case 1
    then show ?thesis using assms(1) by (simp add: commit_writes_def)
  next
    case 2
    then show ?thesis using assms(2) [OF set_take_subset [of j]] by (simp add: commit_writes_def)
  next
    case 3
    then show ?thesis using assms(3) by simp
  qed
qed

lemma crash_recovers:
  fixes d :: "uint \<Rightarrow> blk"
  assumes ok: "log_ok l n" and hd: "length (v (lg_start l)) = BSIZE" "get32 (d (lg_start l)) 0 = 0"
  defines "W \<equiv> commit_writes l v"
  shows "\<exists>l' s'. recover_from_log (boot_log l) (boot (apply_writes (take m W) d) n) = Ok (l', s')
    \<and> ((\<forall>k. k \<notin> log_area l \<longrightarrow> disk s' k = d k)
       \<or> (\<forall>k. k \<notin> log_area l \<longrightarrow> disk s' k = apply_writes W d k))"
  unfolding W_def
proof (rule take_commit)
  let ?st = "lg_start l"
  have st: "k \<notin> log_area l \<Longrightarrow> k \<noteq> ?st" for k using start_in_area by blast
  let ?P = "take m (log_writes l v)"
  have "fst ` set ?P \<subseteq> log_area l - {?st}" using fst_log_writes [OF ok] set_take_subset by fast
  then have o: "apply_writes ?P d k = d k" if "k \<notin> log_area l - {?st}" for k using that apply_writes_other by blast
  then have "get32 (apply_writes ?P d ?st) 0 = 0" using hd(2) by simp
  from recover_empty [where d = "apply_writes ?P d", OF ok this] obtain l' s' where s': "recover_from_log (boot_log l) (boot (apply_writes ?P d) n) = Ok (l', s')"
    "\<forall>k. k \<noteq> ?st \<longrightarrow> disk s' k = apply_writes ?P d k" by blast
  then have "\<forall>k. k \<notin> log_area l \<longrightarrow> disk s' k = d k" using o st by simp
  then show "\<exists>l' s'. recover_from_log (boot_log l) (boot (apply_writes ?P d) n) = Ok (l', s')
    \<and> ((\<forall>k. k \<notin> log_area l \<longrightarrow> disk s' k = d k)
       \<or> (\<forall>k. k \<notin> log_area l \<longrightarrow> disk s' k = apply_writes (commit_writes l v) d k))" using s'(1) by blast
next
  fix W assume W: "set W \<subseteq> set (home_writes l v)"
  let ?d = "apply_writes (log_writes l v @ (lg_start l, head_of l (v (lg_start l))) # W) d"
  note I = installing [OF ok W, where h = "head_of l (v (lg_start l))" and d = d]
  obtain l' s' where s': "recover_from_log (boot_log l) (boot ?d n) = Ok (l', s')"
    "\<forall>k. k \<noteq> lg_start l \<longrightarrow> disk s' k = apply_writes (home_writes l v) ?d k"
    using recover_full [where d = ?d and v = v, OF ok I(1) hd(1) I(2)] by blast
  have "disk s' k = apply_writes (commit_writes l v) d k" if "k \<notin> log_area l" for k
  proof -
    have "k \<noteq> lg_start l" using that start_in_area by blast
    then have "disk s' k = (if k \<in> set (logged l) then v k else ?d k)" using s'(2) home_writes_at [OF ok] by metis
    then show ?thesis using I(3) [OF that] commit_writes_at [OF ok that, of v d] by presburger
  qed
  then show "\<exists>l' s'. recover_from_log (boot_log l) (boot ?d n) = Ok (l', s')
    \<and> ((\<forall>k. k \<notin> log_area l \<longrightarrow> disk s' k = d k)
       \<or> (\<forall>k. k \<notin> log_area l \<longrightarrow> disk s' k = apply_writes (commit_writes l v) d k))" using s'(1) by blast
next
  let ?d = "apply_writes (commit_writes l v) d"
  have "length (head_of l (v (lg_start l))) = BSIZE" using head_of_fields(3) [OF ok hd(1)] .
  then have "get32 (?d (lg_start l)) 0 = 0" by (simp add: commit_writes_def BSIZE_def)
  from recover_empty [where d = ?d, OF ok this] show "\<exists>l' s'. recover_from_log (boot_log l) (boot ?d n) = Ok (l', s')
    \<and> ((\<forall>k. k \<notin> log_area l \<longrightarrow> disk s' k = d k) \<or> (\<forall>k. k \<notin> log_area l \<longrightarrow> disk s' k = ?d k))"
    using start_in_area by metis
qed

text \<open>C1: a crash at any point of a commit is atomic. The commit's writes reach the disk in order; whatever prefix of them did, the
  recovery at the next boot succeeds and leaves, outside the log, either the disk before the commit or the whole transaction.\<close>

theorem commit_crash_atomic:
  assumes "log_ok l (disksize s)" "0 < lh_n l" "rested s" "length (view s (lg_start l)) = BSIZE" "get32 (disk s (lg_start l)) 0 = 0"
    "lg_size l = sint nlog"
  shows "\<exists>l' s' W. commit l s = Ok (l', s') \<and> lh_n l' = 0 \<and> writes s' = writes s @ W
    \<and> (\<forall>k. k \<notin> log_area l \<longrightarrow> disk s' k = (if k \<in> set (logged l) then view s k else disk s k))
    \<and> (\<forall>m. \<exists>l2 s2. initlog (lg_dev l) (lg_start l) nlog zero_log (boot (apply_writes (take m W) (disk s)) (disksize s)) = Ok (l2, s2)
         \<and> ((\<forall>k. k \<notin> log_area l \<longrightarrow> disk s2 k = disk s k) \<or> (\<forall>k. k \<notin> log_area l \<longrightarrow> disk s2 k = disk s' k)))"
proof -
  have i: "initlog (lg_dev l) (lg_start l) nlog zero_log = recover_from_log (boot_log l)"
    using assms(6) by (simp add: initlog_def boot_log_def fun_eq_iff)
  obtain s' where s': "commit l s = Ok (l\<lparr>lh_n := 0\<rparr>, s')" "writes s' = writes s @ commit_writes l (view s)"
    "disk s' = apply_writes (commit_writes l (view s)) (disk s)"
    using commit_spec [OF assms(1-3)] by blast
  show ?thesis unfolding i using s' crash_recovers [where d = "disk s" and v = "view s", OF assms(1,4,5)] commit_writes_at [OF assms(1)]
    by (intro exI [of _ "l\<lparr>lh_n := 0\<rparr>"] exI [of _ s'] exI [of _ "commit_writes l (view s)"]) simp
qed

section \<open>Room in the log\<close>

text \<open>
  System calls that write, seen from the log. A state is the log and, for every call between \<open>begin_op\<close> and \<open>end_op\<close>, how many
  blocks it may still log; a call may log at most \<open>MAXOPBLOCKS\<close>.
\<close>

inductive log_step :: "log \<times> nat list \<Rightarrow> log \<times> nat list \<Rightarrow> bool" where
  begin_step: "begin_op l = Some l' \<Longrightarrow> log_step (l, ops) (l', ops @ [nat MAXOPBLOCKS])"
| write_step: "i < length ops \<Longrightarrow> 0 < ops ! i \<Longrightarrow> log_write b l s = Ok (l', s') \<Longrightarrow> log_step (l, ops) (l', ops[i := ops ! i - 1])"
| end_step: "i < length ops \<Longrightarrow> end_op l s = Ok (l', s') \<Longrightarrow> log_step (l, ops) (l', take i ops @ drop (Suc i) ops)"

inductive_cases log_stepE: "log_step (l, ops) t"

definition log_room :: "int \<Rightarrow> log \<times> nat list \<Rightarrow> bool" where
  "log_room n t \<longleftrightarrow> (case t of (l, ops) \<Rightarrow> lg_size l = n \<and> \<not> committing l \<and> 0 \<le> lh_n l \<and> outstanding l = int (length ops)
     \<and> (\<forall>k \<in> set ops. k \<le> nat MAXOPBLOCKS) \<and> lh_n l + int (sum_list ops) \<le> int LOGSIZE)"

lemma log_write_fields:
  assumes "log_write b l s = Ok (l', s')"
  shows "lg_size l' = lg_size l" "committing l' = committing l" "outstanding l' = outstanding l" "lh_n l \<le> lh_n l'" "lh_n l' \<le> lh_n l + 1"
  using assms by (auto simp: log_write_def Let_def split: if_splits)

lemma commit_fields:
  assumes "commit l s = Ok (l', s')"
  shows "l' = l\<lparr>lh_n := lh_n l'\<rparr>" "0 \<le> lh_n l \<Longrightarrow> lh_n l' = 0"
  using assms by (auto simp: commit_def Let_def split: if_splits elim!: bind_res_OkE)

lemma end_op_fields:
  assumes "end_op l s = Ok (l', s')" "0 \<le> lh_n l"
  shows "lg_size l' = lg_size l" "\<not> committing l'" "outstanding l' = outstanding l - 1" "0 \<le> lh_n l'" "lh_n l' \<le> lh_n l"
proof -
  have "lg_size l' = lg_size l \<and> \<not> committing l' \<and> outstanding l' = outstanding l - 1 \<and> 0 \<le> lh_n l' \<and> lh_n l' \<le> lh_n l"
  proof (cases "outstanding l = 1")
    case True
    then obtain l2 where l2: "commit (l\<lparr>outstanding := 0, committing := True\<rparr>) s = Ok (l2, s')" "l' = l2\<lparr>committing := False\<rparr>"
      using assms(1) by (auto simp: end_op_def Let_def split: if_splits elim!: bind_res_OkE)
    have "lh_n l2 = 0" using commit_fields(2) [OF l2(1)] assms(2) by simp
    then have "l2 = l\<lparr>outstanding := 0, committing := True, lh_n := 0\<rparr>" using commit_fields(1) [OF l2(1)] by simp
    then show ?thesis using l2(2) True assms(2) by simp
  qed (use assms in \<open>auto simp: end_op_def Let_def split: if_splits\<close>)
  then show "lg_size l' = lg_size l" "\<not> committing l'" "outstanding l' = outstanding l - 1" "0 \<le> lh_n l'" "lh_n l' \<le> lh_n l" by auto
qed

lemma sum_list_update_less:
  "i < length ops \<Longrightarrow> 0 < ops ! i \<Longrightarrow> int (sum_list (ops[i := ops ! i - 1])) = int (sum_list ops) - 1"
  by (induction ops arbitrary: i) (auto split: nat.splits)

lemma sum_list_drop_one: "i < length ops \<Longrightarrow> sum_list (take i ops @ drop (Suc i) ops) \<le> sum_list (ops :: nat list)"
  by (subst (3) id_take_nth_drop [of i ops]) simp_all

lemma log_room_step:
  assumes "log_step t t'" "log_room n t"
  shows "log_room n t'"
  using assms
proof cases
  case (begin_step l l' ops)
  have "sum_list ops \<le> length ops * nat MAXOPBLOCKS"
    using assms(2) begin_step(1) sum_list_mono [of ops "\<lambda>k. k" "\<lambda>_. nat MAXOPBLOCKS"] by (simp add: log_room_def sum_list_triv)
  then have "int (sum_list ops) \<le> int (length ops) * MAXOPBLOCKS" by (simp add: MAXOPBLOCKS_def)
  then show ?thesis using begin_step assms(2) by (auto simp: log_room_def begin_op_def MAXOPBLOCKS_def split: if_splits)
next
  case (write_step i ops b l s l' s')
  have "\<forall>k \<in> set (ops[i := ops ! i - 1]). k \<le> nat MAXOPBLOCKS"
    using assms(2) write_step(1,3) by (auto simp: log_room_def all_set_conv_all_nth nth_list_update intro: le_trans [OF diff_le_self])
  then show ?thesis using write_step assms(2) log_write_fields [OF write_step(5)] sum_list_update_less [OF write_step(3,4)]
    by (simp add: log_room_def)
next
  case (end_step i ops l s l' s')
  have le: "0 \<le> lh_n l" using assms(2) end_step(1) by (simp add: log_room_def)
  have "set (take i ops @ drop (Suc i) ops) \<subseteq> set ops" using set_take_subset set_drop_subset by fastforce
  then have "\<forall>k \<in> set (take i ops @ drop (Suc i) ops). k \<le> nat MAXOPBLOCKS"
    using assms(2) end_step(1) by (auto simp: log_room_def)
  then show ?thesis using end_step assms(2) end_op_fields [OF end_step(4) le] sum_list_drop_one [OF end_step(3)]
    by (simp add: log_room_def)
qed

lemma sum_list_nth_le: "i < length ops \<Longrightarrow> ops ! i \<le> sum_list (ops :: nat list)"
  by (simp add: elem_le_sum_list)

text \<open>C38: the reservation \<open>begin_op\<close> makes is enough. However calls begin, log blocks and end, as long as each logs no more than
  \<open>MAXOPBLOCKS\<close> blocks and the log on disk has room for \<open>LOGSIZE\<close> blocks beside its header, \<open>log_write\<close> never
  panics and the transaction never outgrows the log.\<close>

theorem log_write_has_room:
  assumes "log_step\<^sup>*\<^sup>* (zero_log\<lparr>lg_size := n\<rparr>, []) (l, ops)" "int LOGSIZE < n" "i < length ops" "0 < ops ! i"
  shows "lh_n l < int LOGSIZE \<and> (\<exists>r. log_write b l s = Ok r)"
proof -
  have "log_room n (zero_log\<lparr>lg_size := n\<rparr>, [])" by (simp add: log_room_def zero_log_def)
  with assms(1) have r: "log_room n (l, ops)"
    by (induction rule: rtranclp_induct) (auto intro: log_room_step)
  have "1 \<le> sum_list ops" using sum_list_nth_le [OF assms(3)] assms(4) by simp
  then have "lh_n l < int LOGSIZE" "lh_n l < lg_size l - 1" "1 \<le> outstanding l"
    using r assms(2,3) by (auto simp: log_room_def)
  then show ?thesis by (simp add: log_write_def Let_def)
qed

theorem log_write_has_room_witness:
  "\<exists>r. log_write 0 (zero_log\<lparr>lg_size := 31, outstanding := 1\<rparr>) (boot (\<lambda>_. []) 0) = Ok r"
proof -
  have "begin_op (zero_log\<lparr>lg_size := 31\<rparr>) = Some (zero_log\<lparr>lg_size := 31, outstanding := 1\<rparr>)"
    by (simp add: begin_op_def zero_log_def MAXOPBLOCKS_def LOGSIZE_def)
  from begin_step [OF this, of "[]"]
  have "log_step\<^sup>*\<^sup>* (zero_log\<lparr>lg_size := 31\<rparr>, []) (zero_log\<lparr>lg_size := 31, outstanding := 1\<rparr>, [10])"
    by (auto simp: MAXOPBLOCKS_def)
  from log_write_has_room [OF this, of 0 0 "boot (\<lambda>_. []) 0"] show ?thesis by (simp add: LOGSIZE_def)
qed

text \<open>A trace that logs one new block after another, in three calls.\<close>

definition nth_block :: "nat \<Rightarrow> bio" where
  "nth_block k = \<lparr>bufs = [zero_buf\<lparr>b_blockno := word_of_nat k\<rparr>], disk = (\<lambda>_. []), disksize = 0, writes = []\<rparr>"

definition filled :: "int \<Rightarrow> nat \<Rightarrow> log" where
  "filled n k = zero_log\<lparr>lg_size := n, outstanding := 3, lh_n := int k,
     lh_block := map word_of_nat [0..<k] @ replicate (LOGSIZE - k) 0\<rparr>"

lemma log_write_filled:
  assumes "k < LOGSIZE" "int k < n - 1"
  shows "\<exists>s'. log_write 0 (filled n k) (nth_block k) = Ok (filled n (Suc k), s')"
proof -
  have "(word_of_nat j :: uint) \<noteq> word_of_nat k" if "j < k" for j
    using that assms(1) of_nat_inverse [of j "word_of_nat k :: uint"] unat_of_nat_small [of k] by (auto simp: LOGSIZE_def)
  then have f: "find_index (\<lambda>x. x = (word_of_nat k :: uint)) (map word_of_nat [0..<k]) = None"
    by (auto simp: find_index_None)
  have r: "(map word_of_nat [0..<k] @ replicate (LOGSIZE - k) (0::uint))[k := word_of_nat k]
      = map word_of_nat [0..<Suc k] @ replicate (LOGSIZE - Suc k) 0"
    using assms(1) by (simp add: list_update_append Suc_diff_Suc [symmetric])
  show ?thesis using assms f r by (simp add: log_write_def filled_def nth_block_def Let_def zero_log_def)
qed

lemma filled_reachable:
  assumes "k < LOGSIZE" "int k < n"
  shows "\<exists>ops. log_step\<^sup>*\<^sup>* (zero_log\<lparr>lg_size := n\<rparr>, []) (filled n k, ops) \<and> sum_list ops = LOGSIZE - k"
  using assms
proof (induction k)
  case 0
  let ?l = "\<lambda>i. zero_log\<lparr>lg_size := n, outstanding := i\<rparr>"
  have b: "log_step (?l (int i), replicate i 10) (?l (int (Suc i)), replicate (Suc i) 10)" if "i < 3" for i
  proof -
    have "begin_op (?l (int i)) = Some (?l (int (Suc i)))"
      using that by (simp add: begin_op_def zero_log_def MAXOPBLOCKS_def LOGSIZE_def add.commute)
    from begin_step [OF this, of "replicate i 10"] show ?thesis by (simp add: MAXOPBLOCKS_def replicate_append_same)
  qed
  have z: "?l 0 = zero_log\<lparr>lg_size := n\<rparr>" "?l 3 = filled n 0" by (simp_all add: zero_log_def filled_def)
  have "log_step\<^sup>*\<^sup>* (?l (int 0), replicate 0 10) (?l (int 3), replicate 3 10)"
    using b [of 0] b [of 1] b [of 2] by (simp add: numeral_3_eq_3 numeral_2_eq_2)
  then have "log_step\<^sup>*\<^sup>* (zero_log\<lparr>lg_size := n\<rparr>, []) (filled n 0, replicate 3 10)" using z by simp
  then show ?case by (intro exI [of _ "replicate 3 10"]) (simp add: LOGSIZE_def sum_list_replicate)
next
  case (Suc k)
  then obtain ops where o: "log_step\<^sup>*\<^sup>* (zero_log\<lparr>lg_size := n\<rparr>, []) (filled n k, ops)" "sum_list ops = LOGSIZE - k" by auto
  then have "\<exists>i < length ops. 0 < ops ! i" using Suc.prems by (metis gr0I in_set_conv_nth sum_list_eq_0_iff zero_less_diff Suc_lessD less_numeral_extra(3))
  then obtain i where i: "i < length ops" "0 < ops ! i" by blast
  obtain s' where "log_write 0 (filled n k) (nth_block k) = Ok (filled n (Suc k), s')" using log_write_filled [of k n] Suc.prems by auto
  from write_step [OF i this] o sum_list_update_less [OF i] show ?case
    by (intro exI [of _ "ops[i := ops ! i - 1]"]) auto
qed

text \<open>C39: with the log that \<^verbatim>\<open>mkfs\<close> makes, \<open>LOGSIZE\<close> blocks with the header, the reservation is one block short: there is a
  sequence of calls, each within its \<open>MAXOPBLOCKS\<close> blocks, in which \<open>log_write\<close> panics.\<close>

theorem mkfs_log_one_short:
  "\<exists>l ops i b s. log_step\<^sup>*\<^sup>* (zero_log\<lparr>lg_size := int LOGSIZE\<rparr>, []) (l, ops) \<and> i < length ops \<and> 0 < ops ! i
     \<and> log_write b l s = Panic ''too big a transaction''"
proof -
  obtain ops where o: "log_step\<^sup>*\<^sup>* (zero_log\<lparr>lg_size := int LOGSIZE\<rparr>, []) (filled (int LOGSIZE) 29, ops)" "sum_list ops = 1"
    using filled_reachable [of 29 "int LOGSIZE"] by (auto simp: LOGSIZE_def)
  then have "\<exists>i < length ops. 0 < ops ! i" by (metis gr0I in_set_conv_nth sum_list_eq_0_iff zero_neq_one)
  moreover have "log_write 0 (filled (int LOGSIZE) 29) s = Panic ''too big a transaction''" for s
    by (simp add: log_write_def filled_def LOGSIZE_def)
  ultimately show ?thesis using o(1) by blast
qed

text \<open>A booted cache in which one block has been logged: it is dirty in a buffer, and its disk block is stale.\<close>

definition pinned :: "uint \<Rightarrow> blk \<Rightarrow> bio \<Rightarrow> bio" where
  "pinned k d s = s\<lparr>bufs := set_buf 3 (\<lambda>x. x\<lparr>b_valid := True, b_dirty := True, b_dev := 1, b_blockno := k, b_data := d\<rparr>) (bufs s)\<rparr>"

lemma pinned_boot:
  shows "rested (pinned k d (boot D n))" "view (pinned k d (boot D n)) = D(k := d)"
proof -
  let ?s = "boot D n" and ?t = "pinned k d (boot D n)"
  obtain xs where inv: "cache_inv ?s xs" and id: "idle ?s" using boot_rested(1) by blast
  have len: "length (bufs ?s) = Suc NBUF" using inv by (simp add: cache_inv_def ring_def)
  have nb: "bufs ?t ! i = (if i = 3 then (bufs ?s ! 3)\<lparr>b_valid := True, b_dirty := True, b_dev := 1, b_blockno := k, b_data := d\<rparr> else bufs ?s ! i)" for i
    using len by (simp add: pinned_def set_buf_nth NBUF_def)
  have dk: "disk ?t = disk ?s" by (simp add: pinned_def)
  have z: "b_dev (bufs ?s ! i) = 0 \<and> \<not> b_dirty (bufs ?s ! i)" if "i < NBUF" for i
    using bspec [OF binit_zero nth_mem, of i] that len by (simp add: same_but_linksD zero_buf_def boot_def)
  have "ring (bufs ?t) xs" using inv len seg_frame [of HEAD xs "bufs ?t" "bufs ?s" HEAD]
    by (simp add: cache_inv_def ring_def nb) (simp add: pinned_def)
  then have "cache_inv ?t xs" using inv id z unfolding cache_inv_def
    by (auto simp: nb buf_ok_def unique_blocks_def caches_def idle_def dk)
  moreover have "idle ?t" using id by (auto simp: idle_def nb)
  moreover have "two_clean ?t"
  proof -
    have "0 < NBUF" "1 < NBUF" by (simp_all add: NBUF_def)
    then show ?thesis using z [of 0] z [of 1] unfolding two_clean_def by (metis nb zero_neq_one zero_neq_numeral one_eq_numeral_iff num.distinct(3))
  qed
  ultimately show "rested ?t" by blast
  show "view ?t = D(k := d)"
  proof
    fix j
    show "view ?t j = (D(k := d)) j"
    proof (cases "j = k")
      case True
      have "view ?t k = b_data (bufs ?t ! 3)" by (rule view_cached) (use \<open>cache_inv ?t xs\<close> in \<open>simp_all add: nb caches_def NBUF_def cache_inv_def\<close>)
      then show ?thesis using True by (simp add: nb)
    next
      case False
      have "find (\<lambda>i. caches j (bufs ?t ! i) \<and> b_valid (bufs ?t ! i)) [0..<NBUF] = None"
        using z False by (auto simp: find_None_iff nb caches_def)
      then show ?thesis using False by (simp add: view_def pinned_def boot_def)
    qed
  qed
qed

definition small_log :: log where
  "small_log = zero_log\<lparr>lg_start := 2, lg_size := 30, lg_dev := 1, lh_n := 1, lh_block := 40 # replicate 29 0\<rparr>"

lemma small_log_area:
  shows "a \<in> log_area small_log \<Longrightarrow> a < 40" "\<forall>a \<in> log_area small_log. a < 1000" "40 \<notin> log_area small_log" "41 \<notin> log_area small_log"
proof -
  have loc: "log_area small_log = insert 2 ((\<lambda>i. 2 + word_of_nat i + 1) ` {..<29})"
    by (simp add: log_area_def log_loc_def small_log_def image_def)
  have below: "a < 40" if "a \<in> log_area small_log" for a
  proof -
    have "(2 + word_of_nat i + 1 :: uint) < 40" if "i < 29" for i :: nat
    proof -
      have "unat (word_of_nat i :: uint) = i" using that by (simp add: unat_of_nat_small)
      then show ?thesis using that by unat_arith
    qed
    then show ?thesis using that unfolding loc by auto
  qed
  then show "a \<in> log_area small_log \<Longrightarrow> a < 40" .
  show "\<forall>a \<in> log_area small_log. a < 1000"
  proof
    fix a assume "a \<in> log_area small_log"
    moreover have "(40 :: uint) < 1000" by simp
    ultimately show "a < 1000" using below less_trans by blast
  qed
  show "40 \<notin> log_area small_log" "41 \<notin> log_area small_log" using below [of 40] below [of 41] by auto
qed

theorem commit_crash_atomic_witness:
  "\<exists>l' s' W. commit small_log (pinned 40 (replicate 512 1) (boot (\<lambda>_. replicate 512 0) 1000)) = Ok (l', s') \<and> writes s' = W
    \<and> disk s' 40 = replicate 512 1 \<and> disk s' 41 = replicate 512 0
    \<and> (\<forall>m. \<exists>l2 s2. initlog 1 2 30 zero_log (boot (apply_writes (take m W) (\<lambda>_. replicate 512 0)) 1000) = Ok (l2, s2)
         \<and> (disk s2 40 = replicate 512 0 \<or> disk s2 40 = replicate 512 1))"
proof -
  let ?D = "\<lambda>_ :: uint. replicate 512 (0 :: byte)"
  let ?s = "pinned 40 (replicate 512 1) (boot ?D 1000)"
  have lo: "logged small_log = [40]" by (simp add: logged_def small_log_def)
  note out = small_log_area(3,4)
  have sz: "disksize ?s = 1000" "disk ?s = ?D" "writes ?s = []" by (simp_all add: pinned_def boot_def)
  have "log_ok small_log (disksize ?s)" using small_log_area(2) out(1) unfolding log_ok_def lo sz
    by (simp add: small_log_def LOGSIZE_def)
  moreover have f: "lg_size small_log = sint (30 :: uint)" "0 < lh_n small_log" "lg_dev small_log = 1" "lg_start small_log = 2"
    by (simp_all add: small_log_def)
  moreover have "length (view ?s (lg_start small_log)) = BSIZE" "get32 (disk ?s (lg_start small_log)) 0 = 0"
    by (simp_all add: pinned_boot(2) f(4) sz(2) BSIZE_def get32_def)
  ultimately obtain l' s' W where c: "commit small_log ?s = Ok (l', s')" "writes s' = writes ?s @ W"
    "\<forall>k. k \<notin> log_area small_log \<longrightarrow> disk s' k = (if k \<in> set [40] then view ?s k else disk ?s k)"
    "\<forall>m. \<exists>l2 s2. initlog 1 2 30 zero_log (boot (apply_writes (take m W) ?D) 1000) = Ok (l2, s2)
         \<and> ((\<forall>k. k \<notin> log_area small_log \<longrightarrow> disk s2 k = ?D k) \<or> (\<forall>k. k \<notin> log_area small_log \<longrightarrow> disk s2 k = disk s' k))"
    using commit_crash_atomic [of small_log ?s 30, unfolded lo] pinned_boot(1) unfolding sz f by blast
  have v: "disk s' 40 = replicate 512 1" "disk s' 41 = replicate 512 0" using c(3) out by (simp_all add: pinned_boot(2) sz(2))
  have "\<exists>l2 s2. initlog 1 2 30 zero_log (boot (apply_writes (take m W) ?D) 1000) = Ok (l2, s2)
      \<and> (disk s2 40 = replicate 512 0 \<or> disk s2 40 = replicate 512 1)" for m
    using c(4) [rule_format, of m] out(1) v(1) by metis
  then show ?thesis using c(1,2) v sz(3) by auto
qed

end
