(* ===== verification/Transaction.thy ===== *)
theory Transaction
  imports Log
begin

text \<open>
  The file system's view of the disk. fs.c reads a block with \<^verbatim>\<open>bread\<close> and \<^verbatim>\<open>brelse\<close> and changes one with \<^verbatim>\<open>bread\<close>, a write
  to the buffer's data, \<^verbatim>\<open>log_write\<close> and \<^verbatim>\<open>brelse\<close>, all between \<^verbatim>\<open>begin_op\<close> and \<^verbatim>\<open>end_op\<close>. This theory shows
  that these sequences act on the blocks as reading and updating a function from block numbers to contents, and that the
  \<^verbatim>\<open>end_op\<close> of the last call makes the result permanent. Theory \<^verbatim>\<open>Fs\<close> is written over that function.
\<close>

section \<open>Definitions\<close>

definition read_block :: "uint \<Rightarrow> log \<times> bio \<Rightarrow> (blk \<times> log \<times> bio) res" where
  "read_block n = (\<lambda>(l, s).
     bind_res (bread (lg_dev l) n s) (\<lambda>(b, s1).
     bind_res (brelse b s1) (\<lambda>s2. Ok (b_data (bufs s1 ! b), l, s2))))"

definition update_block :: "uint \<Rightarrow> (blk \<Rightarrow> blk) \<Rightarrow> log \<times> bio \<Rightarrow> (log \<times> bio) res" where
  "update_block n f = (\<lambda>(l, s).
     bind_res (bread (lg_dev l) n s) (\<lambda>(b, s1).
     bind_res (log_write b l (s1\<lparr>bufs := set_buf b (\<lambda>x. x\<lparr>b_data := f (b_data x)\<rparr>) (bufs s1)\<rparr>)) (\<lambda>(l1, s2).
     bind_res (brelse b s2) (\<lambda>s3. Ok (l1, s3)))))"

text \<open>A system call's accesses to blocks, as a script.\<close>

datatype blk_op = Rd uint | Wr uint "blk \<Rightarrow> blk"

fun run_ops :: "(uint \<Rightarrow> 's \<Rightarrow> (blk \<times> 's) res) \<Rightarrow> (uint \<Rightarrow> (blk \<Rightarrow> blk) \<Rightarrow> 's \<Rightarrow> 's res) \<Rightarrow> blk_op list \<Rightarrow> 's \<Rightarrow> (blk list \<times> 's) res" where
  "run_ops rd wr [] s = Ok ([], s)"
| "run_ops rd wr (Rd n # ops) s =
     bind_res (rd n s) (\<lambda>(d, s1). bind_res (run_ops rd wr ops s1) (\<lambda>(ds, s2). Ok (d # ds, s2)))"
| "run_ops rd wr (Wr n f # ops) s = bind_res (wr n f s) (\<lambda>s1. run_ops rd wr ops s1)"

fun spec_ops :: "blk_op list \<Rightarrow> (uint \<Rightarrow> blk) \<Rightarrow> blk list \<times> (uint \<Rightarrow> blk)" where
  "spec_ops [] v = ([], v)"
| "spec_ops (Rd n # ops) v = (let (ds, v1) = spec_ops ops v in (v n # ds, v1))"
| "spec_ops (Wr n f # ops) v = spec_ops ops (v(n := f (v n)))"

fun op_block :: "blk_op \<Rightarrow> uint" where
  "op_block (Rd n) = n"
| "op_block (Wr n f) = n"

fun is_Wr :: "blk_op \<Rightarrow> bool" where
  "is_Wr (Rd n) = False"
| "is_Wr (Wr n f) = True"

section \<open>A store of blocks\<close>

locale block_store =
  fixes ok :: "nat \<Rightarrow> 's \<Rightarrow> bool" and valid :: "'s \<Rightarrow> uint set" and vw :: "'s \<Rightarrow> uint \<Rightarrow> blk"
    and rd :: "uint \<Rightarrow> 's \<Rightarrow> (blk \<times> 's) res" and wr :: "uint \<Rightarrow> (blk \<Rightarrow> blk) \<Rightarrow> 's \<Rightarrow> 's res"
  assumes rd_law: "\<And>k s n. ok k s \<Longrightarrow> n \<in> valid s \<Longrightarrow> \<exists>s'. rd n s = Ok (vw s n, s') \<and> ok k s' \<and> vw s' = vw s \<and> valid s' = valid s"
    and wr_law: "\<And>k s n f. ok (Suc k) s \<Longrightarrow> n \<in> valid s \<Longrightarrow> \<exists>s'. wr n f s = Ok s' \<and> ok k s' \<and> vw s' = (vw s)(n := f (vw s n)) \<and> valid s' = valid s"
begin

lemma script_refines:
  assumes "ok (length (filter is_Wr ops)) s" "op_block ` set ops \<subseteq> valid s"
  shows "\<exists>s'. run_ops rd wr ops s = Ok (fst (spec_ops ops (vw s)), s') \<and> vw s' = snd (spec_ops ops (vw s)) \<and> ok 0 s' \<and> valid s' = valid s"
  using assms
proof (induction ops arbitrary: s)
  case (Cons p ops)
  show ?case
  proof (cases p)
    case (Rd n)
    obtain s1 where s1: "rd n s = Ok (vw s n, s1)" "ok (length (filter is_Wr ops)) s1" "vw s1 = vw s" "valid s1 = valid s"
      using rd_law [of _ s n] Cons.prems Rd by fastforce
    show ?thesis using Cons.IH [OF s1(2)] Cons.prems(2) s1 Rd by (auto simp: split_beta Let_def)
  next
    case (Wr n f)
    obtain s1 where s1: "wr n f s = Ok s1" "ok (length (filter is_Wr ops)) s1" "vw s1 = (vw s)(n := f (vw s n))" "valid s1 = valid s"
      using wr_law [of "length (filter is_Wr ops)" s n f] Cons.prems Wr by auto
    have "op_block ` set ops \<subseteq> valid s1" using Cons.prems(2) s1(4) by simp
    from Cons.IH [OF s1(2) this] show ?thesis unfolding Wr run_ops.simps spec_ops.simps s1(1) bind_res_simps s1(4) s1(3) [symmetric] .
  qed
qed auto

end

section \<open>The cache and the log as a store of blocks\<close>

text \<open>Between calls and inside them: every dirty buffer belongs to a block of the transaction.\<close>

definition txn_ok :: "log \<times> bio \<Rightarrow> bool" where
  "txn_ok = (\<lambda>(l, s). log_ok l (disksize s) \<and> (\<exists>xs. cache_inv s xs) \<and> idle s
     \<and> (\<forall>i < NBUF. b_dirty (bufs s ! i) \<longrightarrow> b_dev (bufs s ! i) = 1 \<and> b_blockno (bufs s ! i) \<in> set (logged l)))"

lemma two_out_of:
  assumes "card {i. i < n \<and> P i} + 2 \<le> (n :: nat)"
  shows "\<exists>i < n. \<exists>j < n. i \<noteq> j \<and> \<not> P i \<and> \<not> P j"
proof -
  have "card {i. i < n \<and> P i} + card {i. i < n \<and> \<not> P i} = card {..<n}"
  proof -
    have "{i. i < n \<and> P i} \<union> {i. i < n \<and> \<not> P i} = {..<n}" by auto
    then show ?thesis by (metis (no_types, lifting) card_Un_disjoint disjoint_iff finite_Un finite_lessThan mem_Collect_eq)
  qed
  then have "Suc (Suc 0) \<le> card {i. i < n \<and> \<not> P i}" using assms by simp
  then show ?thesis unfolding card_le_Suc_iff by blast
qed

lemma txn_rested:
  assumes t: "txn_ok (l, s)" and n: "lh_n l \<le> int NBUF - 2"
  shows "rested s"
proof -
  obtain xs where inv: "cache_inv s xs" and id: "idle s" and lo: "log_ok l (disksize s)"
    and dl: "\<And>i. i < NBUF \<Longrightarrow> b_dirty (bufs s ! i) \<Longrightarrow> b_dev (bufs s ! i) = 1 \<and> b_blockno (bufs s ! i) \<in> set (logged l)"
    using t by (auto simp: txn_ok_def)
  let ?D = "{i. i < NBUF \<and> b_dirty (bufs s ! i)}"
  have "inj_on (\<lambda>i. b_blockno (bufs s ! i)) ?D"
    using inv dl unfolding cache_inv_def unique_blocks_def caches_def inj_on_def by blast
  then have "card ?D = card ((\<lambda>i. b_blockno (bufs s ! i)) ` ?D)" by (simp add: card_image)
  also have "\<dots> \<le> card (set (logged l))" by (rule card_mono) (use dl in auto)
  also have "\<dots> \<le> nat (lh_n l)" using card_length [of "logged l"] log_okD(5) [OF lo] by simp
  finally have "card ?D + 2 \<le> NBUF" using n by (simp add: NBUF_def)
  from two_out_of [OF this] show ?thesis using inv id by (auto simp: two_clean_def)
qed

lemma bread_hit:
  assumes "cache_inv s xs" "lookup_ok s n" "bread 1 n s = Ok (b, s')" "b_dirty (bufs s ! b)"
  shows "caches n (bufs s ! b)"
proof (rule bget_cases [OF assms(1,2)])
  fix c assume c: "caches n (bufs s ! c)"
    "bget 1 n (bufs s) = Ok (c, (bufs s)[c := (bufs s ! c)\<lparr>b_refcnt := b_refcnt (bufs s ! c) + 1, b_held := True\<rparr>])"
  then have "b = c" using assms(3) by (auto simp: bread_def split: if_splits elim!: bind_res_OkE)
  then show ?thesis using c(1) by simp
next
  fix c assume c: "\<not> b_dirty (bufs s ! c)"
    "bget 1 n (bufs s) = Ok (c, (bufs s)[c := (bufs s ! c)\<lparr>b_dev := 1, b_blockno := n, b_valid := False,
       b_dirty := False, b_refcnt := 1, b_held := True\<rparr>])"
  then have "b = c" using assms(3) by (auto simp: bread_def split: if_splits elim!: bind_res_OkE)
  then show ?thesis using c(1) assms(4) by simp
qed

text \<open>After \<^verbatim>\<open>bread\<close> one buffer is held; the facts a release needs.\<close>

definition reading :: "log \<Rightarrow> bio \<Rightarrow> uint \<Rightarrow> nat \<Rightarrow> bio \<Rightarrow> bool" where
  "reading l s n b s1 \<longleftrightarrow> b < NBUF \<and> (\<exists>xs. cache_inv s1 xs) \<and> caches n (bufs s1 ! b) \<and> b_held (bufs s1 ! b) \<and> b_valid (bufs s1 ! b)
     \<and> b_refcnt (bufs s1 ! b) = 1 \<and> b_data (bufs s1 ! b) = view s n \<and> view s1 = view s \<and> disk s1 = disk s \<and> disksize s1 = disksize s
     \<and> writes s1 = writes s \<and> (b_dirty (bufs s1 ! b) \<or> b_data (bufs s1 ! b) = disk s n)
     \<and> (\<forall>i < NBUF. i \<noteq> b \<longrightarrow> \<not> b_held (bufs s1 ! i) \<and> b_refcnt (bufs s1 ! i) = 0)
     \<and> (\<forall>i < NBUF. b_dirty (bufs s1 ! i) \<longrightarrow> b_dev (bufs s1 ! i) = 1 \<and> b_blockno (bufs s1 ! i) \<in> set (logged l))"

lemma bread_reading:
  assumes t: "txn_ok (l, s)" and n: "lh_n l \<le> int NBUF - 2" "n < disksize s"
  shows "\<exists>b s1. bread 1 n s = Ok (b, s1) \<and> reading l s n b s1"
proof -
  obtain xs where inv: "cache_inv s xs" and id: "idle s" and tc: "two_clean s" using txn_rested [OF t n(1)] by blast
  have l: "lookup_ok s n" using id tc by (auto simp: lookup_ok_def idle_def two_clean_def)
  have dl: "b_dev (bufs s ! i) = 1 \<and> b_blockno (bufs s ! i) \<in> set (logged l)" if "i < NBUF" "b_dirty (bufs s ! i)" for i
    using t that by (simp add: txn_ok_def)
  obtain b s1 where s1: "bread 1 n s = Ok (b, s1)" "b < NBUF" "cache_inv s1 xs" "caches n (bufs s1 ! b)" "b_held (bufs s1 ! b)"
    "b_valid (bufs s1 ! b)" "b_data (bufs s1 ! b) = view s n" "\<forall>k. view s1 k = view s k" "disk s1 = disk s" "disksize s1 = disksize s"
    "\<forall>i. i \<noteq> b \<longrightarrow> bufs s1 ! i = bufs s ! i" "b_refcnt (bufs s ! b) = 0 \<longrightarrow> b_refcnt (bufs s1 ! b) = 1"
    "b_dirty (bufs s1 ! b) \<or> b_data (bufs s1 ! b) = disk s n" "b_dirty (bufs s1 ! b) \<longrightarrow> b_dirty (bufs s ! b)" "writes s1 = writes s"
    using bread_spec [OF inv l n(2)] by blast
  have "b_dev (bufs s1 ! i) = 1 \<and> b_blockno (bufs s1 ! i) \<in> set (logged l)" if i: "i < NBUF" "b_dirty (bufs s1 ! i)" for i
  proof (cases "i = b")
    case True
    then have d: "b_dirty (bufs s ! b)" using s1(14) i(2) by simp
    have "caches n (bufs s ! b)" by (rule bread_hit [OF inv l s1(1) d])
    then show ?thesis using dl [OF s1(2) d] s1(4) True by (simp add: caches_def)
  next
    case False
    then show ?thesis using dl [of i] i s1(11) by simp
  qed
  moreover have "\<not> b_held (bufs s1 ! i) \<and> b_refcnt (bufs s1 ! i) = 0" if "i < NBUF" "i \<noteq> b" for i
    using s1(11) id that by (simp add: idle_def)
  moreover have "b_refcnt (bufs s1 ! b) = 1" "view s1 = view s" using s1(2,8,12) id by (auto simp: idle_def)
  ultimately show ?thesis using s1 unfolding reading_def by (intro exI [of _ b] exI [of _ s1] conjI) blast+
qed

lemma brelse_block:
  assumes "brelse b s = Ok s'" "b < length (bufs s)"
  shows "b_dev (bufs s' ! b) = b_dev (bufs s ! b)" "b_blockno (bufs s' ! b) = b_blockno (bufs s ! b)"
proof -
  let ?bs = "set_buf b (\<lambda>x. x\<lparr>b_held := False, b_refcnt := b_refcnt x - 1\<rparr>) (bufs s)"
  have "same_but_links (?bs ! b) (bufs s' ! b)"
    using assms(1) relink_fields [of ?bs b b] by (auto simp: brelse_def Let_def same_but_links_def split: if_splits)
  note f = same_but_linksD [OF this]
  show "b_dev (bufs s' ! b) = b_dev (bufs s ! b)" "b_blockno (bufs s' ! b) = b_blockno (bufs s ! b)"
    using f(3,4) assms(2) by (simp_all add: set_buf_nth)
qed

text \<open>Releasing the one held buffer ends in a resting state.\<close>

lemma brelse_txn:
  assumes inv: "cache_inv s xs" and b: "b < NBUF" "b_held (bufs s ! b)" "b_refcnt (bufs s ! b) = 1"
    and clean: "b_dirty (bufs s ! b) \<or> b_data (bufs s ! b) = disk s (b_blockno (bufs s ! b))"
    and others: "\<forall>i < NBUF. i \<noteq> b \<longrightarrow> \<not> b_held (bufs s ! i) \<and> b_refcnt (bufs s ! i) = 0"
    and dl: "\<forall>i < NBUF. b_dirty (bufs s ! i) \<longrightarrow> b_dev (bufs s ! i) = 1 \<and> b_blockno (bufs s ! i) \<in> set (logged l)"
    and lo: "log_ok l (disksize s)"
  shows "\<exists>s'. brelse b s = Ok s' \<and> txn_ok (l, s') \<and> view s' = view s \<and> disk s' = disk s \<and> disksize s' = disksize s \<and> writes s' = writes s"
proof -
  obtain s3 ys where s3: "brelse b s = Ok s3" "cache_inv s3 ys" "\<not> b_held (bufs s3 ! b)" "\<forall>k. view s3 k = view s k" "disk s3 = disk s"
      "writes s3 = writes s" "disksize s3 = disksize s" "b_refcnt (bufs s3 ! b) = 0" "b_dirty (bufs s3 ! b) = b_dirty (bufs s ! b)"
      "\<forall>i. i \<noteq> b \<longrightarrow> same_but_links (bufs s ! i) (bufs s3 ! i)"
    using brelse_spec [OF inv b(1,2)] clean b(3) by auto
  have len: "b < length (bufs s)" using cache_invD(5) [OF inv b(1)] .
  note fb = brelse_block [OF s3(1) len] and f3 = same_but_linksD [OF s3(10) [rule_format]]
  have "idle s3" using others s3(3,8) f3 unfolding idle_def by metis
  moreover have "b_dev (bufs s3 ! i) = 1 \<and> b_blockno (bufs s3 ! i) \<in> set (logged l)" if "i < NBUF" "b_dirty (bufs s3 ! i)" for i
    using dl that fb s3(9) f3 [of i] by (cases "i = b") auto
  moreover have "view s3 = view s" using s3(4) by auto
  ultimately show ?thesis using s3(1,2,5-7) lo by (auto simp: txn_ok_def)
qed

lemma read_block_spec:
  assumes t: "txn_ok (l, s)" and n: "lh_n l \<le> int NBUF - 2" "n < disksize s"
  shows "\<exists>s'. read_block n (l, s) = Ok (view s n, l, s') \<and> txn_ok (l, s') \<and> view s' = view s \<and> disk s' = disk s
    \<and> disksize s' = disksize s \<and> writes s' = writes s"
proof -
  have lo: "log_ok l (disksize s)" using t by (simp add: txn_ok_def)
  obtain b s1 where s1: "bread 1 n s = Ok (b, s1)" "reading l s n b s1" using bread_reading [OF assms] by blast
  then obtain xs where xs: "cache_inv s1 xs" by (auto simp: reading_def)
  have "b_blockno (bufs s1 ! b) = n" "disksize s1 = disksize s" using s1(2) by (auto simp: reading_def caches_def)
  then obtain s2 where "brelse b s1 = Ok s2 \<and> txn_ok (l, s2) \<and> view s2 = view s1 \<and> disk s2 = disk s1 \<and> disksize s2 = disksize s1 \<and> writes s2 = writes s1"
    using brelse_txn [OF xs, of b l] s1(2) lo by (auto simp: reading_def)
  then show ?thesis using s1 log_okD(1) [OF lo] by (auto simp: read_block_def reading_def)
qed

text \<open>What \<^verbatim>\<open>log_write\<close> does to the header: the block is added once.\<close>

lemma log_write_log:
  assumes lo: "log_ok l dsz" and g: "lh_n l < int LOGSIZE" "lh_n l < lg_size l - 1" "1 \<le> outstanding l"
    and n: "b_blockno (bufs s ! b) = n" "n < dsz" "n \<notin> log_area l"
  shows "\<exists>l'. log_write b l s = Ok (l', s\<lparr>bufs := set_buf b (\<lambda>x. x\<lparr>b_dirty := True\<rparr>) (bufs s)\<rparr>) \<and> log_ok l' dsz
    \<and> set (logged l') = insert n (set (logged l)) \<and> lh_n l \<le> lh_n l' \<and> lh_n l' \<le> lh_n l + 1 \<and> lg_size l' = lg_size l \<and> outstanding l' = outstanding l
    \<and> log_area l' = log_area l \<and> committing l' = committing l \<and> lg_start l' = lg_start l"
proof -
  note D = log_okD [OF lo]
  let ?n = "nat (lh_n l)"
  have tk: "take ?n (lh_block l) = logged l" by (simp add: logged_def)
  have area: "log_area (l\<lparr>lh_block := bs\<rparr>) = log_area l" "log_area (l\<lparr>lh_block := bs, lh_n := k\<rparr>) = log_area l" for bs k
    by (simp_all add: log_area_def log_loc_def image_def)
  show ?thesis
  proof (cases "find_index (\<lambda>k. k = n) (logged l)")
    case (Some i)
    have i: "i < length (logged l)" "logged l ! i = n" using Some by (auto simp: find_index_Some)
    then have e: "(lh_block l)[i := n] = lh_block l" using D(5) by (simp add: logged_def list_update_same_conv)
    have "n \<in> set (logged l)" using i nth_mem by blast
    then show ?thesis using Some i D(5) g n(1) lo by (auto simp: log_write_def Let_def tk e)
  next
    case None
    then have nin: "n \<notin> set (logged l)" by (auto simp: find_index_None)
    let ?l = "l\<lparr>lh_block := (lh_block l)[?n := n], lh_n := lh_n l + 1\<rparr>"
    have s: "nat (lh_n l + 1) = Suc ?n" using D(2) by simp
    have lg: "logged ?l = logged l @ [n]" using D(2,4) g(1) unfolding logged_def
      by (simp add: s take_Suc_conv_app_nth)
    have "log_ok ?l dsz" using lo g n nin unfolding log_ok_def lg by (auto simp: area)
    moreover have "log_write b l s = Ok (?l, s\<lparr>bufs := set_buf b (\<lambda>x. x\<lparr>b_dirty := True\<rparr>) (bufs s)\<rparr>)"
      using None g n(1) by (simp add: log_write_def Let_def tk)
    ultimately show ?thesis using lg area(2) by (intro exI [of _ ?l]) auto
  qed
qed

lemma update_block_spec:
  assumes t: "txn_ok (l, s)" and n: "lh_n l \<le> int NBUF - 2" "n < disksize s" "n \<notin> log_area l"
    and g: "lh_n l < lg_size l - 1" "1 \<le> outstanding l"
  shows "\<exists>l' s'. update_block n f (l, s) = Ok (l', s') \<and> txn_ok (l', s') \<and> view s' = (view s)(n := f (view s n)) \<and> disk s' = disk s
    \<and> disksize s' = disksize s \<and> writes s' = writes s \<and> lh_n l' \<le> lh_n l + 1 \<and> lg_size l' = lg_size l \<and> outstanding l' = outstanding l
    \<and> log_area l' = log_area l \<and> committing l' = committing l \<and> lg_start l' = lg_start l"
proof -
  have lo: "log_ok l (disksize s)" using t by (simp add: txn_ok_def)
  have full: "lh_n l < int LOGSIZE" using n(1) by (simp add: NBUF_def LOGSIZE_def)
  obtain b s1 where s1: "bread 1 n s = Ok (b, s1)" "reading l s n b s1" using bread_reading [OF t n(1,2)] by blast
  then obtain xs where xs: "cache_inv s1 xs" by (auto simp: reading_def)
  have b: "b < NBUF" "caches n (bufs s1 ! b)" "b_held (bufs s1 ! b)" "b_valid (bufs s1 ! b)" "b_data (bufs s1 ! b) = view s n"
    "view s1 = view s" "disk s1 = disk s" "disksize s1 = disksize s" "writes s1 = writes s" "b_refcnt (bufs s1 ! b) = 1"
    "\<forall>i < NBUF. i \<noteq> b \<longrightarrow> \<not> b_held (bufs s1 ! i) \<and> b_refcnt (bufs s1 ! i) = 0"
    "\<forall>i < NBUF. b_dirty (bufs s1 ! i) \<longrightarrow> b_dev (bufs s1 ! i) = 1 \<and> b_blockno (bufs s1 ! i) \<in> set (logged l)"
    using s1(2) by (simp_all add: reading_def)
  have len: "b < length (bufs s1)" using cache_invD(5) [OF xs b(1)] .
  define s2 where "s2 = s1\<lparr>bufs := set_buf b (\<lambda>x. x\<lparr>b_data := f (b_data x)\<rparr>) (bufs s1)\<rparr>"
  define s3 where "s3 = s1\<lparr>bufs := set_buf b (\<lambda>x. x\<lparr>b_data := f (view s n), b_valid := True, b_dirty := True\<rparr>) (bufs s1)\<rparr>"
  have e: "s2\<lparr>bufs := set_buf b (\<lambda>x. x\<lparr>b_dirty := True\<rparr>) (bufs s2)\<rparr> = s3"
    using len b(4,5) by (cases "bufs s1 ! b") (simp add: s2_def s3_def set_buf_def)
  have "b_blockno (bufs s2 ! b) = n" using len b(2) by (simp add: s2_def set_buf_nth caches_def)
  from log_write_log [OF lo full g this n(2,3)] obtain l' where l': "log_write b l s2 = Ok (l', s3)" "log_ok l' (disksize s)"
    "set (logged l') = insert n (set (logged l))" "lh_n l' \<le> lh_n l + 1" "lg_size l' = lg_size l" "outstanding l' = outstanding l"
    "log_area l' = log_area l" "committing l' = committing l" "lg_start l' = lg_start l"
    unfolding e by blast
  note M = modify_spec [OF xs b(1-3) s3_def]
  have f3: "disk s3 = disk s" "disksize s3 = disksize s" "writes s3 = writes s" using b(7-9) by (simp_all add: s3_def)
  have n3: "bufs s3 ! i = (if i = b then (bufs s1 ! b)\<lparr>b_data := f (view s n), b_valid := True, b_dirty := True\<rparr> else bufs s1 ! i)" for i
    using len by (simp add: s3_def set_buf_nth)
  have dl: "\<forall>i < NBUF. b_dirty (bufs s3 ! i) \<longrightarrow> b_dev (bufs s3 ! i) = 1 \<and> b_blockno (bufs s3 ! i) \<in> set (logged l')"
    using b(2,12) l'(3) by (auto simp: n3 caches_def)
  have v3: "view s3 = (view s)(n := f (view s n))" using M(2) b(6) by auto
  have lo3: "log_ok l' (disksize s3)" using l'(2) f3(2) by simp
  have ot: "\<forall>i < NBUF. i \<noteq> b \<longrightarrow> \<not> b_held (bufs s3 ! i) \<and> b_refcnt (bufs s3 ! i) = 0" using b(11) by (simp add: n3)
  obtain s4 where s4: "brelse b s3 = Ok s4" "txn_ok (l', s4)" "view s4 = view s3" "disk s4 = disk s3" "disksize s4 = disksize s3" "writes s4 = writes s3"
    using brelse_txn [OF M(1) b(1) _ _ _ ot dl lo3] b(3,10) by (auto simp: n3)
  have "update_block n f (l, s) = Ok (l', s4)"
    using s1(1) l'(1) s4(1) log_okD(1) [OF lo] by (simp add: update_block_def s2_def [symmetric])
  then show ?thesis using s4 f3 v3 l' by (intro exI [of _ l'] exI [of _ s4]) simp
qed

text \<open>The states inside a call: \<open>k\<close> more blocks may be logged, and the disk \<open>D\<close> is still that of before the call.\<close>

definition store_ok :: "(uint \<Rightarrow> blk) \<Rightarrow> uint set \<Rightarrow> nat \<Rightarrow> log \<times> bio \<Rightarrow> bool" where
  "store_ok D A k = (\<lambda>(l, s). txn_ok (l, s) \<and> outstanding l = 1 \<and> \<not> committing l \<and> lh_n l + int k \<le> int NBUF - 2
     \<and> lh_n l + int k < lg_size l \<and> disk s = D \<and> log_area l = A)"

definition store_valid :: "log \<times> bio \<Rightarrow> uint set" where
  "store_valid = (\<lambda>(l, s). {n. n < disksize s} - log_area l)"

abbreviation store_view :: "log \<times> bio \<Rightarrow> uint \<Rightarrow> blk" where
  "store_view t \<equiv> view (snd t)"

interpretation lb: block_store "store_ok D A" store_valid store_view read_block update_block for D A
proof
  fix k n f and t :: "log \<times> bio"
  obtain l s where t: "t = (l, s)" by (cases t)
  show "\<exists>t'. read_block n t = Ok (store_view t n, t') \<and> store_ok D A k t' \<and> store_view t' = store_view t \<and> store_valid t' = store_valid t"
    if "store_ok D A k t" "n \<in> store_valid t"
    using read_block_spec [of l s n] that unfolding t by (auto simp: store_ok_def store_valid_def)
  show "\<exists>t'. update_block n f t = Ok t' \<and> store_ok D A k t' \<and> store_view t' = (store_view t)(n := f (store_view t n)) \<and> store_valid t' = store_valid t"
    if o: "store_ok D A (Suc k) t" "n \<in> store_valid t"
  proof -
    have h: "txn_ok (l, s)" "lh_n l \<le> int NBUF - 2" "n < disksize s" "n \<notin> log_area l" "lh_n l < lg_size l - 1" "1 \<le> outstanding l"
      using o unfolding t by (simp_all add: store_ok_def store_valid_def)
    from update_block_spec [OF h, of f] obtain l' s' where u: "update_block n f (l, s) = Ok (l', s')" "txn_ok (l', s')"
      "view s' = (view s)(n := f (view s n))" "disk s' = disk s" "disksize s' = disksize s" "lh_n l' \<le> lh_n l + 1" "lg_size l' = lg_size l"
      "outstanding l' = outstanding l" "log_area l' = log_area l" "committing l' = committing l" by blast
    have "store_ok D A k (l', s')" using u o(1) unfolding t by (simp add: store_ok_def)
    then show ?thesis using u unfolding t by (intro exI [of _ "(l', s')"]) (simp add: store_valid_def)
  qed
qed

text \<open>Only logged blocks differ between the cache and the disk.\<close>

lemma txn_view:
  assumes "txn_ok (l, s)" "k \<notin> set (logged l)"
  shows "view s k = disk s k"
proof (cases "find (\<lambda>i. caches k (bufs s ! i) \<and> b_valid (bufs s ! i)) [0..<NBUF]")
  case (Some i)
  then have i: "i < NBUF" "caches k (bufs s ! i)" "b_valid (bufs s ! i)" using find_SomeD [OF Some] by auto
  have "buf_ok s (bufs s ! i)" "\<not> b_held (bufs s ! i)" "\<not> b_dirty (bufs s ! i)"
    using assms i by (auto simp: txn_ok_def cache_inv_def idle_def caches_def)
  then show ?thesis using i Some by (simp add: view_def buf_ok_def caches_def)
qed (simp add: view_def)

lemma log_ok_flags [simp]:
  "log_ok (l\<lparr>outstanding := a, committing := c\<rparr>) n = log_ok l n" "logged (l\<lparr>outstanding := a, committing := c\<rparr>) = logged l"
  "log_area (l\<lparr>outstanding := a, committing := c\<rparr>) = log_area l" "log_ok (l\<lparr>outstanding := a\<rparr>) n = log_ok l n"
  "logged (l\<lparr>outstanding := a\<rparr>) = logged l" "log_area (l\<lparr>outstanding := a\<rparr>) = log_area l"
  by (simp_all add: log_ok_def logged_def log_area_def log_loc_def image_def)

lemma end_op_commits:
  assumes t: "txn_ok (l, s)" and l: "outstanding l = 1" "\<not> committing l" "lh_n l \<le> int NBUF - 2"
  shows "\<exists>l' s'. end_op l s = Ok (l', s') \<and> lh_n l' = 0 \<and> outstanding l' = 0 \<and> \<not> committing l'
    \<and> (\<forall>k. k \<notin> log_area l \<longrightarrow> disk s' k = view s k)"
proof (cases "lh_n l = 0")
  case True
  then have "logged l = []" by (simp add: logged_def)
  then show ?thesis using l(1,2) True txn_view [OF t] by (simp add: end_op_def commit_def Let_def)
next
  case False
  let ?l = "l\<lparr>outstanding := 0, committing := True\<rparr>"
  have lo: "log_ok ?l (disksize s)" using t by (simp add: txn_ok_def)
  have pos: "0 < lh_n ?l" using False log_okD(2) [OF lo] by simp
  obtain s' where s': "commit ?l s = Ok (?l\<lparr>lh_n := 0\<rparr>, s')" "disk s' = apply_writes (commit_writes ?l (view s)) (disk s)"
    using commit_spec [OF lo pos txn_rested [OF t l(3)]] by blast
  have "disk s' k = view s k" if "k \<notin> log_area l" for k
    using commit_writes_at [OF lo, of k "view s" "disk s"] that txn_view [OF t, of k] by (simp add: s'(2))
  then show ?thesis using s'(1) l(1,2) by (simp add: end_op_def Let_def)
qed

text \<open>C2: a system call's writes take effect together and are durable. Every block the call reads or changes through the
  cache and the log has the value of the abstract store; until \<^verbatim>\<open>end_op\<close> the disk is untouched, and when \<^verbatim>\<open>end_op\<close> of the last
  call returns, the disk outside the log is the abstract result.\<close>

theorem transaction_refines:
  assumes "txn_ok (l, s)" "lh_n l = 0" "outstanding l = 0" "\<not> committing l" "length (filter is_Wr ops) \<le> NBUF - 2"
    "int (length (filter is_Wr ops)) < lg_size l" "op_block ` set ops \<subseteq> {n. n < disksize s} - log_area l"
  shows "\<exists>l1 l2 s2 l3 s3. begin_op l = Some l1
    \<and> run_ops read_block update_block ops (l1, s) = Ok (fst (spec_ops ops (disk s)), l2, s2) \<and> disk s2 = disk s
    \<and> end_op l2 s2 = Ok (l3, s3) \<and> lh_n l3 = 0 \<and> outstanding l3 = 0
    \<and> (\<forall>k. k \<notin> log_area l \<longrightarrow> disk s3 k = snd (spec_ops ops (disk s)) k)"
proof -
  let ?l = "l\<lparr>outstanding := 1\<rparr>"
  have b: "begin_op l = Some ?l" using assms(2-4) by (simp add: begin_op_def MAXOPBLOCKS_def LOGSIZE_def)
  have "logged l = []" using assms(2) by (simp add: logged_def)
  then have v: "view s = disk s" using txn_view [OF assms(1)] by auto
  have o: "store_ok (disk s) (log_area l) (length (filter is_Wr ops)) (?l, s)"
    using assms(1,2,4-6) by (simp add: store_ok_def txn_ok_def NBUF_def)
  have vd: "op_block ` set ops \<subseteq> store_valid (?l, s)" using assms(7) by (simp add: store_valid_def)
  obtain l2 s2 where r: "run_ops read_block update_block ops (?l, s) = Ok (fst (spec_ops ops (disk s)), l2, s2)"
    "view s2 = snd (spec_ops ops (disk s))" "store_ok (disk s) (log_area l) 0 (l2, s2)"
    using lb.script_refines [OF o vd] v by auto
  then have t2: "txn_ok (l2, s2)" "outstanding l2 = 1" "\<not> committing l2" "lh_n l2 \<le> int NBUF - 2" "disk s2 = disk s" "log_area l2 = log_area l"
    by (simp_all add: store_ok_def)
  obtain l3 s3 where "end_op l2 s2 = Ok (l3, s3)" "lh_n l3 = 0" "outstanding l3 = 0" "\<forall>k. k \<notin> log_area l2 \<longrightarrow> disk s3 k = view s2 k"
    using end_op_commits [OF t2(1-4)] by blast
  with t2 r b show ?thesis by (intro exI [of _ ?l] exI [of _ l2] exI [of _ s2] exI [of _ l3] exI [of _ s3]) simp
qed

lemma boot_txn_ok: "log_ok l n \<Longrightarrow> lh_n l = 0 \<Longrightarrow> txn_ok (l, boot D n)"
proof -
  assume l: "log_ok l n" "lh_n l = 0"
  obtain xs where inv: "cache_inv (boot D n) xs" and id: "idle (boot D n)" using boot_rested(1) by blast
  have len: "length (bufs (boot D n)) = Suc NBUF" using inv by (simp add: cache_inv_def ring_def)
  have "\<not> b_dirty (bufs (boot D n) ! i)" if "i < NBUF" for i
    using bspec [OF binit_zero nth_mem, of i] that len by (simp add: same_but_linksD zero_buf_def boot_def)
  then show ?thesis using l inv id by (auto simp: txn_ok_def boot_rested(4))
qed

theorem transaction_refines_witness:
  "\<exists>l1 l2 s2 l3 s3. begin_op (small_log\<lparr>lh_n := 0\<rparr>) = Some l1
    \<and> run_ops read_block update_block [Rd 40, Wr 40 (\<lambda>d. d[0 := 7]), Rd 40] (l1, boot (\<lambda>_. replicate 512 0) 1000)
       = Ok ([replicate 512 0, (replicate 512 0)[0 := 7]], l2, s2)
    \<and> end_op l2 s2 = Ok (l3, s3) \<and> disk s3 40 = (replicate 512 0)[0 := 7]"
proof -
  let ?l = "small_log\<lparr>lh_n := 0\<rparr>" and ?s = "boot (\<lambda>_. replicate 512 0) 1000"
  let ?ops = "[Rd 40, Wr 40 (\<lambda>d. d[0 := 7]), Rd 40]"
  have area: "log_area ?l = log_area small_log" by (simp add: log_area_def log_loc_def image_def)
  have a40: "40 \<notin> log_area ?l" and a1000: "\<forall>a \<in> log_area ?l. a < 1000" unfolding area using small_log_area by auto
  have "log_ok ?l 1000" using a1000 by (simp add: log_ok_def logged_def) (simp add: small_log_def LOGSIZE_def)
  then have t: "txn_ok (?l, ?s)" by (simp add: boot_txn_ok)
  have f: "outstanding ?l = 0" "\<not> committing ?l" "lg_size ?l = 30" by (simp_all add: small_log_def zero_log_def)
  have "\<exists>l1 l2 s2 l3 s3. begin_op ?l = Some l1
    \<and> run_ops read_block update_block ?ops (l1, ?s) = Ok (fst (spec_ops ?ops (disk ?s)), l2, s2) \<and> disk s2 = disk ?s
    \<and> end_op l2 s2 = Ok (l3, s3) \<and> lh_n l3 = 0 \<and> outstanding l3 = 0
    \<and> (\<forall>k. k \<notin> log_area ?l \<longrightarrow> disk s3 k = snd (spec_ops ?ops (disk ?s)) k)"
    by (rule transaction_refines [OF t _ f(1,2)]) (use f(3) a40 in \<open>simp_all add: NBUF_def boot_rested(4)\<close>)
  then show ?thesis using a40 by (auto simp: boot_rested(3))
qed

end
