(* ===== verification/Fs.thy ===== *)
theory Fs
  imports Transaction Cstring
begin

text \<open>
  The file system (fs.c, fs.h, the structures of file.h and stat.h): block allocator, inodes, file contents, directories and paths.

  Blocks are read and changed through the store of theory \<^verbatim>\<open>Transaction\<close>: a \<^verbatim>\<open>bread\<close> with its \<^verbatim>\<open>brelse\<close> is \<open>rd_blk\<close>, and
  \<^verbatim>\<open>bread\<close>, a change of the data, \<^verbatim>\<open>log_write\<close> and \<^verbatim>\<open>brelse\<close> is \<open>up_blk\<close>; both keep the panics of the disk driver for a
  wrong device or block number. A pointer to an in-memory inode is an index into the inode cache, a null pointer is \<open>None\<close>. The sleep
  lock of an inode is one bit; acquiring it while it is held is \<open>Block\<close>. A call of a device's read or write routine, always the
  last thing \<^verbatim>\<open>readi\<close> and \<^verbatim>\<open>writei\<close> do, is the value \<open>Dev\<close> with the device number.
\<close>

section \<open>Definitions\<close>

definition ROOTINO :: uint where "ROOTINO = 1"
definition ROOTDEV :: uint where "ROOTDEV = 1"
definition NINODE :: nat where "NINODE = 50"
definition NDEV :: int where "NDEV = 10"
definition NDIRECT :: nat where "NDIRECT = 12"
definition NINDIRECT :: nat where "NINDIRECT = BSIZE div 4"
definition MAXFILE :: nat where "MAXFILE = NDIRECT + NINDIRECT"
definition BPB :: nat where "BPB = BSIZE * 8"
definition DIRSIZ :: nat where "DIRSIZ = 14"
definition T_DIR :: ushort where "T_DIR = 1"
definition T_FILE :: ushort where "T_FILE = 2"
definition T_DEV :: ushort where "T_DEV = 3"

text \<open>The size of a \<^verbatim>\<open>struct dinode\<close> and of a \<^verbatim>\<open>struct dirent\<close>.\<close>

definition DINODE :: nat where "DINODE = 64"
definition DIRENT :: nat where "DIRENT = 16"
definition IPB :: nat where "IPB = BSIZE div DINODE"

record superblock =
  sb_size :: uint
  sb_nblocks :: uint
  sb_ninodes :: uint
  sb_nlog :: uint
  sb_logstart :: uint
  sb_inodestart :: uint
  sb_bmapstart :: uint

record inode =
  i_dev :: uint
  i_inum :: uint
  i_ref :: int
  i_held :: bool
  i_valid :: bool
  i_type :: ushort
  i_major :: ushort
  i_minor :: ushort
  i_nlink :: ushort
  i_size :: uint
  i_addrs :: "uint list"

record stat =
  st_type :: ushort
  st_dev :: uint
  st_ino :: uint
  st_nlink :: ushort
  st_size :: uint

text \<open>\<open>fs_devs\<close> are the devices that have entries in \<^verbatim>\<open>devsw\<close>.\<close>

record fs =
  fs_sb :: superblock
  fs_ic :: "inode list"
  fs_dk :: "uint \<Rightarrow> blk"
  fs_dsz :: uint
  fs_devs :: "nat set"

datatype rw = Done int "byte list" | Dev nat

definition rd_blk :: "uint \<Rightarrow> uint \<Rightarrow> fs \<Rightarrow> blk res" where
  "rd_blk dev n s =
     (if dev \<noteq> 1 then Panic ''iderw: request not for disk 1''
      else if n \<ge> fs_dsz s then Panic ''iderw: block out of range''
      else Ok (fs_dk s n))"

definition up_blk :: "uint \<Rightarrow> uint \<Rightarrow> (blk \<Rightarrow> blk) \<Rightarrow> fs \<Rightarrow> fs res" where
  "up_blk dev n f s =
     bind_res (rd_blk dev n s) (\<lambda>d. Ok (s\<lparr>fs_dk := (fs_dk s)(n := f d)\<rparr>))"

subsection \<open>Super block and block allocator\<close>

definition read_sb :: "blk \<Rightarrow> superblock" where
  "read_sb d = \<lparr>sb_size = get32 d 0, sb_nblocks = get32 d 4, sb_ninodes = get32 d 8, sb_nlog = get32 d 12,
     sb_logstart = get32 d 16, sb_inodestart = get32 d 20, sb_bmapstart = get32 d 24\<rparr>"

definition readsb :: "uint \<Rightarrow> fs \<Rightarrow> superblock res" where
  "readsb dev s = bind_res (rd_blk dev 1 s) (\<lambda>d. Ok (read_sb d))"

definition bzero :: "uint \<Rightarrow> uint \<Rightarrow> fs \<Rightarrow> fs res" where
  "bzero dev bno s = up_blk dev bno (\<lambda>d. replicate BSIZE 0) s"

definition IBLOCK :: "uint \<Rightarrow> superblock \<Rightarrow> uint" where
  "IBLOCK i sb = word_of_nat (unat i div IPB) + sb_inodestart sb"

definition BBLOCK :: "uint \<Rightarrow> superblock \<Rightarrow> uint" where
  "BBLOCK b sb = word_of_nat (unat b div BPB) + sb_bmapstart sb"

definition bit_at :: "blk \<Rightarrow> nat \<Rightarrow> bool" where
  "bit_at d bi = (d ! (bi div 8) AND push_bit (bi mod 8) 1 \<noteq> 0)"

definition set_bit_at :: "blk \<Rightarrow> nat \<Rightarrow> blk" where
  "set_bit_at d bi = d[bi div 8 := d ! (bi div 8) OR push_bit (bi mod 8) 1]"

definition clear_bit_at :: "blk \<Rightarrow> nat \<Rightarrow> blk" where
  "clear_bit_at d bi = d[bi div 8 := d ! (bi div 8) AND NOT (push_bit (bi mod 8) 1)]"

text \<open>The bitmap blocks from the one for block \<open>b\<close> on; \<open>k\<close> counts the bitmap blocks left.\<close>

fun balloc_from :: "uint \<Rightarrow> nat \<Rightarrow> nat \<Rightarrow> fs \<Rightarrow> (uint \<times> fs) res" where
  "balloc_from dev 0 b s = Panic ''balloc: out of blocks''"
| "balloc_from dev (Suc k) b s =
     bind_res (rd_blk dev (BBLOCK (word_of_nat b) (fs_sb s)) s) (\<lambda>d.
     case find_index (\<lambda>bi. \<not> bit_at d bi) [0..<min BPB (unat (sb_size (fs_sb s)) - b)] of
       Some bi \<Rightarrow>
         bind_res (up_blk dev (BBLOCK (word_of_nat b) (fs_sb s)) (\<lambda>d. set_bit_at d bi) s) (\<lambda>s1.
         bind_res (bzero dev (word_of_nat (b + bi)) s1) (\<lambda>s2. Ok (word_of_nat (b + bi), s2)))
     | None \<Rightarrow> balloc_from dev k (b + BPB) s)"

definition balloc :: "uint \<Rightarrow> fs \<Rightarrow> (uint \<times> fs) res" where
  "balloc dev s = balloc_from dev ((unat (sb_size (fs_sb s)) + BPB - 1) div BPB) 0 s"

definition bfree :: "uint \<Rightarrow> uint \<Rightarrow> fs \<Rightarrow> fs res" where
  "bfree dev b s =
     bind_res (readsb dev s) (\<lambda>sb.
     let s1 = s\<lparr>fs_sb := sb\<rparr>; bi = unat b mod BPB
     in bind_res (rd_blk dev (BBLOCK b sb) s1) (\<lambda>d.
        if \<not> bit_at d bi then Panic ''freeing free block''
        else up_blk dev (BBLOCK b sb) (\<lambda>d. clear_bit_at d bi) s1))"

subsection \<open>Inodes\<close>

definition set_inode :: "nat \<Rightarrow> (inode \<Rightarrow> inode) \<Rightarrow> fs \<Rightarrow> fs" where
  "set_inode i f s = s\<lparr>fs_ic := (fs_ic s)[i := f (fs_ic s ! i)]\<rparr>"

definition iinit :: "uint \<Rightarrow> fs \<Rightarrow> fs res" where
  "iinit dev s =
     (let s1 = s\<lparr>fs_ic := map (\<lambda>ip. ip\<lparr>i_held := False\<rparr>) (fs_ic s)\<rparr>
      in bind_res (readsb dev s1) (\<lambda>sb. Ok (s1\<lparr>fs_sb := sb\<rparr>)))"

text \<open>The entry for the inode, or the first empty slot.\<close>

definition iget :: "uint \<Rightarrow> uint \<Rightarrow> fs \<Rightarrow> (nat \<times> fs) res" where
  "iget dev inum s =
     (case find_index (\<lambda>ip. i_ref ip > 0 \<and> i_dev ip = dev \<and> i_inum ip = inum) (fs_ic s) of
        Some i \<Rightarrow> Ok (i, set_inode i (\<lambda>ip. ip\<lparr>i_ref := i_ref ip + 1\<rparr>) s)
      | None \<Rightarrow>
          (case find_index (\<lambda>ip. i_ref ip = 0) (fs_ic s) of
             None \<Rightarrow> Panic ''iget: no inodes''
           | Some i \<Rightarrow> Ok (i, set_inode i (\<lambda>ip. ip\<lparr>i_dev := dev, i_inum := inum, i_ref := 1, i_valid := False\<rparr>) s)))"

definition dinode_off :: "uint \<Rightarrow> nat" where
  "dinode_off inum = unat inum mod IPB * DINODE"

fun ialloc_from :: "uint \<Rightarrow> ushort \<Rightarrow> nat list \<Rightarrow> fs \<Rightarrow> (nat \<times> fs) res" where
  "ialloc_from dev type [] s = Panic ''ialloc: no inodes''"
| "ialloc_from dev type (n # ns) s =
     (let inum = word_of_nat n; off = dinode_off inum
      in bind_res (rd_blk dev (IBLOCK inum (fs_sb s)) s) (\<lambda>d.
         if get16 d off = 0
         then bind_res (up_blk dev (IBLOCK inum (fs_sb s)) (\<lambda>d. put16 (overlay d off (replicate DINODE 0)) off type) s) (\<lambda>s1.
              iget dev inum s1)
         else ialloc_from dev type ns s))"

definition ialloc :: "uint \<Rightarrow> ushort \<Rightarrow> fs \<Rightarrow> (nat \<times> fs) res" where
  "ialloc dev type s = ialloc_from dev type [1..<unat (sb_ninodes (fs_sb s))] s"

definition write_dinode :: "inode \<Rightarrow> nat \<Rightarrow> blk \<Rightarrow> blk" where
  "write_dinode ip off d =
     put_words (put32 (put16 (put16 (put16 (put16 d off (i_type ip)) (off + 2) (i_major ip)) (off + 4) (i_minor ip))
       (off + 6) (i_nlink ip)) (off + 8) (i_size ip)) (off + 12) (i_addrs ip)"

definition iupdate :: "nat \<Rightarrow> fs \<Rightarrow> fs res" where
  "iupdate i s =
     (let ip = fs_ic s ! i
      in up_blk (i_dev ip) (IBLOCK (i_inum ip) (fs_sb s)) (write_dinode ip (dinode_off (i_inum ip))) s)"

definition idup :: "nat \<Rightarrow> fs \<Rightarrow> fs" where
  "idup i s = set_inode i (\<lambda>ip. ip\<lparr>i_ref := i_ref ip + 1\<rparr>) s"

definition read_dinode :: "blk \<Rightarrow> nat \<Rightarrow> inode \<Rightarrow> inode" where
  "read_dinode d off ip = ip\<lparr>i_type := get16 d off, i_major := get16 d (off + 2), i_minor := get16 d (off + 4),
     i_nlink := get16 d (off + 6), i_size := get32 d (off + 8), i_addrs := get_words d (off + 12) (NDIRECT + 1)\<rparr>"

definition acquire_inode :: "nat \<Rightarrow> fs \<Rightarrow> fs res" where
  "acquire_inode i s = (if i_held (fs_ic s ! i) then Block else Ok (set_inode i (\<lambda>ip. ip\<lparr>i_held := True\<rparr>) s))"

definition ilock :: "nat option \<Rightarrow> fs \<Rightarrow> fs res" where
  "ilock p s =
     (case p of None \<Rightarrow> Panic ''ilock''
      | Some i \<Rightarrow>
          if i_ref (fs_ic s ! i) < 1 then Panic ''ilock''
          else bind_res (acquire_inode i s) (\<lambda>s1.
               let ip = fs_ic s1 ! i
               in if \<not> i_valid ip
                  then bind_res (rd_blk (i_dev ip) (IBLOCK (i_inum ip) (fs_sb s1)) s1) (\<lambda>d.
                       let ip1 = (read_dinode d (dinode_off (i_inum ip)) ip)\<lparr>i_valid := True\<rparr>
                       in if i_type ip1 = 0 then Panic ''ilock: no type''
                          else Ok (set_inode i (\<lambda>_. ip1) s1))
                  else Ok s1))"

definition release_inode :: "nat \<Rightarrow> fs \<Rightarrow> fs" where
  "release_inode i s = set_inode i (\<lambda>ip. ip\<lparr>i_held := False\<rparr>) s"

definition iunlock :: "nat option \<Rightarrow> fs \<Rightarrow> fs res" where
  "iunlock p s =
     (case p of None \<Rightarrow> Panic ''iunlock''
      | Some i \<Rightarrow> if \<not> i_held (fs_ic s ! i) \<or> i_ref (fs_ic s ! i) < 1 then Panic ''iunlock'' else Ok (release_inode i s))"

text \<open>The two loops of \<^verbatim>\<open>itrunc\<close>: over the addresses of the inode, and over those of the indirect block.\<close>

fun trunc_direct :: "nat \<Rightarrow> nat list \<Rightarrow> fs \<Rightarrow> fs res" where
  "trunc_direct i [] s = Ok s"
| "trunc_direct i (k # ks) s =
     (let ip = fs_ic s ! i
      in if i_addrs ip ! k \<noteq> 0
         then bind_res (bfree (i_dev ip) (i_addrs ip ! k) s) (\<lambda>s1.
              trunc_direct i ks (set_inode i (\<lambda>ip. ip\<lparr>i_addrs := (i_addrs ip)[k := 0]\<rparr>) s1))
         else trunc_direct i ks s)"

fun trunc_indirect :: "uint \<Rightarrow> uint list \<Rightarrow> fs \<Rightarrow> fs res" where
  "trunc_indirect dev [] s = Ok s"
| "trunc_indirect dev (a # as) s =
     (if a \<noteq> 0 then bind_res (bfree dev a s) (\<lambda>s1. trunc_indirect dev as s1) else trunc_indirect dev as s)"

definition itrunc :: "nat \<Rightarrow> fs \<Rightarrow> fs res" where
  "itrunc i s =
     bind_res (trunc_direct i [0..<NDIRECT] s) (\<lambda>s1.
     let ip = fs_ic s1 ! i; a = i_addrs ip ! NDIRECT
     in bind_res
          (if a \<noteq> 0
           then bind_res (rd_blk (i_dev ip) a s1) (\<lambda>d.
                bind_res (trunc_indirect (i_dev ip) (get_words d 0 NINDIRECT) s1) (\<lambda>s2.
                bind_res (bfree (i_dev ip) a s2) (\<lambda>s3.
                Ok (set_inode i (\<lambda>ip. ip\<lparr>i_addrs := (i_addrs ip)[NDIRECT := 0]\<rparr>) s3))))
           else Ok s1) (\<lambda>s4.
        iupdate i (set_inode i (\<lambda>ip. ip\<lparr>i_size := 0\<rparr>) s4)))"

definition iput :: "nat \<Rightarrow> fs \<Rightarrow> fs res" where
  "iput i s =
     bind_res (acquire_inode i s) (\<lambda>s1.
     bind_res
       (if i_valid (fs_ic s1 ! i) \<and> i_nlink (fs_ic s1 ! i) = 0 \<and> i_ref (fs_ic s1 ! i) = 1
        then bind_res (itrunc i s1) (\<lambda>s2.
             bind_res (iupdate i (set_inode i (\<lambda>ip. ip\<lparr>i_type := 0\<rparr>) s2)) (\<lambda>s3.
             Ok (set_inode i (\<lambda>ip. ip\<lparr>i_valid := False\<rparr>) s3)))
        else Ok s1) (\<lambda>s4.
     Ok (set_inode i (\<lambda>ip. ip\<lparr>i_ref := i_ref ip - 1\<rparr>) (release_inode i s4))))"

definition iunlockput :: "nat \<Rightarrow> fs \<Rightarrow> fs res" where
  "iunlockput i s = bind_res (iunlock (Some i) s) (\<lambda>s1. iput i s1)"

subsection \<open>Contents\<close>

definition bmap :: "nat \<Rightarrow> nat \<Rightarrow> fs \<Rightarrow> (uint \<times> fs) res" where
  "bmap i bn s =
     (let ip = fs_ic s ! i
      in if bn < NDIRECT
         then if i_addrs ip ! bn = 0
              then bind_res (balloc (i_dev ip) s) (\<lambda>(a, s1).
                   Ok (a, set_inode i (\<lambda>ip. ip\<lparr>i_addrs := (i_addrs ip)[bn := a]\<rparr>) s1))
              else Ok (i_addrs ip ! bn, s)
         else if bn - NDIRECT < NINDIRECT
         then bind_res
                (if i_addrs ip ! NDIRECT = 0
                 then bind_res (balloc (i_dev ip) s) (\<lambda>(a, s1).
                      Ok (a, set_inode i (\<lambda>ip. ip\<lparr>i_addrs := (i_addrs ip)[NDIRECT := a]\<rparr>) s1))
                 else Ok (i_addrs ip ! NDIRECT, s)) (\<lambda>(ind, s2).
              bind_res (rd_blk (i_dev ip) ind s2) (\<lambda>d.
              let a = get32 d (4 * (bn - NDIRECT))
              in if a = 0
                 then bind_res (balloc (i_dev ip) s2) (\<lambda>(a, s3).
                      bind_res (up_blk (i_dev ip) ind (\<lambda>d. put32 d (4 * (bn - NDIRECT)) a) s3) (\<lambda>s4. Ok (a, s4)))
                 else Ok (a, s2)))
         else Panic ''bmap: out of range'')"

definition stati :: "nat \<Rightarrow> fs \<Rightarrow> stat" where
  "stati i s = (let ip = fs_ic s ! i in
     \<lparr>st_type = i_type ip, st_dev = i_dev ip, st_ino = i_inum ip, st_nlink = i_nlink ip, st_size = i_size ip\<rparr>)"

text \<open>The bytes of one step of the loops of \<^verbatim>\<open>readi\<close> and \<^verbatim>\<open>writei\<close> end at a block boundary.\<close>

definition step_len :: "nat \<Rightarrow> nat \<Rightarrow> nat" where
  "step_len off n = min n (BSIZE - off mod BSIZE)"

lemma step_len_pos [simp]: "0 < n \<Longrightarrow> 0 < step_len off n" "step_len off n \<le> n"
  by (simp_all add: step_len_def BSIZE_def)

function readi_loop :: "nat \<Rightarrow> nat \<Rightarrow> nat \<Rightarrow> fs \<Rightarrow> (byte list \<times> fs) res" where
  "readi_loop i off n s =
     (if n = 0 then Ok ([], s)
      else bind_res (bmap i (off div BSIZE) s) (\<lambda>(a, s1).
           bind_res (rd_blk (i_dev (fs_ic s ! i)) a s1) (\<lambda>d.
           let m = step_len off n
           in bind_res (readi_loop i (off + m) (n - m) s1) (\<lambda>(ds, s2).
              Ok (take m (drop (off mod BSIZE) d) @ ds, s2)))))"
  by pat_completeness auto
termination
  by (relation "measure (\<lambda>(i, off, n, s). n)") (auto simp: diff_less)

declare readi_loop.simps [simp del]

definition no_dev :: "inode \<Rightarrow> fs \<Rightarrow> bool" where
  "no_dev ip s = (sint (i_major ip) < 0 \<or> sint (i_major ip) \<ge> NDEV \<or> nat (sint (i_major ip)) \<notin> fs_devs s)"

definition readi :: "nat \<Rightarrow> uint \<Rightarrow> uint \<Rightarrow> fs \<Rightarrow> (rw \<times> fs) res" where
  "readi i off n s =
     (let ip = fs_ic s ! i
      in if i_type ip = T_DEV
         then Ok (if no_dev ip s then Done (-1) [] else Dev (nat (sint (i_major ip))), s)
         else if off > i_size ip \<or> off + n < off then Ok (Done (-1) [], s)
         else let n' = (if off + n > i_size ip then i_size ip - off else n)
              in bind_res (readi_loop i (unat off) (unat n') s) (\<lambda>(ds, s1). Ok (Done (sint n') ds, s1)))"

function writei_loop :: "nat \<Rightarrow> byte list \<Rightarrow> nat \<Rightarrow> fs \<Rightarrow> fs res" where
  "writei_loop i src off s =
     (if src = [] then Ok s
      else bind_res (bmap i (off div BSIZE) s) (\<lambda>(a, s1).
           let m = step_len off (length src)
           in bind_res (up_blk (i_dev (fs_ic s ! i)) a (\<lambda>d. overlay d (off mod BSIZE) (take m src)) s1) (\<lambda>s2.
              writei_loop i (drop m src) (off + m) s2)))"
  by pat_completeness auto
termination
  by (relation "measure (\<lambda>(i, src, off, s). length src)") (auto simp: diff_less)

declare writei_loop.simps [simp del]

text \<open>\<open>src\<close> are the \<open>n\<close> bytes at the source address.\<close>

definition writei :: "nat \<Rightarrow> byte list \<Rightarrow> uint \<Rightarrow> uint \<Rightarrow> fs \<Rightarrow> (rw \<times> fs) res" where
  "writei i src off n s =
     (let ip = fs_ic s ! i
      in if i_type ip = T_DEV
         then Ok (if no_dev ip s then Done (-1) [] else Dev (nat (sint (i_major ip))), s)
         else if off > i_size ip \<or> off + n < off then Ok (Done (-1) [], s)
         else if unat (off + n) > MAXFILE * BSIZE then Ok (Done (-1) [], s)
         else bind_res (writei_loop i (take (unat n) src) (unat off) s) (\<lambda>s1.
              if n > 0 \<and> off + n > i_size (fs_ic s1 ! i)
              then bind_res (iupdate i (set_inode i (\<lambda>ip. ip\<lparr>i_size := off + n\<rparr>) s1)) (\<lambda>s2. Ok (Done (sint n) [], s2))
              else Ok (Done (sint n) [], s1)))"

subsection \<open>Directories and paths\<close>

definition namecmp :: "byte list \<Rightarrow> byte list \<Rightarrow> int option" where
  "namecmp s t = strncmp s t DIRSIZ"

function dirlookup_from :: "nat \<Rightarrow> byte list \<Rightarrow> nat \<Rightarrow> fs \<Rightarrow> ((nat \<times> uint) option \<times> fs) res" where
  "dirlookup_from i nm off s =
     (if off \<ge> unat (i_size (fs_ic s ! i)) \<or> off \<ge> 4294967296 then Ok (None, s)
      else bind_res (readi i (word_of_nat off) (word_of_nat DIRENT) s) (\<lambda>(r, s1).
           case r of
             Done k de \<Rightarrow>
               if k \<noteq> int DIRENT then Panic ''dirlookup read''
               else if get16 de 0 = 0 then dirlookup_from i nm (off + DIRENT) s1
               else (case namecmp nm (drop 2 de) of
                       None \<Rightarrow> Fault
                     | Some c \<Rightarrow>
                         if c = 0
                         then bind_res (iget (i_dev (fs_ic s1 ! i)) (ucast (get16 de 0)) s1) (\<lambda>(j, s2).
                              Ok (Some (j, word_of_nat off), s2))
                         else dirlookup_from i nm (off + DIRENT) s1)
           | Dev m \<Rightarrow> Panic ''dirlookup read''))"
  by pat_completeness auto
termination
  by (relation "measure (\<lambda>(i, nm, off, s). 4294967296 - off)") (auto simp: DIRENT_def)

declare dirlookup_from.simps [simp del]

definition dirlookup :: "nat \<Rightarrow> byte list \<Rightarrow> fs \<Rightarrow> ((nat \<times> uint) option \<times> fs) res" where
  "dirlookup i nm s =
     (if i_type (fs_ic s ! i) \<noteq> T_DIR then Panic ''dirlookup not DIR'' else dirlookup_from i nm 0 s)"

function empty_from :: "nat \<Rightarrow> nat \<Rightarrow> fs \<Rightarrow> (nat \<times> fs) res" where
  "empty_from i off s =
     (if off \<ge> unat (i_size (fs_ic s ! i)) \<or> off \<ge> 4294967296 then Ok (off, s)
      else bind_res (readi i (word_of_nat off) (word_of_nat DIRENT) s) (\<lambda>(r, s1).
           case r of
             Done k de \<Rightarrow>
               if k \<noteq> int DIRENT then Panic ''dirlink read''
               else if get16 de 0 = 0 then Ok (off, s1)
               else empty_from i (off + DIRENT) s1
           | Dev m \<Rightarrow> Panic ''dirlink read''))"
  by pat_completeness auto
termination
  by (relation "measure (\<lambda>(i, off, s). 4294967296 - off)") (auto simp: DIRENT_def)

declare empty_from.simps [simp del]

text \<open>\<open>de\<close> is the uninitialised local variable; \<^verbatim>\<open>strncpy\<close> fills all of its name.\<close>

definition dirlink :: "nat \<Rightarrow> byte list \<Rightarrow> uint \<Rightarrow> fs \<Rightarrow> (int \<times> fs) res" where
  "dirlink i nm inum s =
     bind_res (dirlookup i nm s) (\<lambda>(r, s1).
     case r of
       Some (j, off) \<Rightarrow> bind_res (iput j s1) (\<lambda>s2. Ok (-1, s2))
     | None \<Rightarrow>
         bind_res (empty_from i 0 s1) (\<lambda>(off, s2).
         case strncpy (replicate DIRSIZ 0) nm (int DIRSIZ) of
           None \<Rightarrow> Fault
         | Some name \<Rightarrow>
             bind_res (writei i (bytes16 (ucast inum) @ name) (word_of_nat off) (word_of_nat DIRENT) s2) (\<lambda>(r, s3).
             case r of
               Done k _ \<Rightarrow> if k \<noteq> int DIRENT then Panic ''dirlink'' else Ok (0, s3)
             | Dev m \<Rightarrow> Panic ''dirlink'')))"

text \<open>A path is the bytes before its NUL; \<open>nm\<close> is the caller's buffer of \<open>DIRSIZ\<close> bytes.\<close>

definition skipelem :: "byte list \<Rightarrow> byte list \<Rightarrow> (byte list \<times> byte list) option" where
  "skipelem path nm =
     (let p = dropWhile (\<lambda>c. c = 47) path
      in if p = [] then None
         else let e = takeWhile (\<lambda>c. c \<noteq> 47) p; rest = dropWhile (\<lambda>c. c \<noteq> 47) p
              in Some (dropWhile (\<lambda>c. c = 47) rest,
                       if length e \<ge> DIRSIZ then overlay nm 0 (take DIRSIZ e) else overlay nm 0 (e @ [0])))"

lemma skipelem_shorter: "skipelem path nm = Some (path', nm') \<Longrightarrow> length path' < length path"
proof -
  assume h: "skipelem path nm = Some (path', nm')"
  let ?p = "dropWhile (\<lambda>c. c = 47) path"
  let ?r = "dropWhile (\<lambda>c. c \<noteq> 47) ?p"
  have p: "?p \<noteq> []" "path' = dropWhile (\<lambda>c. c = 47) ?r" using h by (auto simp: skipelem_def Let_def split: if_splits)
  have "hd ?p \<noteq> 47" using hd_dropWhile [OF p(1)] .
  then have "length ?r < length ?p" using p(1) length_dropWhile_le [of _ "tl ?p"] by (cases ?p) (auto simp: less_Suc_eq_le)
  then show ?thesis using length_dropWhile_le [of "\<lambda>c. c = 47" ?r] length_dropWhile_le [of "\<lambda>c. c = 47" path]
    unfolding p(2) by linarith
qed

function namex_from :: "nat \<Rightarrow> byte list \<Rightarrow> bool \<Rightarrow> byte list \<Rightarrow> fs \<Rightarrow> ((nat \<times> byte list) option \<times> fs) res" where
  "namex_from i path parent nm s =
     (case skipelem path nm of
        None \<Rightarrow>
          if parent then bind_res (iput i s) (\<lambda>s1. Ok (None, s1)) else Ok (Some (i, nm), s)
      | Some (path', nm') \<Rightarrow>
          bind_res (ilock (Some i) s) (\<lambda>s1.
          if i_type (fs_ic s1 ! i) \<noteq> T_DIR then bind_res (iunlockput i s1) (\<lambda>s2. Ok (None, s2))
          else if parent \<and> path' = [] then bind_res (iunlock (Some i) s1) (\<lambda>s2. Ok (Some (i, nm'), s2))
          else bind_res (dirlookup i nm' s1) (\<lambda>(r, s2).
               case r of
                 None \<Rightarrow> bind_res (iunlockput i s2) (\<lambda>s3. Ok (None, s3))
               | Some (j, off) \<Rightarrow> bind_res (iunlockput i s2) (\<lambda>s3. namex_from j path' parent nm' s3))))"
  by pat_completeness auto
termination
  by (relation "measure (\<lambda>(i, path, parent, nm, s). length path)") (auto dest: skipelem_shorter)

declare namex_from.simps [simp del]

definition namex :: "nat \<Rightarrow> byte list \<Rightarrow> bool \<Rightarrow> byte list \<Rightarrow> fs \<Rightarrow> ((nat \<times> byte list) option \<times> fs) res" where
  "namex cwd path parent nm s =
     bind_res (if path \<noteq> [] \<and> hd path = 47 then iget ROOTDEV ROOTINO s else Ok (cwd, idup cwd s)) (\<lambda>(i, s1).
     namex_from i path parent nm s1)"

definition namei :: "nat \<Rightarrow> byte list \<Rightarrow> fs \<Rightarrow> (nat option \<times> fs) res" where
  "namei cwd path s =
     bind_res (namex cwd path False (replicate DIRSIZ 0) s) (\<lambda>(r, s1). Ok (map_option fst r, s1))"

definition nameiparent :: "nat \<Rightarrow> byte list \<Rightarrow> byte list \<Rightarrow> fs \<Rightarrow> ((nat \<times> byte list) option \<times> fs) res" where
  "nameiparent cwd path nm s = namex cwd path True nm s"

end
