(* ===== verification/Fs_Blocks.thy ===== *)
theory Fs_Blocks
  imports Fs
begin

text \<open>
  The block allocator of fs.c: \<^verbatim>\<open>balloc\<close> and \<^verbatim>\<open>bfree\<close> against the free map, for a disk with the layout of fs.h.
\<close>

section \<open>The free map\<close>

lemma bit_at_bit: "bit_at d bi = bit (d ! (bi div 8)) (bi mod 8)"
  by (simp add: bit_at_def bit_iff_and_push_bit_not_eq_0)

lemma bit_at_set:
  assumes "bi div 8 < length d"
  shows "bit_at (set_bit_at d bi) bj \<longleftrightarrow> bit_at d bj \<or> bj = bi" "length (set_bit_at d bi) = length d"
proof -
  have "bj mod 8 = bi mod 8 \<Longrightarrow> bj div 8 = bi div 8 \<Longrightarrow> bj = bi" by (metis div_mult_mod_eq)
  moreover have "bit (push_bit (bi mod 8) 1 :: byte) (bj mod 8) = (bj mod 8 = bi mod 8)"
    by (auto simp: bit_simps bit_1_iff)
  ultimately show "bit_at (set_bit_at d bi) bj \<longleftrightarrow> bit_at d bj \<or> bj = bi"
    using assms by (auto simp: bit_at_bit set_bit_at_def nth_list_update bit_or_iff)
qed (simp add: set_bit_at_def)

lemma bit_at_clear:
  assumes "bi div 8 < length d"
  shows "bit_at (clear_bit_at d bi) bj \<longleftrightarrow> bit_at d bj \<and> bj \<noteq> bi" "length (clear_bit_at d bi) = length d"
proof -
  have "bj mod 8 = bi mod 8 \<Longrightarrow> bj div 8 = bi div 8 \<Longrightarrow> bj = bi" by (metis div_mult_mod_eq)
  moreover have "bit (NOT (push_bit (bi mod 8) 1) :: byte) (bj mod 8) = (bj mod 8 \<noteq> bi mod 8)"
    by (auto simp: bit_simps bit_1_iff)
  ultimately show "bit_at (clear_bit_at d bi) bj \<longleftrightarrow> bit_at d bj \<and> bj \<noteq> bi"
    using assms by (auto simp: bit_at_bit clear_bit_at_def nth_list_update bit_and_iff)
qed (simp add: clear_bit_at_def)

text \<open>
  The layout of a disk: the number of blocks of the file system, which blocks hold the boot loader, the super block, inodes and the
  free map, and which blocks the free map marks as used.
\<close>

definition nblocks :: "fs \<Rightarrow> nat" where
  "nblocks s = unat (sb_size (fs_sb s))"

definition bitmap_blocks :: "superblock \<Rightarrow> uint set" where
  "bitmap_blocks sb = (\<lambda>k. word_of_nat k + sb_bmapstart sb) ` {..unat (sb_size sb - 1) div BPB}"

definition inode_blocks :: "superblock \<Rightarrow> uint set" where
  "inode_blocks sb = (\<lambda>k. word_of_nat k + sb_inodestart sb) ` {..unat (sb_ninodes sb - 1) div IPB}"

definition meta_blocks :: "superblock \<Rightarrow> uint set" where
  "meta_blocks sb = {0, 1} \<union> inode_blocks sb \<union> bitmap_blocks sb"

definition used :: "fs \<Rightarrow> uint \<Rightarrow> bool" where
  "used s b = bit_at (fs_dk s (BBLOCK b (fs_sb s))) (unat b mod BPB)"

definition layout_ok :: "superblock \<Rightarrow> uint \<Rightarrow> bool" where
  "layout_ok sb dsz \<longleftrightarrow> 0 < sb_size sb \<and> 0 < sb_ninodes sb \<and> sb_size sb \<le> dsz \<and> (\<forall>b \<in> meta_blocks sb. b < sb_size sb)
     \<and> {0, 1} \<inter> (inode_blocks sb \<union> bitmap_blocks sb) = {} \<and> inode_blocks sb \<inter> bitmap_blocks sb = {}"

definition fs_ok :: "fs \<Rightarrow> bool" where
  "fs_ok s \<longleftrightarrow> layout_ok (fs_sb s) (fs_dsz s) \<and> read_sb (fs_dk s 1) = fs_sb s \<and> (\<forall>b < fs_dsz s. length (fs_dk s b) = BSIZE)
     \<and> (\<forall>b \<in> meta_blocks (fs_sb s). used s b)"

lemma word_less_iff: "(a :: uint) < b \<longleftrightarrow> unat a < unat b"
  by (simp add: word_less_nat_alt)

lemma BBLOCK_in: "b < sb_size sb \<Longrightarrow> BBLOCK b sb \<in> bitmap_blocks sb"
proof -
  assume b: "b < sb_size sb"
  then have "b \<le> sb_size sb - 1" using unat_minus_1 [of "sb_size sb"] by (auto simp: word_le_nat_alt word_less_nat_alt)
  then have "unat b div BPB \<le> unat (sb_size sb - 1) div BPB" by (simp add: word_le_nat_alt div_le_mono)
  then show ?thesis unfolding BBLOCK_def bitmap_blocks_def by blast
qed

lemma BBLOCK_inj:
  assumes "BBLOCK b sb = BBLOCK c sb" "unat b mod BPB = unat c mod BPB"
  shows "b = c"
proof -
  have lt: "unat x div BPB < 4294967296" for x :: uint using unat_uint_less [of x] by (simp add: BPB_def BSIZE_def)
  have "(word_of_nat (unat b div BPB) :: uint) = word_of_nat (unat c div BPB)" using assms(1) by (simp add: BBLOCK_def)
  then have "unat (word_of_nat (unat b div BPB) :: uint) = unat (word_of_nat (unat c div BPB) :: uint)" by simp
  then have "unat b div BPB = unat c div BPB" by (simp only: unat_of_nat_small [OF lt])
  then have "unat b = unat c" using assms(2) by (metis div_mult_mod_eq)
  then show ?thesis by (simp add: word_unat_eq_iff)
qed

lemma fs_okD:
  assumes "fs_ok s"
  shows "0 < sb_size (fs_sb s)" "sb_size (fs_sb s) \<le> fs_dsz s" "\<And>b. b \<in> meta_blocks (fs_sb s) \<Longrightarrow> b < sb_size (fs_sb s) \<and> used s b"
    "read_sb (fs_dk s 1) = fs_sb s" "\<And>b. b < fs_dsz s \<Longrightarrow> length (fs_dk s b) = BSIZE" "layout_ok (fs_sb s) (fs_dsz s)"
  using assms by (auto simp: fs_ok_def layout_ok_def)

lemma bitmap_meta: "b < sb_size sb \<Longrightarrow> BBLOCK b sb \<in> meta_blocks sb"
  using BBLOCK_in [of b sb] by (simp add: meta_blocks_def)

text \<open>The state after block \<open>c\<close> has been marked and zeroed.\<close>

definition marked :: "fs \<Rightarrow> uint \<Rightarrow> fs" where
  "marked s c = s\<lparr>fs_dk := (fs_dk s)(BBLOCK c (fs_sb s) := set_bit_at (fs_dk s (BBLOCK c (fs_sb s))) (unat c mod BPB),
     c := replicate BSIZE 0)\<rparr>"

lemma block_of_bit:
  assumes "b + bi < nblocks s" "bi < BPB" "b = j * BPB"
  shows "BBLOCK (word_of_nat (b + bi)) sb = BBLOCK (word_of_nat b) sb" "unat (word_of_nat (b + bi) :: uint) mod BPB = bi"
    "unat (word_of_nat (b + bi) :: uint) = b + bi"
proof -
  have lt: "b + bi < 4294967296" using assms(1) unat_uint_less [of "sb_size (fs_sb s)"] by (simp add: nblocks_def)
  then have u: "unat (word_of_nat (b + bi) :: uint) = b + bi" "unat (word_of_nat b :: uint) = b"
    using unat_of_nat_small [of "b + bi"] unat_of_nat_small [of b] by simp_all
  then show "unat (word_of_nat (b + bi) :: uint) = b + bi" by simp
  have "0 < BPB" by (simp add: BPB_def BSIZE_def)
  then have "(b + bi) div BPB = b div BPB" "(b + bi) mod BPB = bi" using assms(2,3) by simp_all
  then show "BBLOCK (word_of_nat (b + bi)) sb = BBLOCK (word_of_nat b) sb" "unat (word_of_nat (b + bi) :: uint) mod BPB = bi"
    by (simp_all add: BBLOCK_def u del: of_nat_add)
qed

lemma balloc_from_spec:
  assumes ok: "fs_ok s" and N: "nblocks s \<le> b + k * BPB" "0 < k \<Longrightarrow> b + (k - 1) * BPB < nblocks s" and b: "b = j * BPB"
  shows "(\<exists>c. b \<le> unat c \<and> c < sb_size (fs_sb s) \<and> \<not> used s c \<and> (\<forall>e < c. b \<le> unat e \<longrightarrow> used s e) \<and> balloc_from 1 k b s = Ok (c, marked s c))
    \<or> (\<forall>c. b \<le> unat c \<longrightarrow> c < sb_size (fs_sb s) \<longrightarrow> used s c) \<and> balloc_from 1 k b s = Panic ''balloc: out of blocks''"
  using N b
proof (induction k arbitrary: b j)
  case 0
  then show ?case by (auto simp: nblocks_def word_less_nat_alt)
next
  case (Suc k)
  let ?sb = "fs_sb s" and ?B = "BBLOCK (word_of_nat b) (fs_sb s)"
  let ?n = "min BPB (nblocks s - b)"
  have bN: "b < nblocks s" using Suc.prems(2) by simp
  note ofb = block_of_bit [OF _ _ Suc.prems(3), of _ s]
  have ub: "unat (word_of_nat b :: uint) = b" using ofb(3) [of 0] bN by (simp add: BPB_def BSIZE_def)
  have wb: "(word_of_nat b :: uint) < sb_size ?sb" using bN by (simp add: word_less_nat_alt ub nblocks_def)
  have Bm: "?B \<in> meta_blocks ?sb" by (rule bitmap_meta [OF wb])
  have Bd: "?B < fs_dsz s" using fs_okD(2,3) [OF ok] Bm by (metis order_less_le_trans)
  have rd: "rd_blk 1 ?B s = Ok (fs_dk s ?B)" using Bd by (simp add: rd_blk_def)
  have us: "used s (word_of_nat (b + bi)) = bit_at (fs_dk s ?B) bi" if "bi < ?n" for bi
  proof -
    have "b + bi < nblocks s" "bi < BPB" using that by auto
    from ofb [OF this] show ?thesis by (simp add: used_def del: of_nat_add)
  qed
  show ?case
  proof (cases "find_index (\<lambda>bi. \<not> bit_at (fs_dk s ?B) bi) [0..<?n]")
    case None
    then have full: "bit_at (fs_dk s ?B) bi" if "bi < ?n" for bi using that by (auto simp: find_index_None)
    have r: "balloc_from 1 (Suc k) b s = balloc_from 1 k (b + BPB) s" using None rd by (simp add: nblocks_def)
    have seen: "used s c" if c: "b \<le> unat c" "unat c < b + BPB" "c < sb_size ?sb" for c
    proof -
      have i: "unat c - b < ?n" using c by (auto simp: nblocks_def word_less_nat_alt)
      have "word_of_nat (b + (unat c - b)) = c" using c(1) by simp
      then show ?thesis using us [OF i] full [OF i] by simp
    qed
    have IH: "(\<exists>c. b + BPB \<le> unat c \<and> c < sb_size ?sb \<and> \<not> used s c \<and> (\<forall>e < c. b + BPB \<le> unat e \<longrightarrow> used s e) \<and> balloc_from 1 k (b + BPB) s = Ok (c, marked s c))
      \<or> (\<forall>c. b + BPB \<le> unat c \<longrightarrow> c < sb_size ?sb \<longrightarrow> used s c) \<and> balloc_from 1 k (b + BPB) s = Panic ''balloc: out of blocks''"
    proof (rule Suc.IH [of _ "j + 1"])
      show "b + BPB + (k - 1) * BPB < nblocks s" if "0 < k" using Suc.prems(2) that by (cases k) (simp_all add: algebra_simps)
    qed (use Suc.prems in \<open>simp_all add: algebra_simps\<close>)
    then show ?thesis unfolding r using seen by (smt (verit) add_leD1 less_trans not_le_imp_less)
  next
    case (Some bi)
    note F = find_index_SomeD [OF Some]
    have bi: "bi < ?n" "\<not> bit_at (fs_dk s ?B) bi" using F(1,2) by simp_all
    have low: "bit_at (fs_dk s ?B) x" if "x < bi" for x using F(3) [OF that] F(1) that by simp
    let ?c = "word_of_nat (b + bi) :: uint"
    have c: "unat ?c = b + bi" "BBLOCK ?c ?sb = ?B" "unat ?c mod BPB = bi" using ofb [of bi] bi(1) by auto
    have "b + bi < nblocks s" using bi(1) by auto
    then have cs: "?c < sb_size ?sb" by (simp only: word_less_nat_alt c(1) nblocks_def)
    have nu: "\<not> used s ?c" using us [OF bi(1)] bi(2) by simp
    have cd: "?c < fs_dsz s" using cs fs_okD(2) [OF ok] by (rule order_less_le_trans)
    have "balloc_from 1 (Suc k) b s = Ok (?c, marked s ?c)"
      using Some rd Bd cd c(3) [unfolded c(1)]
      by (simp add: up_blk_def rd_blk_def bzero_def marked_def c(1,2) nblocks_def [symmetric] not_le del: of_nat_add)
    moreover have "used s e" if "e < ?c" "b \<le> unat e" for e
    proof -
      have i: "unat e - b < bi" using that c(1) by (simp add: word_less_nat_alt del: of_nat_add)
      have "word_of_nat (b + (unat e - b)) = e" using that(2) by simp
      then show ?thesis using us [of "unat e - b"] low [OF i] i bi(1) by simp
    qed
    ultimately show ?thesis using nu cs c(1) by (intro disjI1 exI [of _ ?c]) simp
  qed
qed

lemma balloc_spec:
  assumes ok: "fs_ok s"
  shows "(\<exists>c. c < sb_size (fs_sb s) \<and> \<not> used s c \<and> (\<forall>e < c. used s e) \<and> balloc 1 s = Ok (c, marked s c))
    \<or> (\<forall>c < sb_size (fs_sb s). used s c) \<and> balloc 1 s = Panic ''balloc: out of blocks''"
proof -
  let ?k = "(nblocks s + BPB - 1) div BPB"
  have p: "0 < BPB" "0 < nblocks s" using fs_okD(1) [OF ok] by (simp_all add: BPB_def BSIZE_def nblocks_def word_less_nat_alt)
  have up: "nblocks s \<le> ?k * BPB"
  proof -
    have "(nblocks s + BPB - 1) mod BPB < BPB" using p(1) by simp
    moreover have "?k * BPB + (nblocks s + BPB - 1) mod BPB = nblocks s + BPB - 1" by simp
    ultimately show ?thesis by linarith
  qed
  moreover have "(?k - 1) * BPB < nblocks s"
  proof -
    have "?k * BPB \<le> nblocks s + BPB - 1" by simp
    moreover have "(?k - 1) * BPB = ?k * BPB - BPB" by (simp add: diff_mult_distrib)
    ultimately show ?thesis using p by linarith
  qed
  ultimately show ?thesis using balloc_from_spec [OF ok, of 0 ?k 0] unfolding balloc_def nblocks_def [symmetric] by simp
qed

text \<open>What marking a free block changes.\<close>

lemma used_below: "fs_ok s \<Longrightarrow> c < sb_size (fs_sb s) \<Longrightarrow> BBLOCK c (fs_sb s) < fs_dsz s"
  using fs_okD(2,3) bitmap_meta by (metis order_less_le_trans)

lemma bit_index: "unat (c :: uint) mod BPB div 8 < BSIZE"
  by (simp add: BPB_def BSIZE_def)

lemma marked_spec:
  assumes ok: "fs_ok s" and c: "c < sb_size (fs_sb s)" "\<not> used s c"
  shows "\<And>e. e < sb_size (fs_sb s) \<Longrightarrow> used (marked s c) e \<longleftrightarrow> used s e \<or> e = c" "fs_dk (marked s c) c = replicate BSIZE 0"
    "\<And>e. e \<noteq> c \<Longrightarrow> e \<notin> bitmap_blocks (fs_sb s) \<Longrightarrow> fs_dk (marked s c) e = fs_dk s e" "c \<notin> meta_blocks (fs_sb s)"
    "fs_sb (marked s c) = fs_sb s" "fs_ic (marked s c) = fs_ic s" "fs_dsz (marked s c) = fs_dsz s" "fs_devs (marked s c) = fs_devs s"
    "fs_ok (marked s c)"
proof -
  let ?sb = "fs_sb s" and ?B = "BBLOCK c (fs_sb s)"
  show cm: "c \<notin> meta_blocks ?sb" using fs_okD(3) [OF ok] c(2) by blast
  have fields: "fs_sb (marked s c) = ?sb" "fs_ic (marked s c) = fs_ic s" "fs_dsz (marked s c) = fs_dsz s" "fs_devs (marked s c) = fs_devs s"
    by (simp_all add: marked_def)
  then show "fs_sb (marked s c) = ?sb" "fs_ic (marked s c) = fs_ic s" "fs_dsz (marked s c) = fs_dsz s" "fs_devs (marked s c) = fs_devs s"
    by simp_all
  show z: "fs_dk (marked s c) c = replicate BSIZE 0" by (simp add: marked_def)
  have Bm: "?B \<in> meta_blocks ?sb" by (rule bitmap_meta [OF c(1)])
  have len: "length (fs_dk s ?B) = BSIZE" using fs_okD(5) [OF ok used_below [OF ok c(1)]] .
  have dk: "fs_dk (marked s c) e = (if e = c then replicate BSIZE 0 else if e = ?B then set_bit_at (fs_dk s ?B) (unat c mod BPB) else fs_dk s e)" for e
    by (simp add: marked_def)
  show u: "used (marked s c) e \<longleftrightarrow> used s e \<or> e = c" if e: "e < sb_size ?sb" for e
  proof -
    have "BBLOCK e ?sb \<noteq> c" using bitmap_meta [OF e] cm by blast
    moreover have "unat e mod BPB = unat c mod BPB \<and> BBLOCK e ?sb = ?B \<longleftrightarrow> e = c" using BBLOCK_inj by blast
    ultimately show ?thesis using bit_at_set(1) [of "unat c mod BPB" "fs_dk s ?B"] len bit_index [of c]
      by (auto simp: used_def fields dk)
  qed
  show o: "fs_dk (marked s c) e = fs_dk s e" if "e \<noteq> c" "e \<notin> bitmap_blocks ?sb" for e
    using that BBLOCK_in [OF c(1)] by (auto simp: dk)
  have "1 \<in> meta_blocks ?sb" "1 \<notin> bitmap_blocks ?sb" using fs_okD(6) [OF ok] by (auto simp: meta_blocks_def layout_ok_def)
  then have "fs_dk (marked s c) 1 = fs_dk s 1" using o cm by metis
  moreover have "length (fs_dk (marked s c) b) = BSIZE" if "b < fs_dsz s" for b
    using fs_okD(5) [OF ok that] len bit_index [of c] by (simp add: dk bit_at_set(2))
  moreover have "used (marked s c) b" if "b \<in> meta_blocks ?sb" for b using u fs_okD(3) [OF ok that] by blast
  ultimately show "fs_ok (marked s c)" using ok by (simp add: fs_ok_def fields)
qed

text \<open>Freeing a block only clears its bit.\<close>

lemma bfree_spec:
  assumes ok: "fs_ok s" and b: "b < sb_size (fs_sb s)"
  shows "\<not> used s b \<Longrightarrow> bfree 1 b s = Panic ''freeing free block''"
    and "used s b \<Longrightarrow> \<exists>s'. bfree 1 b s = Ok s' \<and> (\<forall>e < sb_size (fs_sb s). used s' e \<longleftrightarrow> used s e \<and> e \<noteq> b)
      \<and> (\<forall>e. e \<notin> bitmap_blocks (fs_sb s) \<longrightarrow> fs_dk s' e = fs_dk s e) \<and> fs_sb s' = fs_sb s \<and> fs_ic s' = fs_ic s \<and> fs_dsz s' = fs_dsz s
      \<and> fs_devs s' = fs_devs s \<and> (b \<notin> meta_blocks (fs_sb s) \<longrightarrow> fs_ok s')"
proof -
  let ?sb = "fs_sb s" and ?B = "BBLOCK b (fs_sb s)"
  have "1 \<in> meta_blocks ?sb" by (simp add: meta_blocks_def)
  then have "1 < fs_dsz s" using fs_okD(2,3) [OF ok] by (metis order_less_le_trans)
  then have rs: "readsb 1 s = Ok ?sb" using fs_okD(4) [OF ok] by (simp add: readsb_def rd_blk_def)
  have e: "s\<lparr>fs_sb := ?sb\<rparr> = s" by simp
  have Bd: "?B < fs_dsz s" by (rule used_below [OF ok b])
  have len: "length (fs_dk s ?B) = BSIZE" using fs_okD(5) [OF ok Bd] .
  show "bfree 1 b s = Panic ''freeing free block''" if "\<not> used s b"
    using that Bd by (simp add: bfree_def rs Let_def rd_blk_def used_def)
  assume us: "used s b"
  define s' where "s' = s\<lparr>fs_dk := (fs_dk s)(?B := clear_bit_at (fs_dk s ?B) (unat b mod BPB))\<rparr>"
  have r: "bfree 1 b s = Ok s'" using us Bd by (simp add: bfree_def rs Let_def rd_blk_def up_blk_def used_def s'_def)
  have f: "fs_sb s' = ?sb" "fs_ic s' = fs_ic s" "fs_dsz s' = fs_dsz s" "fs_devs s' = fs_devs s" by (simp_all add: s'_def)
  have dk: "fs_dk s' e = (if e = ?B then clear_bit_at (fs_dk s ?B) (unat b mod BPB) else fs_dk s e)" for e by (simp add: s'_def)
  have u: "used s' e \<longleftrightarrow> used s e \<and> e \<noteq> b" for e
  proof -
    have "unat e mod BPB = unat b mod BPB \<and> BBLOCK e ?sb = ?B \<longleftrightarrow> e = b" using BBLOCK_inj by blast
    then show ?thesis using bit_at_clear(1) [of "unat b mod BPB" "fs_dk s ?B"] len bit_index [of b] by (auto simp: used_def f dk)
  qed
  have o: "fs_dk s' e = fs_dk s e" if "e \<notin> bitmap_blocks ?sb" for e using that BBLOCK_in [OF b] by (auto simp: dk)
  have "1 \<notin> bitmap_blocks ?sb" using fs_okD(6) [OF ok] by (auto simp: layout_ok_def)
  then have "fs_dk s' 1 = fs_dk s 1" by (rule o)
  moreover have "length (fs_dk s' c) = BSIZE" if "c < fs_dsz s" for c
    using fs_okD(5) [OF ok that] len bit_index [of b] by (simp add: dk bit_at_clear(2))
  moreover have "used s' c" if "c \<in> meta_blocks ?sb" "b \<notin> meta_blocks ?sb" for c using u fs_okD(3) [OF ok that(1)] that by blast
  ultimately have "b \<notin> meta_blocks ?sb \<longrightarrow> fs_ok s'" using ok by (simp add: fs_ok_def f)
  then show "\<exists>s'. bfree 1 b s = Ok s' \<and> (\<forall>e < sb_size (fs_sb s). used s' e \<longleftrightarrow> used s e \<and> e \<noteq> b)
      \<and> (\<forall>e. e \<notin> bitmap_blocks (fs_sb s) \<longrightarrow> fs_dk s' e = fs_dk s e) \<and> fs_sb s' = fs_sb s \<and> fs_ic s' = fs_ic s \<and> fs_dsz s' = fs_dsz s
      \<and> fs_devs s' = fs_devs s \<and> (b \<notin> meta_blocks (fs_sb s) \<longrightarrow> fs_ok s')"
    using r u o f by (intro exI [of _ s']) simp
qed

section \<open>Properties\<close>

text \<open>C29: \<^verbatim>\<open>balloc\<close> hands out the first free block, zeroed, marks it and nothing else as used, and never a block of the boot
  loader, the super block, the inodes or the free map; it panics when every block is used. Freeing the block restores the free map.\<close>

theorem balloc_correct:
  assumes "fs_ok s"
  shows "if \<forall>c < sb_size (fs_sb s). used s c then balloc 1 s = Panic ''balloc: out of blocks''
    else \<exists>c s' s''. balloc 1 s = Ok (c, s') \<and> c < sb_size (fs_sb s) \<and> \<not> used s c \<and> (\<forall>e < c. used s e) \<and> c \<notin> meta_blocks (fs_sb s)
      \<and> fs_dk s' c = replicate BSIZE 0 \<and> (\<forall>e < sb_size (fs_sb s). used s' e \<longleftrightarrow> used s e \<or> e = c)
      \<and> (\<forall>e. e \<noteq> c \<and> e \<notin> bitmap_blocks (fs_sb s) \<longrightarrow> fs_dk s' e = fs_dk s e) \<and> fs_ok s'
      \<and> bfree 1 c s' = Ok s'' \<and> fs_ok s'' \<and> (\<forall>e < sb_size (fs_sb s). used s'' e = used s e)"
proof (cases "\<forall>c < sb_size (fs_sb s). used s c")
  case False
  then obtain c where c: "c < sb_size (fs_sb s)" "\<not> used s c" "\<forall>e < c. used s e" "balloc 1 s = Ok (c, marked s c)"
    using balloc_spec [OF assms] by blast
  note M = marked_spec [OF assms c(1,2)]
  have "used (marked s c) c" using M(1) [OF c(1)] by simp
  from bfree_spec(2) [OF M(9), of c, unfolded M(5), OF c(1) this] obtain s'' where
    "bfree 1 c (marked s c) = Ok s''" "fs_ok s''" "\<forall>e < sb_size (fs_sb s). used s'' e \<longleftrightarrow> used (marked s c) e \<and> e \<noteq> c"
    using M(4) by auto
  then show ?thesis using False c M by (auto intro!: exI [of _ c] exI [of _ "marked s c"] exI [of _ s''])
qed (use balloc_spec [OF assms] in auto)

text \<open>A disk of ten blocks: one block of inodes and one of free map, six data blocks.\<close>

definition small_sb :: superblock where
  "small_sb = \<lparr>sb_size = 10, sb_nblocks = 6, sb_ninodes = 8, sb_nlog = 0, sb_logstart = 2, sb_inodestart = 2, sb_bmapstart = 3\<rparr>"

definition small_disk :: "uint \<Rightarrow> blk" where
  "small_disk b = (if b = 1 then put_words (replicate BSIZE 0) 0 [10, 6, 8, 0, 2, 2, 3]
     else if b = 3 then 15 # replicate 511 0 else replicate BSIZE 0)"

definition small_fs :: fs where
  "small_fs = \<lparr>fs_sb = small_sb, fs_ic = [], fs_dk = small_disk, fs_dsz = 10, fs_devs = {}\<rparr>"

lemma small_meta: "meta_blocks small_sb = {0, 1, 2, 3}" "bitmap_blocks small_sb = {3}" "inode_blocks small_sb = {2}"
  by (auto simp: meta_blocks_def bitmap_blocks_def inode_blocks_def small_sb_def BPB_def IPB_def DINODE_def BSIZE_def)

lemma small_bits: "b < 10 \<Longrightarrow> used small_fs b = (b < 4)"
proof -
  assume b: "b < 10"
  have "b \<in> {0, 1, 2, 3, 4, 5, 6, 7, 8, 9}"
  proof -
    have "unat b < 10" using b by (simp add: word_less_nat_alt)
    then have "unat b \<in> {0, 1, 2, 3, 4, 5, 6, 7, 8, 9}" by auto
    then show ?thesis by (auto simp: word_unat_eq_iff)
  qed
  then show ?thesis
    by (auto simp: used_def small_fs_def BBLOCK_def small_sb_def bit_at_def small_disk_def BPB_def BSIZE_def)
qed

lemma small_fs_ok: "fs_ok small_fs"
proof -
  have "layout_ok small_sb 10" unfolding layout_ok_def small_meta by (auto simp: small_sb_def)
  moreover have "read_sb (small_disk 1) = small_sb"
    by (simp add: read_sb_def small_sb_def small_disk_def BSIZE_def get_put_words_before block_simps)
  moreover have "length (small_disk b) = BSIZE" for b by (simp add: small_disk_def BSIZE_def)
  moreover have "used small_fs b" if "b \<in> meta_blocks small_sb" for b using that small_bits [of b] unfolding small_meta by auto
  ultimately show ?thesis by (simp add: fs_ok_def small_fs_def)
qed

theorem balloc_correct_witness:
  "fs_ok small_fs \<and> (\<exists>c s'. balloc 1 small_fs = Ok (c, s') \<and> c < 10 \<and> \<not> used small_fs c \<and> fs_dk s' c = replicate BSIZE 0)"
proof -
  have n: "\<not> (\<forall>c < sb_size (fs_sb small_fs). used small_fs c)"
    using small_bits [of 5] by (auto simp: small_fs_def small_sb_def intro!: exI [of _ 5])
  have "sb_size (fs_sb small_fs) = 10" by (simp add: small_fs_def small_sb_def)
  then show ?thesis using balloc_correct [OF small_fs_ok, unfolded if_not_P [OF n]] small_fs_ok by auto
qed

end
