(* ===== verification/Fs_Files.thy ===== *)
theory Fs_Files
  imports Fs_Blocks
begin

text \<open>
  Inodes and file contents: the disk format of an inode, and \<^verbatim>\<open>bmap\<close>, \<^verbatim>\<open>readi\<close> and \<^verbatim>\<open>writei\<close> against a file as a sequence of
  bytes.
\<close>

section \<open>The disk format of inodes\<close>

lemma nth_put:
  "i + 2 \<le> length bs \<Longrightarrow> j < i \<or> i + 2 \<le> j \<Longrightarrow> j < length bs \<Longrightarrow> put16 bs i v ! j = bs ! j"
  "i + 4 \<le> length bs \<Longrightarrow> j < i \<or> i + 4 \<le> j \<Longrightarrow> j < length bs \<Longrightarrow> put32 bs i w ! j = bs ! j"
  by (auto simp: put16_def put32_def nth_overlay)

lemma nth_put_words:
  "i + 4 * length ws \<le> length bs \<Longrightarrow> j < i \<or> i + 4 * length ws \<le> j \<Longrightarrow> j < length bs \<Longrightarrow> put_words bs i ws ! j = bs ! j"
  by (induction ws arbitrary: bs i) (auto simp: nth_put)

lemma length_write_dinode:
  "off + DINODE \<le> length d \<Longrightarrow> length (i_addrs ip) = NDIRECT + 1 \<Longrightarrow> length (write_dinode ip off d) = length d"
  by (simp add: write_dinode_def DINODE_def NDIRECT_def)

lemma nth_write_dinode:
  assumes "off + DINODE \<le> length d" "length (i_addrs ip) = NDIRECT + 1" "j < off \<or> off + DINODE \<le> j" "j < length d"
  shows "write_dinode ip off d ! j = d ! j"
  using assms by (auto simp: write_dinode_def DINODE_def NDIRECT_def nth_put nth_put_words)

lemma get_put16_words:
  "i + 4 * length ws \<le> length bs \<Longrightarrow> j + 2 \<le> i \<Longrightarrow> get16 (put_words bs i ws) j = get16 bs j"
  by (simp add: get16_def nth_put_words)

lemma read_write_dinode:
  assumes "off + DINODE \<le> length d" "length (i_addrs ip) = NDIRECT + 1"
  shows "read_dinode (write_dinode ip off d) off ip0
    = ip0\<lparr>i_type := i_type ip, i_major := i_major ip, i_minor := i_minor ip, i_nlink := i_nlink ip, i_size := i_size ip, i_addrs := i_addrs ip\<rparr>"
proof -
  have len: "off + 64 \<le> length d" "length (i_addrs ip) = 13" using assms by (simp_all add: DINODE_def NDIRECT_def)
  have "get_words (write_dinode ip off d) (off + 12) (length (i_addrs ip)) = i_addrs ip"
    unfolding write_dinode_def by (rule get_words_put_words) (use len in simp)
  then show ?thesis using len unfolding read_dinode_def NDIRECT_def
    by (simp add: write_dinode_def get_put16_words get_put_words_before get_put_other)
qed

section \<open>The blocks of a file\<close>

text \<open>
  The places where an inode keeps block numbers: 0 to 11 the direct blocks, 12 the indirect block, from 13 on the entries of the
  indirect block. 0 means no block.
\<close>

definition SLOTS :: nat where "SLOTS = MAXFILE + 1"

definition slot :: "fs \<Rightarrow> inode \<Rightarrow> nat \<Rightarrow> uint" where
  "slot s ip k = (if k \<le> NDIRECT then i_addrs ip ! k
     else if i_addrs ip ! NDIRECT = 0 then 0 else get32 (fs_dk s (i_addrs ip ! NDIRECT)) (4 * (k - NDIRECT - 1)))"

definition slot_of :: "nat \<Rightarrow> nat" where
  "slot_of bn = (if bn < NDIRECT then bn else bn + 1)"

definition fblock :: "fs \<Rightarrow> inode \<Rightarrow> nat \<Rightarrow> uint" where
  "fblock s ip bn = slot s ip (slot_of bn)"

definition file_ok :: "fs \<Rightarrow> inode \<Rightarrow> bool" where
  "file_ok s ip \<longleftrightarrow> i_dev ip = 1 \<and> length (i_addrs ip) = NDIRECT + 1
     \<and> (\<forall>k < SLOTS. slot s ip k \<noteq> 0 \<longrightarrow> slot s ip k < sb_size (fs_sb s) \<and> used s (slot s ip k) \<and> slot s ip k \<notin> meta_blocks (fs_sb s))
     \<and> (\<forall>k < SLOTS. \<forall>j < SLOTS. slot s ip k \<noteq> 0 \<longrightarrow> slot s ip k = slot s ip j \<longrightarrow> k = j)"

definition owned :: "fs \<Rightarrow> inode \<Rightarrow> uint set" where
  "owned s ip = slot s ip ` {..<SLOTS} - {0}"

lemma file_okD:
  assumes "file_ok s ip"
  shows "i_dev ip = 1" "length (i_addrs ip) = NDIRECT + 1"
    "\<And>k. k < SLOTS \<Longrightarrow> slot s ip k \<noteq> 0 \<Longrightarrow> slot s ip k < sb_size (fs_sb s) \<and> used s (slot s ip k) \<and> slot s ip k \<notin> meta_blocks (fs_sb s)"
    "\<And>k j. k < SLOTS \<Longrightarrow> j < SLOTS \<Longrightarrow> slot s ip k \<noteq> 0 \<Longrightarrow> slot s ip k = slot s ip j \<Longrightarrow> k = j"
  using assms by (auto simp: file_ok_def)

lemma ownedE: "b \<in> owned s ip \<Longrightarrow> (\<And>k. k < SLOTS \<Longrightarrow> b = slot s ip k \<Longrightarrow> b \<noteq> 0 \<Longrightarrow> P) \<Longrightarrow> P"
  by (auto simp: owned_def)

lemma slot_nums: "NDIRECT < SLOTS" "SLOTS = 141" "NDIRECT = 12" "MAXFILE = 140" "NINDIRECT = 128"
  by (simp_all add: SLOTS_def MAXFILE_def NDIRECT_def NINDIRECT_def BSIZE_def)

lemma slot_of_less: "bn < MAXFILE \<Longrightarrow> slot_of bn < SLOTS"
  by (simp add: slot_of_def SLOTS_def)

lemma slot_of_inj: "slot_of a = slot_of b \<longleftrightarrow> a = b" "slot_of a \<noteq> NDIRECT"
  by (auto simp: slot_of_def split: if_splits)

text \<open>
  One block \<open>c\<close> is added to the file in slot \<open>k\<close>: the relation between the states before and after. Blocks of other files keep their
  contents.
\<close>

definition added :: "fs \<Rightarrow> nat \<Rightarrow> nat \<Rightarrow> uint \<Rightarrow> fs \<Rightarrow> bool" where
  "added s i k c s' \<longleftrightarrow> (let ip = fs_ic s ! i; ip' = fs_ic s' ! i in
     fs_ok s' \<and> file_ok s' ip' \<and> (\<forall>j < SLOTS. slot s' ip' j = (if j = k then c else slot s ip j))
     \<and> c \<noteq> 0 \<and> \<not> used s c \<and> c < sb_size (fs_sb s) \<and> fs_dk s' c = replicate BSIZE 0
     \<and> (\<forall>e < sb_size (fs_sb s). used s' e \<longleftrightarrow> used s e \<or> e = c)
     \<and> (\<forall>b. b \<noteq> c \<longrightarrow> b \<notin> bitmap_blocks (fs_sb s) \<longrightarrow> (b = 0 \<or> b \<noteq> slot s ip NDIRECT) \<longrightarrow> fs_dk s' b = fs_dk s b)
     \<and> fs_sb s' = fs_sb s \<and> fs_dsz s' = fs_dsz s \<and> fs_devs s' = fs_devs s
     \<and> (\<exists>as. length as = NDIRECT + 1 \<and> fs_ic s' = (fs_ic s)[i := ip\<lparr>i_addrs := as\<rparr>]))"

lemma file_ok_added:
  assumes f: "file_ok s ip" and fr: "\<not> used s c" "c < sb_size (fs_sb s)" "c \<notin> meta_blocks (fs_sb s)" and z: "slot s ip k = 0" "k < SLOTS"
    and s': "\<And>j. j < SLOTS \<Longrightarrow> slot s' ip' j = (if j = k then c else slot s ip j)" "fs_sb s' = fs_sb s" "length (i_addrs ip') = NDIRECT + 1" "i_dev ip' = 1"
    and u: "\<And>e. e < sb_size (fs_sb s) \<Longrightarrow> used s' e \<longleftrightarrow> used s e \<or> e = c"
  shows "file_ok s' ip'"
proof -
  note F = file_okD [OF f]
  have nc: "slot s ip j \<noteq> c" if "j < SLOTS" for j
    using F(3) [OF that] fr(1,3) by (auto simp: meta_blocks_def)
  have A: "slot s' ip' j < sb_size (fs_sb s') \<and> used s' (slot s' ip' j) \<and> slot s' ip' j \<notin> meta_blocks (fs_sb s')"
    if j: "j < SLOTS" "slot s' ip' j \<noteq> 0" for j
    using j F(3) [OF j(1)] fr u s'(1) [OF j(1)] s'(2) by (auto split: if_splits)
  have B: "j = m" if j: "j < SLOTS" "m < SLOTS" "slot s' ip' j \<noteq> 0" "slot s' ip' j = slot s' ip' m" for j m
    using j(3,4) s'(1) [OF j(1)] s'(1) [OF j(2)] nc [OF j(1)] nc [OF j(2)] F(4) [OF j(1,2)] by (auto split: if_splits)
  show ?thesis unfolding file_ok_def using s'(3,4) A B by blast
qed

lemma length_list_update_ic [simp]: "length (fs_ic (set_inode i f s)) = length (fs_ic s)"
  by (simp add: set_inode_def)

lemma set_inode_simps [simp]:
  "fs_sb (set_inode i f s) = fs_sb s" "fs_dk (set_inode i f s) = fs_dk s" "fs_dsz (set_inode i f s) = fs_dsz s"
  "fs_devs (set_inode i f s) = fs_devs s" "fs_ic (set_inode i f s) = (fs_ic s)[i := f (fs_ic s ! i)]"
  "used (set_inode i f s) = used s" "fs_ok (set_inode i f s) = fs_ok s" "slot (set_inode i f s) = slot s"
  by (auto simp: set_inode_def used_def fs_ok_def slot_def fun_eq_iff)

lemma add_direct:
  assumes ok: "fs_ok s" and i: "i < length (fs_ic s)" and f: "file_ok s (fs_ic s ! i)" and k: "k \<le> NDIRECT" "slot s (fs_ic s ! i) k = 0"
    and c: "\<not> used s c" "c < sb_size (fs_sb s)"
  shows "added s i k c (set_inode i (\<lambda>ip. ip\<lparr>i_addrs := (i_addrs ip)[k := c]\<rparr>) (marked s c))"
proof -
  note M = marked_spec [OF ok c(2,1)] and F = file_okD [OF f]
  let ?ip = "fs_ic s ! i"
  let ?s = "set_inode i (\<lambda>ip. ip\<lparr>i_addrs := (i_addrs ip)[k := c]\<rparr>) (marked s c)"
  let ?ip' = "?ip\<lparr>i_addrs := (i_addrs ?ip)[k := c]\<rparr>"
  have ic: "fs_ic ?s = (fs_ic s)[i := ?ip']" by (simp add: M(6))
  have ip': "fs_ic ?s ! i = ?ip'" unfolding ic using i by simp
  have k': "k < SLOTS" using k(1) slot_nums by simp
  have c0: "c \<noteq> 0" using M(4) by (auto simp: meta_blocks_def)
  have ind: "fs_dk (marked s c) (i_addrs ?ip ! NDIRECT) = fs_dk s (i_addrs ?ip ! NDIRECT)" if "i_addrs ?ip ! NDIRECT \<noteq> 0"
  proof -
    have a: "slot s ?ip NDIRECT = i_addrs ?ip ! NDIRECT" by (simp add: slot_def)
    have "i_addrs ?ip ! NDIRECT \<noteq> c" "i_addrs ?ip ! NDIRECT \<notin> meta_blocks (fs_sb s)"
      using F(3) [OF slot_nums(1)] that c(1) unfolding a by auto
    then show ?thesis using M(3) by (simp add: meta_blocks_def)
  qed
  have sl: "slot ?s (fs_ic ?s ! i) j = (if j = k then c else slot s ?ip j)" if j: "j < SLOTS" for j
  proof (cases "j \<le> NDIRECT")
    case True
    then show ?thesis using k(1) F(2) unfolding ip' by (simp add: slot_def nth_list_update)
  next
    case False
    have e: "get32 (replicate BSIZE 0) (4 * (j - Suc NDIRECT)) = 0"
      using j False slot_nums by (simp add: get32_def BSIZE_def)
    show ?thesis
    proof (cases "k = NDIRECT")
      case True
      then show ?thesis using False k(2) c0 M(2) F(2) e unfolding ip' by (simp add: slot_def)
    next
      case kn: False
      then show ?thesis using False k(1) ind F(2) unfolding ip' by (auto simp: slot_def)
    qed
  qed
  have fo: "file_ok ?s (fs_ic ?s ! i)"
    by (rule file_ok_added [OF f c M(4) k(2) k' sl]) (use M(1,5) F(1,2) ip' in simp_all)
  have "\<forall>b. b \<noteq> c \<longrightarrow> b \<notin> bitmap_blocks (fs_sb s) \<longrightarrow> (b = 0 \<or> b \<noteq> slot s ?ip NDIRECT) \<longrightarrow> fs_dk ?s b = fs_dk s b" using M(3) by simp
  moreover have "length ((i_addrs ?ip)[k := c]) = NDIRECT + 1" using F(2) by simp
  ultimately show ?thesis unfolding added_def Let_def
    using fo sl c c0 M ic by (intro conjI exI [of _ "(i_addrs ?ip)[k := c]"]; (assumption | simp))
qed

lemma put32_get32:
  assumes "4 * j + 4 \<le> length d" "4 * m + 4 \<le> length d"
  shows "get32 (put32 d (4 * j) v) (4 * m) = (if m = j then v else get32 d (4 * m))"
proof (cases "m = j")
  case False
  then have "4 * m + 4 \<le> 4 * j \<or> 4 * j + 4 \<le> 4 * m" by linarith
  then show ?thesis using assms False by (auto simp: get32_def nth_put)
qed (use assms in simp)

lemma add_indirect:
  assumes ok: "fs_ok s" and i: "i < length (fs_ic s)" and f: "file_ok s (fs_ic s ! i)" and k: "NDIRECT < k" "k < SLOTS"
    and a: "slot s (fs_ic s ! i) NDIRECT \<noteq> 0" "slot s (fs_ic s ! i) k = 0"
    and c: "\<not> used s c" "c < sb_size (fs_sb s)"
  shows "\<exists>s'. up_blk 1 (slot s (fs_ic s ! i) NDIRECT) (\<lambda>d. put32 d (4 * (k - NDIRECT - 1)) c) (marked s c) = Ok s' \<and> added s i k c s'"
proof -
  note M = marked_spec [OF ok c(2,1)] and F = file_okD [OF f]
  let ?ip = "fs_ic s ! i" and ?a = "slot s (fs_ic s ! i) NDIRECT" and ?m = "marked s c"
  define s' where "s' = ?m\<lparr>fs_dk := (fs_dk ?m)(?a := put32 (fs_dk s ?a) (4 * (k - NDIRECT - 1)) c)\<rparr>"
  have A: "?a < sb_size (fs_sb s)" "used s ?a" "?a \<notin> meta_blocks (fs_sb s)" using F(3) [OF slot_nums(1) a(1)] by auto
  then have Ad: "?a < fs_dsz s" using fs_okD(2) [OF ok] by (metis order_less_le_trans)
  have ac: "?a \<noteq> c" using A(2) c(1) by auto
  have nb: "?a \<notin> bitmap_blocks (fs_sb s)" using A(3) by (simp add: meta_blocks_def)
  have da: "fs_dk ?m ?a = fs_dk s ?a" by (rule M(3) [OF ac nb])
  have len: "length (fs_dk s ?a) = BSIZE" by (rule fs_okD(5) [OF ok Ad])
  have up: "up_blk 1 ?a (\<lambda>d. put32 d (4 * (k - NDIRECT - 1)) c) ?m = Ok s'"
    using Ad by (simp add: up_blk_def rd_blk_def M(7) not_le s'_def da)
  have f': "fs_sb s' = fs_sb s" "fs_ic s' = fs_ic s" "fs_dsz s' = fs_dsz s" "fs_devs s' = fs_devs s" by (simp_all add: s'_def M)
  have dk: "fs_dk s' b = (if b = ?a then put32 (fs_dk s ?a) (4 * (k - NDIRECT - 1)) c else fs_dk ?m b)" for b by (simp add: s'_def)
  have c0: "c \<noteq> 0" using M(4) by (auto simp: meta_blocks_def)
  have aa: "?a = i_addrs ?ip ! NDIRECT" by (simp add: slot_def)
  have sl: "slot s' (fs_ic s' ! i) j = (if j = k then c else slot s ?ip j)" if j: "j < SLOTS" for j
  proof (cases "j \<le> NDIRECT")
    case True
    then show ?thesis using k(1) by (simp add: slot_def f')
  next
    case False
    have "get32 (put32 (fs_dk s ?a) (4 * (k - NDIRECT - 1)) c) (4 * (j - NDIRECT - 1)) = (if j = k then c else get32 (fs_dk s ?a) (4 * (j - NDIRECT - 1)))"
      using put32_get32 [of "k - NDIRECT - 1" "fs_dk s ?a" "j - NDIRECT - 1" c] len j k False slot_nums by (auto simp: BSIZE_def)
    then show ?thesis using False a(1) unfolding slot_def f'(2) by (simp add: dk aa [symmetric])
  qed
  have us: "used s' e = used ?m e" if "e < sb_size (fs_sb s)" for e
    using BBLOCK_in [OF that] nb by (auto simp: used_def f' M(5) dk)
  have "1 \<in> meta_blocks (fs_sb s)" by (simp add: meta_blocks_def)
  then have "fs_dk s' 1 = fs_dk ?m 1" using A(3) by (auto simp: dk)
  moreover have "length (fs_dk s' b) = BSIZE" if "b < fs_dsz s" for b
    using fs_okD(5) [OF M(9), of b] that len k slot_nums by (auto simp: dk M(7) BSIZE_def)
  moreover have "used s' b" if "b \<in> meta_blocks (fs_sb s)" for b using that us fs_okD(3) [OF M(9), of b] by (simp add: M(5))
  ultimately have ok': "fs_ok s'" using M(9) by (simp add: fs_ok_def f' M(5,7))
  have "file_ok s' (fs_ic s' ! i)"
    by (rule file_ok_added [OF f c M(4) a(2) k(2) sl]) (use us M(1) F(1,2) f' in simp_all)
  moreover have "fs_dk s' c = replicate BSIZE 0" using ac M(2) by (simp add: dk)
  moreover have "\<forall>b. b \<noteq> c \<longrightarrow> b \<notin> bitmap_blocks (fs_sb s) \<longrightarrow> (b = 0 \<or> b \<noteq> ?a) \<longrightarrow> fs_dk s' b = fs_dk s b" using M(3) a(1) by (auto simp: dk)
  moreover have "0 \<notin> bitmap_blocks (fs_sb s) \<longrightarrow> fs_dk s' 0 = fs_dk s 0" using M(3) [of 0] a(1) c0 by (simp add: dk)
  ultimately have "added s i k c s'" unfolding added_def Let_def
    using ok' sl c c0 us M(1) f' F(2) by (intro conjI exI [of _ "i_addrs ?ip"]; (assumption | simp))
  then show ?thesis using up by blast
qed

section \<open>Growing a file\<close>

definition fdata :: "fs \<Rightarrow> inode \<Rightarrow> nat \<Rightarrow> blk" where
  "fdata s ip bn = (if fblock s ip bn = 0 then replicate BSIZE 0 else fs_dk s (fblock s ip bn))"

definition nfree :: "fs \<Rightarrow> nat" where
  "nfree s = card {b. b < sb_size (fs_sb s) \<and> \<not> used s b}"

text \<open>What every operation on the contents of a file respects: its blocks stay, new ones were free, and used blocks that are not its own,
  the free map apart, keep their contents.\<close>

definition file_step :: "nat \<Rightarrow> fs \<Rightarrow> fs \<Rightarrow> bool" where
  "file_step i s s' \<longleftrightarrow> (let ip = fs_ic s ! i; ip' = fs_ic s' ! i; N = sb_size (fs_sb s) in
     fs_ok s' \<and> file_ok s' ip' \<and> (\<forall>k < SLOTS. slot s ip k \<noteq> 0 \<longrightarrow> slot s' ip' k = slot s ip k)
     \<and> (\<forall>b < N. used s b \<longrightarrow> b \<notin> owned s ip \<longrightarrow> b \<notin> bitmap_blocks (fs_sb s) \<longrightarrow> fs_dk s' b = fs_dk s b)
     \<and> (\<forall>b \<in> owned s' ip'. b \<in> owned s ip \<or> \<not> used s b)
     \<and> (\<forall>b < N. used s' b \<longleftrightarrow> used s b \<or> b \<in> owned s' ip')
     \<and> fs_sb s' = fs_sb s \<and> fs_dsz s' = fs_dsz s \<and> fs_devs s' = fs_devs s
     \<and> (\<exists>as. length as = NDIRECT + 1 \<and> fs_ic s' = (fs_ic s)[i := ip\<lparr>i_addrs := as\<rparr>]))"

lemma file_stepD:
  assumes "file_step i s s'"
  shows "fs_ok s'" "file_ok s' (fs_ic s' ! i)" "\<And>k. k < SLOTS \<Longrightarrow> slot s (fs_ic s ! i) k \<noteq> 0 \<Longrightarrow> slot s' (fs_ic s' ! i) k = slot s (fs_ic s ! i) k"
    "\<And>b. b < sb_size (fs_sb s) \<Longrightarrow> used s b \<Longrightarrow> b \<notin> owned s (fs_ic s ! i) \<Longrightarrow> b \<notin> bitmap_blocks (fs_sb s) \<Longrightarrow> fs_dk s' b = fs_dk s b"
    "\<And>b. b \<in> owned s' (fs_ic s' ! i) \<Longrightarrow> b \<in> owned s (fs_ic s ! i) \<or> \<not> used s b"
    "\<And>b. b < sb_size (fs_sb s) \<Longrightarrow> used s' b \<longleftrightarrow> used s b \<or> b \<in> owned s' (fs_ic s' ! i)"
    "fs_sb s' = fs_sb s" "fs_dsz s' = fs_dsz s" "fs_devs s' = fs_devs s"
    "\<exists>as. length as = NDIRECT + 1 \<and> fs_ic s' = (fs_ic s)[i := (fs_ic s ! i)\<lparr>i_addrs := as\<rparr>]"
  using assms by (auto simp: file_step_def Let_def)

lemma owned_used: "file_ok s ip \<Longrightarrow> b \<in> owned s ip \<Longrightarrow> b < sb_size (fs_sb s) \<and> used s b \<and> b \<notin> meta_blocks (fs_sb s)"
  using file_okD(3) by (auto elim!: ownedE)

lemma file_step_refl:
  assumes "fs_ok s" "file_ok s (fs_ic s ! i)"
  shows "file_step i s s"
proof -
  have "(fs_ic s)[i := (fs_ic s ! i)\<lparr>i_addrs := i_addrs (fs_ic s ! i)\<rparr>] = fs_ic s" by simp
  then show ?thesis using assms owned_used [OF assms(2)] file_okD(2) [OF assms(2)] unfolding file_step_def Let_def
    by (intro conjI exI [of _ "i_addrs (fs_ic s ! i)"]) auto
qed

lemma file_step_trans:
  assumes "file_ok s (fs_ic s ! i)" "i < length (fs_ic s)" "file_step i s s1" "file_step i s1 s2"
  shows "file_step i s s2"
proof -
  note A = file_stepD [OF assms(3)] and B = file_stepD [OF assms(4)]
  obtain as1 as2 where ic: "fs_ic s1 = (fs_ic s)[i := (fs_ic s ! i)\<lparr>i_addrs := as1\<rparr>]"
    "fs_ic s2 = (fs_ic s1)[i := (fs_ic s1 ! i)\<lparr>i_addrs := as2\<rparr>]" "length as2 = NDIRECT + 1"
    using A(10) B(10) by blast
  then have ic2: "fs_ic s2 = (fs_ic s)[i := (fs_ic s ! i)\<lparr>i_addrs := as2\<rparr>]" using assms(2) by simp
  have o12: "b \<in> owned s2 (fs_ic s2 ! i)" if "b \<in> owned s1 (fs_ic s1 ! i)" for b
    using that B(3) unfolding owned_def by force
  have o2: "b \<in> owned s (fs_ic s ! i) \<or> \<not> used s b" if "b \<in> owned s2 (fs_ic s2 ! i)" for b
    using B(5) [OF that] A(5) A(6) owned_used [OF B(2) that] by (auto simp: A(7) B(7))
  have u2: "used s2 b \<longleftrightarrow> used s b \<or> b \<in> owned s2 (fs_ic s2 ! i)" if "b < sb_size (fs_sb s)" for b
    using B(6) [of b] A(6) [of b] o12 that by (auto simp: A(7))
  have dk: "fs_dk s2 b = fs_dk s b"
    if b: "b < sb_size (fs_sb s)" "used s b" "b \<notin> owned s (fs_ic s ! i)" "b \<notin> bitmap_blocks (fs_sb s)" for b
  proof -
    have "b \<notin> owned s1 (fs_ic s1 ! i)" using A(5) [of b] b(2,3) by blast
    then show ?thesis using A(4) [OF b] B(4) [of b] b A(6) [of b] by (simp add: A(7))
  qed
  show ?thesis unfolding file_step_def Let_def
    using A B ic2 ic(3) o2 u2 dk by (intro conjI exI [of _ as2]) auto
qed

lemma nfree_added:
  assumes "\<forall>e < sb_size (fs_sb s). used s' e \<longleftrightarrow> used s e \<or> e = c" "\<not> used s c" "c < sb_size (fs_sb s)" "fs_sb s' = fs_sb s"
  shows "nfree s = Suc (nfree s')"
proof -
  have "{b. b < sb_size (fs_sb s) \<and> \<not> used s b} = insert c {b. b < sb_size (fs_sb s') \<and> \<not> used s' b}" using assms by auto
  moreover have "finite {b. b < sb_size (fs_sb s') \<and> \<not> used s' b}" by simp
  moreover have "c \<notin> {b. b < sb_size (fs_sb s') \<and> \<not> used s' b}" using assms by auto
  ultimately show ?thesis by (simp add: nfree_def)
qed

lemma added_step:
  assumes f: "file_ok s (fs_ic s ! i)" and a: "added s i k c s'" and k: "slot s (fs_ic s ! i) k = 0" "k < SLOTS"
  shows "file_step i s s'" "nfree s = Suc (nfree s')" "\<And>n. n < MAXFILE \<Longrightarrow> fdata s' (fs_ic s' ! i) n = fdata s (fs_ic s ! i) n"
    "slot s' (fs_ic s' ! i) k = c" "c \<noteq> 0"
proof -
  let ?ip = "fs_ic s ! i" and ?ip' = "fs_ic s' ! i" and ?N = "sb_size (fs_sb s)"
  have A: "fs_ok s'" "file_ok s' ?ip'" "\<And>j. j < SLOTS \<Longrightarrow> slot s' ?ip' j = (if j = k then c else slot s ?ip j)"
    "c \<noteq> 0" "\<not> used s c" "c < ?N" "fs_dk s' c = replicate BSIZE 0"
    "\<And>e. e < ?N \<Longrightarrow> used s' e \<longleftrightarrow> used s e \<or> e = c"
    "\<And>b. b \<noteq> c \<Longrightarrow> b \<notin> bitmap_blocks (fs_sb s) \<Longrightarrow> b = 0 \<or> b \<noteq> slot s ?ip NDIRECT \<Longrightarrow> fs_dk s' b = fs_dk s b"
    "fs_sb s' = fs_sb s" "fs_dsz s' = fs_dsz s" "fs_devs s' = fs_devs s"
    "\<exists>as. length as = NDIRECT + 1 \<and> fs_ic s' = (fs_ic s)[i := ?ip\<lparr>i_addrs := as\<rparr>]"
    using a by (auto simp: added_def Let_def)
  show "nfree s = Suc (nfree s')" using A(8) A(5,6,10) by (intro nfree_added) auto
  show "slot s' ?ip' k = c" "c \<noteq> 0" using A(3) [OF k(2)] A(4) by auto
  have own: "owned s' ?ip' = insert c (owned s ?ip)"
  proof -
    have "b \<in> owned s' ?ip' \<longleftrightarrow> b = c \<or> b \<in> owned s ?ip" for b
      using A(3,4) k by (auto simp: owned_def image_iff split: if_splits)
    then show ?thesis by auto
  qed
  have dk: "fs_dk s' b = fs_dk s b" if "b < ?N" "used s b" "b \<notin> owned s ?ip" "b \<notin> bitmap_blocks (fs_sb s)" for b
    by (rule A(9)) (use that A(5) slot_nums(1) in \<open>auto simp: owned_def\<close>)
  show "file_step i s s'" unfolding file_step_def Let_def
    using A dk own owned_used [OF f] k by (intro conjI) auto
  show "fdata s' ?ip' n = fdata s ?ip n" if n: "n < MAXFILE" for n
  proof (cases "slot_of n = k")
    case True
    then show ?thesis using A(3) [OF k(2)] A(4,7) k(1) by (simp add: fdata_def fblock_def)
  next
    case False
    have e: "fblock s' ?ip' n = fblock s ?ip n" using A(3) [OF slot_of_less [OF n]] False by (simp add: fblock_def)
    have "fs_dk s' (fblock s ?ip n) = fs_dk s (fblock s ?ip n)" if nz: "fblock s ?ip n \<noteq> 0"
    proof -
      have "used s (fblock s ?ip n)" "fblock s ?ip n \<notin> meta_blocks (fs_sb s)" using file_okD(3) [OF f slot_of_less [OF n]] nz by (auto simp: fblock_def)
      moreover have "fblock s ?ip n \<noteq> slot s ?ip NDIRECT"
        using file_okD(4) [OF f slot_of_less [OF n] slot_nums(1)] nz slot_of_inj(2) by (auto simp: fblock_def)
      ultimately show ?thesis using A(5) by (intro A(9)) (auto simp: meta_blocks_def)
    qed
    then show ?thesis by (simp add: fdata_def e)
  qed
qed

lemma free_block:
  assumes "fs_ok s" "0 < nfree s"
  shows "\<exists>c. \<not> used s c \<and> c < sb_size (fs_sb s) \<and> balloc 1 s = Ok (c, marked s c)"
proof -
  have "{b. b < sb_size (fs_sb s) \<and> \<not> used s b} \<noteq> {}" using assms(2) unfolding nfree_def by (metis card.empty less_irrefl)
  then show ?thesis using balloc_spec [OF assms(1)] by blast
qed

lemma rd_owned:
  assumes "fs_ok s" "file_ok s ip" "k < SLOTS" "slot s ip k \<noteq> 0"
  shows "rd_blk 1 (slot s ip k) s = Ok (fs_dk s (slot s ip k))" "slot s ip k < fs_dsz s" "length (fs_dk s (slot s ip k)) = BSIZE"
proof -
  show d: "slot s ip k < fs_dsz s" using file_okD(3) [OF assms(2-4)] fs_okD(2) [OF assms(1)] by (metis order_less_le_trans)
  then show "rd_blk 1 (slot s ip k) s = Ok (fs_dk s (slot s ip k))" "length (fs_dk s (slot s ip k)) = BSIZE"
    using fs_okD(5) [OF assms(1)] by (simp_all add: rd_blk_def not_le)
qed

text \<open>The second half of \<^verbatim>\<open>bmap\<close>: the entry of an indirect block.\<close>

definition bmap_entry :: "uint \<Rightarrow> nat \<Rightarrow> fs \<Rightarrow> (uint \<times> fs) res" where
  "bmap_entry ind j s =
     bind_res (rd_blk 1 ind s) (\<lambda>d.
     let a = get32 d (4 * j)
     in if a = 0
        then bind_res (balloc 1 s) (\<lambda>(a, s3). bind_res (up_blk 1 ind (\<lambda>d. put32 d (4 * j) a) s3) (\<lambda>s4. Ok (a, s4)))
        else Ok (a, s))"

lemma fblock_indirect:
  "\<not> bn < NDIRECT \<Longrightarrow> slot s ip NDIRECT \<noteq> 0 \<Longrightarrow> fblock s ip bn = get32 (fs_dk s (slot s ip NDIRECT)) (4 * (bn - NDIRECT))"
  by (simp add: fblock_def slot_of_def slot_def)

lemma bmap_indirect:
  assumes "i_dev (fs_ic s ! i) = 1" "\<not> bn < NDIRECT" "bn < MAXFILE"
  shows "bmap i bn s = bind_res
    (if slot s (fs_ic s ! i) NDIRECT = 0
     then bind_res (balloc 1 s) (\<lambda>(a, s1). Ok (a, set_inode i (\<lambda>ip. ip\<lparr>i_addrs := (i_addrs ip)[NDIRECT := a]\<rparr>) s1))
     else Ok (slot s (fs_ic s ! i) NDIRECT, s)) (\<lambda>(ind, s2). bmap_entry ind (bn - NDIRECT) s2)"
proof -
  have "bn - NDIRECT < NINDIRECT" using assms(2,3) slot_nums by simp
  then show ?thesis using assms(2) by (simp add: bmap_def bmap_entry_def Let_def slot_def assms(1) cong: if_cong)
qed

lemma bmap_hit:
  assumes ok: "fs_ok s" and f: "file_ok s (fs_ic s ! i)" and bn: "bn < MAXFILE" and nz: "fblock s (fs_ic s ! i) bn \<noteq> 0"
  shows "bmap i bn s = Ok (fblock s (fs_ic s ! i) bn, s)"
proof (cases "bn < NDIRECT")
  case True
  then show ?thesis using nz by (simp add: bmap_def fblock_def slot_of_def slot_def Let_def)
next
  case False
  have a: "slot s (fs_ic s ! i) NDIRECT \<noteq> 0" using nz False by (auto simp: fblock_def slot_of_def slot_def split: if_splits)
  show ?thesis using bmap_indirect [OF file_okD(1) [OF f] False bn] a rd_owned(1) [OF ok f slot_nums(1) a]
      fblock_indirect [OF False a] nz by (simp add: bmap_entry_def)
qed

lemma bmap_entry_spec:
  assumes ok: "fs_ok s" and i: "i < length (fs_ic s)" and f: "file_ok s (fs_ic s ! i)" and bn: "\<not> bn < NDIRECT" "bn < MAXFILE"
    and a: "slot s (fs_ic s ! i) NDIRECT \<noteq> 0" and fr: "1 \<le> nfree s"
  shows "\<exists>a s'. bmap_entry (slot s (fs_ic s ! i) NDIRECT) (bn - NDIRECT) s = Ok (a, s') \<and> file_step i s s' \<and> nfree s \<le> nfree s' + 1 \<and> a \<noteq> 0
    \<and> fblock s' (fs_ic s' ! i) bn = a \<and> (\<forall>n < MAXFILE. fdata s' (fs_ic s' ! i) n = fdata s (fs_ic s ! i) n)"
proof -
  let ?ip = "fs_ic s ! i" and ?a = "slot s (fs_ic s ! i) NDIRECT"
  note rd = rd_owned [OF ok f slot_nums(1) a] and fb = fblock_indirect [OF bn(1) a]
  show ?thesis
  proof (cases "fblock s ?ip bn = 0")
    case False
    then show ?thesis using rd(1) fb file_step_refl [OF ok f] by (simp add: bmap_entry_def Let_def)
  next
    case True
    have "0 < nfree s" using fr by simp
    from free_block [OF ok this] obtain c where c: "\<not> used s c" "c < sb_size (fs_sb s)" "balloc 1 s = Ok (c, marked s c)" by blast
    have k: "NDIRECT < Suc bn" "Suc bn < SLOTS" "Suc bn - NDIRECT - 1 = bn - NDIRECT" "slot_of bn = Suc bn"
      using bn slot_nums by (simp_all add: slot_of_def)
    have z: "slot s ?ip (Suc bn) = 0" using True k(4) by (simp add: fblock_def)
    obtain s' where s': "up_blk 1 ?a (\<lambda>d. put32 d (4 * (bn - NDIRECT)) c) (marked s c) = Ok s'" "added s i (Suc bn) c s'"
      using add_indirect [OF ok i f k(1,2) a z c(1,2)] unfolding k(3) by blast
    note S = added_step [OF f s'(2) z k(2)]
    have "bmap_entry ?a (bn - NDIRECT) s = Ok (c, s')" using rd(1) fb True c(3) s'(1) by (simp add: bmap_entry_def Let_def)
    then show ?thesis using S k(4) by (intro exI [of _ c] exI [of _ s']) (simp add: fblock_def)
  qed
qed

lemma bmap_spec:
  assumes ok: "fs_ok s" and i: "i < length (fs_ic s)" and f: "file_ok s (fs_ic s ! i)" and bn: "bn < MAXFILE" and fr: "2 \<le> nfree s"
  shows "\<exists>a s'. bmap i bn s = Ok (a, s') \<and> file_step i s s' \<and> nfree s \<le> nfree s' + 2 \<and> a \<noteq> 0 \<and> fblock s' (fs_ic s' ! i) bn = a
    \<and> (\<forall>n < MAXFILE. fdata s' (fs_ic s' ! i) n = fdata s (fs_ic s ! i) n)"
proof -
  let ?ip = "fs_ic s ! i"
  note F = file_okD [OF f]
  obtain c where c: "\<not> used s c" "c < sb_size (fs_sb s)" "balloc 1 s = Ok (c, marked s c)" using free_block [OF ok] fr by auto
  let ?set = "\<lambda>k. set_inode i (\<lambda>ip. ip\<lparr>i_addrs := (i_addrs ip)[k := c]\<rparr>) (marked s c)"
  consider (hit) "fblock s ?ip bn \<noteq> 0" | (direct) "fblock s ?ip bn = 0" "bn < NDIRECT"
    | (entry) "\<not> bn < NDIRECT" "slot s ?ip NDIRECT \<noteq> 0" | (both) "\<not> bn < NDIRECT" "slot s ?ip NDIRECT = 0" by blast
  then show ?thesis
  proof cases
    case hit
    then show ?thesis using bmap_hit [OF ok f bn hit] file_step_refl [OF ok f] by simp
  next
    case direct
    then have z: "slot s ?ip bn = 0" "slot_of bn = bn" "i_addrs ?ip ! bn = 0" by (simp_all add: fblock_def slot_of_def slot_def)
    have k: "bn < SLOTS" using slot_of_less [OF bn] z(2) by simp
    have ad: "added s i bn c (?set bn)" using add_direct [OF ok i f _ z(1) c(1,2)] direct(2) by simp
    have "bmap i bn s = Ok (c, ?set bn)" using direct z(3) c(3) F(1) by (simp add: bmap_def Let_def)
    then show ?thesis using added_step [OF f ad z(1) k] z(2) by (intro exI [of _ c] exI [of _ "?set bn"]) (simp add: fblock_def)
  next
    case entry
    have "1 \<le> nfree s" using fr by simp
    from bmap_entry_spec [OF ok i f entry(1) bn entry(2) this] show ?thesis
      using bmap_indirect [OF F(1) entry(1) bn] entry(2) by fastforce
  next
    case both
    have ad: "added s i NDIRECT c (?set NDIRECT)" using add_direct [OF ok i f _ both(2) c(1,2)] by simp
    note S = added_step [OF f ad both(2) slot_nums(1)]
    let ?s = "?set NDIRECT"
    note D = file_stepD [OF S(1)]
    have i': "i < length (fs_ic ?s)" using i by (simp add: marked_def)
    have fr': "1 \<le> nfree ?s" using S(2) fr by simp
    have nz: "slot ?s (fs_ic ?s ! i) NDIRECT \<noteq> 0" using S(4,5) by simp
    obtain a s' where s': "bmap_entry (slot ?s (fs_ic ?s ! i) NDIRECT) (bn - NDIRECT) ?s = Ok (a, s')" "file_step i ?s s'" "nfree ?s \<le> nfree s' + 1"
      "a \<noteq> 0" "fblock s' (fs_ic s' ! i) bn = a" "\<forall>n < MAXFILE. fdata s' (fs_ic s' ! i) n = fdata ?s (fs_ic ?s ! i) n"
      using bmap_entry_spec [OF D(1) i' D(2) both(1) bn nz fr'] by blast
    have "bmap i bn s = Ok (a, s')" using bmap_indirect [OF F(1) both(1) bn] both(2) c(3) s'(1) S(4) by simp
    moreover have "file_step i s s'" by (rule file_step_trans [OF f i S(1) s'(2)])
    ultimately show ?thesis using s' S(2,3) by (intro exI [of _ a] exI [of _ s']) simp
  qed
qed

section \<open>Reading and writing contents\<close>

definition fbyte :: "fs \<Rightarrow> inode \<Rightarrow> nat \<Rightarrow> byte" where
  "fbyte s ip k = fdata s ip (k div BSIZE) ! (k mod BSIZE)"

lemma length_fdata: "fs_ok s \<Longrightarrow> file_ok s ip \<Longrightarrow> n < MAXFILE \<Longrightarrow> length (fdata s ip n) = BSIZE"
  using rd_owned(3) [OF _ _ slot_of_less] by (simp add: fdata_def fblock_def)

lemma store_spec:
  assumes ok: "fs_ok s" and f: "file_ok s (fs_ic s ! i)" and n: "n < MAXFILE" "fblock s (fs_ic s ! i) n \<noteq> 0"
    and d: "length (g (fs_dk s (fblock s (fs_ic s ! i) n))) = BSIZE"
  shows "\<exists>s'. up_blk 1 (fblock s (fs_ic s ! i) n) g s = Ok s' \<and> file_step i s s' \<and> nfree s' = nfree s \<and> fs_ic s' = fs_ic s
    \<and> (\<forall>m < MAXFILE. fblock s' (fs_ic s ! i) m = fblock s (fs_ic s ! i) m)
    \<and> (\<forall>m < MAXFILE. fdata s' (fs_ic s ! i) m = (if m = n then g (fdata s (fs_ic s ! i) n) else fdata s (fs_ic s ! i) m))"
proof -
  let ?ip = "fs_ic s ! i" and ?a = "fblock s (fs_ic s ! i) n"
  note sl = slot_of_less [OF n(1)]
  have nz: "slot s ?ip (slot_of n) \<noteq> 0" "?a = slot s ?ip (slot_of n)" using n(2) by (simp_all add: fblock_def)
  note rd = rd_owned [OF ok f sl nz(1), folded nz(2)]
  have A: "?a < sb_size (fs_sb s)" "used s ?a" "?a \<notin> meta_blocks (fs_sb s)" using file_okD(3) [OF f sl nz(1)] nz(2) by auto
  define s' where "s' = s\<lparr>fs_dk := (fs_dk s)(?a := g (fs_dk s ?a))\<rparr>"
  have up: "up_blk 1 ?a g s = Ok s'" using rd(1) by (simp add: up_blk_def s'_def)
  have f': "fs_sb s' = fs_sb s" "fs_ic s' = fs_ic s" "fs_dsz s' = fs_dsz s" "fs_devs s' = fs_devs s" by (simp_all add: s'_def)
  have dk: "fs_dk s' b = (if b = ?a then g (fs_dk s ?a) else fs_dk s b)" for b by (simp add: s'_def)
  have ind: "?a \<noteq> i_addrs ?ip ! NDIRECT"
    using file_okD(4) [OF f sl slot_nums(1) nz(1)] slot_of_inj(2) unfolding nz(2) by (auto simp: slot_def [of s ?ip NDIRECT])
  have slots: "slot s' ?ip = slot s ?ip" using ind by (auto simp: slot_def dk fun_eq_iff)
  have us: "used s' b = used s b" if "b < sb_size (fs_sb s)" for b
    using bitmap_meta [OF that] A(3) by (auto simp: used_def f' dk)
  have own: "owned s' ?ip = owned s ?ip" by (simp add: owned_def slots)
  have "1 \<in> meta_blocks (fs_sb s)" by (simp add: meta_blocks_def)
  then have "fs_dk s' 1 = fs_dk s 1" using A(3) by (auto simp: dk)
  moreover have "length (fs_dk s' b) = BSIZE" if "b < fs_dsz s" for b using fs_okD(5) [OF ok that] d by (simp add: dk)
  moreover have "used s' b" if "b \<in> meta_blocks (fs_sb s)" for b using us fs_okD(3) [OF ok that] by blast
  ultimately have ok': "fs_ok s'" using ok by (simp add: fs_ok_def f')
  have fo: "file_ok s' ?ip" using file_okD [OF f] us unfolding file_ok_def slots f' by blast
  have a_own: "?a \<in> owned s ?ip" using sl nz by (auto simp: owned_def)
  have "(fs_ic s)[i := ?ip\<lparr>i_addrs := i_addrs ?ip\<rparr>] = fs_ic s" by simp
  then have "file_step i s s'" unfolding file_step_def Let_def
    using ok' fo file_okD(2) [OF f] us a_own owned_used [OF f] by (intro conjI exI [of _ "i_addrs ?ip"]) (auto simp: f' slots own dk)
  moreover have "{b. b < sb_size (fs_sb s) \<and> \<not> used s' b} = {b. b < sb_size (fs_sb s) \<and> \<not> used s b}" using us by auto
  moreover have "fblock s' ?ip m = fblock s ?ip m" for m by (simp add: fblock_def slots)
  moreover have "fdata s' ?ip m = (if m = n then g (fdata s ?ip n) else fdata s ?ip m)" if m: "m < MAXFILE" for m
    using file_okD(4) [OF f slot_of_less [OF m] sl] n(2) unfolding fdata_def fblock_def slots dk by (auto simp: slot_of_inj)
  ultimately show ?thesis using up f' by (intro exI [of _ s']) (simp add: nfree_def)
qed

text \<open>The number of blocks that bytes \<open>off\<close> to \<open>off + n\<close> touch.\<close>

definition touched :: "nat \<Rightarrow> nat \<Rightarrow> nat" where
  "touched off n = (if n = 0 then 0 else (off mod BSIZE + n + BSIZE - 1) div BSIZE)"

lemma touched_step:
  assumes "0 < n"
  shows "touched off n = Suc (touched (off + step_len off n) (n - step_len off n))" "off mod BSIZE + step_len off n \<le> BSIZE"
proof -
  let ?m = "step_len off n" and ?q = "off div 512" and ?r = "off mod 512"
  have off: "off = 512 * ?q + ?r" "?r < 512" by simp_all
  show "touched off n = Suc (touched (off + ?m) (n - ?m))"
  proof (cases "n \<le> 512 - ?r")
    case True
    then have m: "?m = n" by (simp add: step_len_def BSIZE_def)
    have "?r + n + 511 = 512 + (?r + n - 1)" "?r + n - 1 < 512" using True assms off(2) by linarith+
    then have "(?r + n + 511) div 512 = 1" by simp
    then show ?thesis using assms by (simp add: m touched_def BSIZE_def)
  next
    case False
    then have m: "?m = 512 - ?r" by (simp add: step_len_def BSIZE_def)
    have "512 * q + r + (512 - r) = (q + 1) * 512" if "r < 512" for q r :: nat using that by simp
    from this [OF off(2), of ?q] have "off + (512 - ?r) = (?q + 1) * 512" by (simp only: off(1) [symmetric])
    then have "(off + ?m) mod 512 = 0" unfolding m by simp
    have "?r + n + 511 = 512 + (n - (512 - ?r) + 511)" using False off(2) by simp
    then have "(?r + n + 511) div 512 = Suc ((n - (512 - ?r) + 511) div 512)" by (simp only: div_add_self1)
    moreover have "touched (off + ?m) (n - ?m) = (n - (512 - ?r) + 511) div 512" "touched off n = (?r + n + 511) div 512"
      using False \<open>(off + ?m) mod 512 = 0\<close> assms unfolding touched_def BSIZE_def m by simp_all
    ultimately show ?thesis by simp
  qed
  show "off mod BSIZE + ?m \<le> BSIZE" using off by (auto simp: step_len_def BSIZE_def)
qed

lemma byte_in_block:
  assumes "off mod BSIZE + m \<le> BSIZE"
  shows "off \<le> k \<and> k < off + m \<longleftrightarrow> k div BSIZE = off div BSIZE \<and> off mod BSIZE \<le> k mod BSIZE \<and> k mod BSIZE < off mod BSIZE + m"
    "off \<le> k \<Longrightarrow> k < off + m \<Longrightarrow> k mod BSIZE - off mod BSIZE = k - off"
proof -
  obtain q r where off: "off = q * 512 + r" "r < 512" by (metis div_mult_mod_eq mod_less_divisor zero_less_numeral)
  obtain p t where k: "k = p * 512 + t" "t < 512" by (metis div_mult_mod_eq mod_less_divisor zero_less_numeral)
  have e: "off div 512 = q" "off mod 512 = r" "k div 512 = p" "k mod 512 = t" using off k by simp_all
  have a: "r + m \<le> 512" using assms e by (simp add: BSIZE_def)
  show "off \<le> k \<and> k < off + m \<longleftrightarrow> k div BSIZE = off div BSIZE \<and> off mod BSIZE \<le> k mod BSIZE \<and> k mod BSIZE < off mod BSIZE + m"
    unfolding BSIZE_def e using off k a by (cases p q rule: linorder_cases) auto
  show "k mod BSIZE - off mod BSIZE = k - off" if "off \<le> k" "k < off + m"
    unfolding BSIZE_def e using off k a that by (cases p q rule: linorder_cases) auto
qed

lemma fbyte_store:
  assumes "fdata s' ip n' = (if n' = off div BSIZE then overlay (fdata s ip0 (off div BSIZE)) (off mod BSIZE) ds else fdata s ip0 n')"
    and "length (fdata s ip0 (off div BSIZE)) = BSIZE" "off mod BSIZE + length ds \<le> BSIZE" "n' = k div BSIZE"
  shows "fbyte s' ip k = (if off \<le> k \<and> k < off + length ds then ds ! (k - off) else fbyte s ip0 k)"
proof -
  note B = byte_in_block [OF assms(3)]
  have lt: "k mod BSIZE < BSIZE" by (simp add: BSIZE_def)
  show ?thesis
  proof (cases "off \<le> k \<and> k < off + length ds")
    case True
    then show ?thesis using B(1) [of k] B(2) [of k] assms lt by (simp add: fbyte_def nth_overlay)
  next
    case False
    then show ?thesis using B(1) [of k] assms lt by (auto simp: fbyte_def nth_overlay)
  qed
qed

lemma writei_loop_spec:
  assumes "fs_ok s" "i < length (fs_ic s)" "file_ok s (fs_ic s ! i)" "off + length src \<le> MAXFILE * BSIZE" "2 * touched off (length src) \<le> nfree s"
  shows "\<exists>s'. writei_loop i src off s = Ok s' \<and> file_step i s s'
    \<and> (\<forall>k < MAXFILE * BSIZE. fbyte s' (fs_ic s' ! i) k = (if off \<le> k \<and> k < off + length src then src ! (k - off) else fbyte s (fs_ic s ! i) k))
    \<and> (\<forall>k. off \<le> k \<longrightarrow> k < off + length src \<longrightarrow> fblock s' (fs_ic s' ! i) (k div BSIZE) \<noteq> 0)"
  using assms
proof (induction "length src" arbitrary: src off s rule: less_induct)
  case less
  let ?ip = "fs_ic s ! i"
  note ok = less.prems(1) and i = less.prems(2) and f = less.prems(3)
  show ?case
  proof (cases "src = []")
    case True
    then show ?thesis using file_step_refl [OF ok f] by (auto simp: writei_loop.simps)
  next
    case False
    then have n: "0 < length src" by simp
    let ?m = "step_len off (length src)" and ?bn = "off div BSIZE"
    note T = touched_step [OF n, of off]
    have m: "0 < ?m" "?m \<le> length src" using n by simp_all
    have "off < MAXFILE * BSIZE" using less.prems(4) n by linarith
    then have bn: "?bn < MAXFILE" by (simp add: div_less_iff_less_mult BSIZE_def)
    have fr: "2 \<le> nfree s" using less.prems(5) T(1) by simp
    obtain a s1 where s1: "bmap i ?bn s = Ok (a, s1)" "file_step i s s1" "nfree s \<le> nfree s1 + 2" "a \<noteq> 0" "fblock s1 (fs_ic s1 ! i) ?bn = a"
      "\<forall>n < MAXFILE. fdata s1 (fs_ic s1 ! i) n = fdata s ?ip n" using bmap_spec [OF ok i f bn fr] by blast
    note D1 = file_stepD [OF s1(2)]
    let ?g = "\<lambda>d. overlay d (off mod BSIZE) (take ?m src)"
    have l1: "length (fdata s1 (fs_ic s1 ! i) ?bn) = BSIZE" by (rule length_fdata [OF D1(1,2) bn])
    have "length (?g (fs_dk s1 a)) = BSIZE" using l1 s1(4,5) T(2) m(2) by (simp add: fdata_def)
    then obtain s2 where s2: "up_blk 1 a ?g s1 = Ok s2" "file_step i s1 s2" "nfree s2 = nfree s1" "fs_ic s2 = fs_ic s1"
      "\<forall>m < MAXFILE. fblock s2 (fs_ic s1 ! i) m = fblock s1 (fs_ic s1 ! i) m"
      "\<forall>m < MAXFILE. fdata s2 (fs_ic s1 ! i) m = (if m = ?bn then ?g (fdata s1 (fs_ic s1 ! i) ?bn) else fdata s1 (fs_ic s1 ! i) m)"
      using store_spec [OF D1(1,2) bn, of ?g] s1(4,5) by blast
    note D2 = file_stepD [OF s2(2)]
    have st: "file_step i s s2" by (rule file_step_trans [OF f i s1(2) s2(2)])
    have i2: "i < length (fs_ic s2)" using i D1(10) s2(4) by auto
    have l: "length (drop ?m src) < length src" "off + ?m + length (drop ?m src) \<le> MAXFILE * BSIZE"
      "2 * touched (off + ?m) (length (drop ?m src)) \<le> nfree s2"
      using m n less.prems(4,5) T(1) s1(3) s2(3) by simp_all
    obtain s3 where s3: "writei_loop i (drop ?m src) (off + ?m) s2 = Ok s3" "file_step i s2 s3"
      "\<forall>k < MAXFILE * BSIZE. fbyte s3 (fs_ic s3 ! i) k = (if off + ?m \<le> k \<and> k < off + ?m + length (drop ?m src) then drop ?m src ! (k - (off + ?m)) else fbyte s2 (fs_ic s2 ! i) k)"
      "\<forall>k. off + ?m \<le> k \<longrightarrow> k < off + ?m + length (drop ?m src) \<longrightarrow> fblock s3 (fs_ic s3 ! i) (k div BSIZE) \<noteq> 0"
      using less.hyps [OF l(1) D2(1) i2 D2(2) l(2,3)] by blast
    have "i_dev ?ip = 1" by (rule file_okD(1) [OF f])
    then have "writei_loop i src off s = Ok s3" using False s1(1) s2(1) s3(1) by (subst writei_loop.simps) (simp add: Let_def)
    moreover have "file_step i s s3" by (rule file_step_trans [OF f i st s3(2)])
    moreover have "fbyte s3 (fs_ic s3 ! i) k = (if off \<le> k \<and> k < off + length src then src ! (k - off) else fbyte s ?ip k)"
      if k: "k < MAXFILE * BSIZE" for k
    proof -
      have kb: "k div BSIZE < MAXFILE" using k by (simp add: div_less_iff_less_mult BSIZE_def)
      have "fbyte s1 (fs_ic s1 ! i) k = fbyte s ?ip k" using s1(6) kb by (simp add: fbyte_def)
      moreover have "fbyte s2 (fs_ic s2 ! i) k = (if off \<le> k \<and> k < off + length (take ?m src) then take ?m src ! (k - off) else fbyte s1 (fs_ic s1 ! i) k)"
        using s2(6) kb l1 T(2) m(2) unfolding s2(4) by (intro fbyte_store) simp_all
      ultimately show ?thesis using s3(3) k m(2) by (auto simp del: step_len_pos)
    qed
    moreover have "fblock s3 (fs_ic s3 ! i) (k div BSIZE) \<noteq> 0" if k: "off \<le> k" "k < off + length src" for k
    proof (cases "k < off + ?m")
      case True
      then have "k div BSIZE = ?bn" using byte_in_block(1) [OF T(2), of k] k(1) by simp
      moreover have "fblock s2 (fs_ic s2 ! i) ?bn = a" using s2(4,5) s1(5) bn by simp
      ultimately show ?thesis using file_stepD(3) [OF s3(2) slot_of_less [OF bn]] s1(4) by (simp add: fblock_def)
    next
      case False
      then show ?thesis using s3(4) k m(2) by simp
    qed
    ultimately show ?thesis by blast
  qed
qed

lemma readi_loop_spec:
  assumes "fs_ok s" "file_ok s (fs_ic s ! i)" "off + n \<le> MAXFILE * BSIZE"
    and "\<And>k. off \<le> k \<Longrightarrow> k < off + n \<Longrightarrow> fblock s (fs_ic s ! i) (k div BSIZE) \<noteq> 0"
  shows "readi_loop i off n s = Ok (map (fbyte s (fs_ic s ! i)) [off..<off + n], s)"
  using assms(3,4)
proof (induction n arbitrary: off rule: less_induct)
  case (less n)
  let ?ip = "fs_ic s ! i"
  show ?case
  proof (cases "n = 0")
    case False
    let ?m = "step_len off n" and ?bn = "off div BSIZE"
    have n: "0 < n" using False by simp
    note T = touched_step [OF n, of off]
    have m: "0 < ?m" "?m \<le> n" using n by simp_all
    have "off < MAXFILE * BSIZE" using less.prems(1) n by linarith
    then have bn: "?bn < MAXFILE" by (simp add: div_less_iff_less_mult BSIZE_def)
    have nz: "fblock s ?ip ?bn \<noteq> 0" using less.prems(2) [of off] n by simp
    have b: "bmap i ?bn s = Ok (fblock s ?ip ?bn, s)" by (rule bmap_hit [OF assms(1,2) bn nz])
    have rd: "rd_blk (i_dev ?ip) (fblock s ?ip ?bn) s = Ok (fdata s ?ip ?bn)"
      using rd_owned(1) [OF assms(1,2) slot_of_less [OF bn]] nz file_okD(1) [OF assms(2)] by (simp add: fblock_def fdata_def)
    have IH: "readi_loop i (off + ?m) (n - ?m) s = Ok (map (fbyte s ?ip) [off + ?m..<off + ?m + (n - ?m)], s)"
      by (rule less.IH) (use m n less.prems in \<open>simp_all add: diff_less\<close>)
    have len: "length (fdata s ?ip ?bn) = BSIZE" by (rule length_fdata [OF assms(1,2) bn])
    have seg: "take ?m (drop (off mod BSIZE) (fdata s ?ip ?bn)) = map (fbyte s ?ip) [off..<off + ?m]"
    proof (rule nth_equalityI)
      show "length (take ?m (drop (off mod BSIZE) (fdata s ?ip ?bn))) = length (map (fbyte s ?ip) [off..<off + ?m])"
        using len T(2) by simp
      fix j assume "j < length (take ?m (drop (off mod BSIZE) (fdata s ?ip ?bn)))"
      then have j: "j < ?m" by simp
      have B: "(off + j) div BSIZE = ?bn" "(off + j) mod BSIZE = off mod BSIZE + j"
        using byte_in_block(1) [OF T(2), of "off + j"] byte_in_block(2) [OF T(2), of "off + j"] j by auto
      show "take ?m (drop (off mod BSIZE) (fdata s ?ip ?bn)) ! j = map (fbyte s ?ip) [off..<off + ?m] ! j"
        using j len T(2) B by (simp add: fbyte_def)
    qed
    have "[off..<off + n] = [off..<off + ?m] @ [off + ?m..<off + ?m + (n - ?m)]"
      using upt_add_eq_append [of off "off + ?m" "n - ?m"] m(2) by simp
    then show ?thesis using n b rd IH seg by (subst readi_loop.simps) (simp add: Let_def)
  qed (simp add: readi_loop.simps)
qed

text \<open>Writing the inode back only changes its 64 bytes.\<close>

lemma iupdate_spec:
  assumes ok: "fs_ok s" and ip: "ip = fs_ic s ! i" and f: "file_ok s ip" and n: "i_inum ip < sb_ninodes (fs_sb s)"
  shows "\<exists>s'. iupdate i s = Ok s' \<and> fs_ok s' \<and> slot s' ip = slot s ip \<and> (\<forall>b < sb_size (fs_sb s). used s' b = used s b) \<and> fs_ic s' = fs_ic s \<and> fs_sb s' = fs_sb s
    \<and> fs_dsz s' = fs_dsz s \<and> fs_devs s' = fs_devs s \<and> IBLOCK (i_inum ip) (fs_sb s) \<in> inode_blocks (fs_sb s)
    \<and> (\<forall>b. b \<noteq> IBLOCK (i_inum ip) (fs_sb s) \<longrightarrow> fs_dk s' b = fs_dk s b)
    \<and> fs_dk s' (IBLOCK (i_inum ip) (fs_sb s)) = write_dinode ip (dinode_off (i_inum ip)) (fs_dk s (IBLOCK (i_inum ip) (fs_sb s)))"
proof -
  let ?B = "IBLOCK (i_inum ip) (fs_sb s)"
  have "i_inum ip \<le> sb_ninodes (fs_sb s) - 1" using n unat_minus_1 [of "sb_ninodes (fs_sb s)"] by (auto simp: word_le_nat_alt word_less_nat_alt)
  then have "unat (i_inum ip) div IPB \<le> unat (sb_ninodes (fs_sb s) - 1) div IPB" by (simp add: word_le_nat_alt div_le_mono)
  then have B: "?B \<in> inode_blocks (fs_sb s)" unfolding IBLOCK_def inode_blocks_def by blast
  then have Bm: "?B \<in> meta_blocks (fs_sb s)" by (simp add: meta_blocks_def)
  then have Bd: "?B < fs_dsz s" using fs_okD(2,3) [OF ok] by (metis order_less_le_trans)
  have Bx: "?B \<noteq> 1" "?B \<notin> bitmap_blocks (fs_sb s)" using B fs_okD(6) [OF ok] by (auto simp: layout_ok_def)
  define s' where "s' = s\<lparr>fs_dk := (fs_dk s)(?B := write_dinode ip (dinode_off (i_inum ip)) (fs_dk s ?B))\<rparr>"
  have up: "iupdate i s = Ok s'" using Bd file_okD(1) [OF f] by (simp add: iupdate_def ip [symmetric] Let_def up_blk_def rd_blk_def not_le s'_def)
  have f': "fs_sb s' = fs_sb s" "fs_ic s' = fs_ic s" "fs_dsz s' = fs_dsz s" "fs_devs s' = fs_devs s" by (simp_all add: s'_def)
  have dk: "fs_dk s' b = (if b = ?B then write_dinode ip (dinode_off (i_inum ip)) (fs_dk s ?B) else fs_dk s b)" for b by (simp add: s'_def)
  have lB: "length (fs_dk s ?B) = BSIZE" by (rule fs_okD(5) [OF ok Bd])
  have "unat (i_inum ip) mod IPB < 8" by (simp add: IPB_def BSIZE_def DINODE_def)
  then have off: "dinode_off (i_inum ip) + DINODE \<le> BSIZE" by (simp add: dinode_off_def DINODE_def BSIZE_def)
  have us: "used s' b = used s b" if "b < sb_size (fs_sb s)" for b using BBLOCK_in [OF that] Bx(2) by (auto simp: used_def f' dk)
  have "slot s ip NDIRECT \<noteq> ?B \<or> slot s ip NDIRECT = 0" using file_okD(3) [OF f slot_nums(1)] Bm by metis
  then have "fs_dk s' (i_addrs ip ! NDIRECT) = fs_dk s (i_addrs ip ! NDIRECT) \<or> i_addrs ip ! NDIRECT = 0" by (simp add: slot_def dk)
  then have sl: "slot s' ip = slot s ip" by (auto simp: slot_def fun_eq_iff)
  have "length (fs_dk s' b) = BSIZE" if "b < fs_dsz s" for b
    using fs_okD(5) [OF ok that] lB off file_okD(2) [OF f] by (simp add: dk length_write_dinode)
  moreover have "used s' b" if "b \<in> meta_blocks (fs_sb s)" for b using us fs_okD(3) [OF ok that] by blast
  ultimately have "fs_ok s'" using ok Bx(1) by (simp add: fs_ok_def f' dk)
  then show ?thesis using up us sl f' B dk by (intro exI [of _ s']) simp
qed

section \<open>Properties\<close>

text \<open>A file without holes: every byte below its size has a block.\<close>

definition no_holes :: "fs \<Rightarrow> inode \<Rightarrow> bool" where
  "no_holes s ip \<longleftrightarrow> unat (i_size ip) \<le> MAXFILE * BSIZE \<and> (\<forall>k < unat (i_size ip). fblock s ip (k div BSIZE) \<noteq> 0)"

lemma readi_spec:
  assumes ok: "fs_ok s" and f: "file_ok s (fs_ic s ! i)" and h: "no_holes s (fs_ic s ! i)" and t: "i_type (fs_ic s ! i) \<noteq> T_DEV"
    and n: "unat off + unat n \<le> unat (i_size (fs_ic s ! i))"
  shows "readi i off n s = Ok (Done (sint n) (map (fbyte s (fs_ic s ! i)) [unat off..<unat off + unat n]), s)"
proof -
  let ?ip = "fs_ic s ! i"
  have u: "unat (off + n) = unat off + unat n" using n unat_uint_less [of "i_size ?ip"] by (intro uint_no_wrap) simp
  have g: "\<not> off > i_size ?ip" "\<not> off + n < off" "\<not> off + n > i_size ?ip" using n u by (simp_all add: word_less_nat_alt)
  have "readi_loop i (unat off) (unat n) s = Ok (map (fbyte s ?ip) [unat off..<unat off + unat n], s)"
    by (rule readi_loop_spec [OF ok f]) (use n h in \<open>auto simp: no_holes_def\<close>)
  then show ?thesis using t g by (simp add: readi_def Let_def)
qed

lemma size_simps [simp]:
  "slot s (ip\<lparr>i_size := z\<rparr>) = slot s ip" "fblock s (ip\<lparr>i_size := z\<rparr>) = fblock s ip" "fdata s (ip\<lparr>i_size := z\<rparr>) = fdata s ip"
  "slot s (ip\<lparr>i_addrs := as, i_size := z\<rparr>) = slot s (ip\<lparr>i_addrs := as\<rparr>)" "fblock s (ip\<lparr>i_addrs := as, i_size := z\<rparr>) = fblock s (ip\<lparr>i_addrs := as\<rparr>)"
  "fdata s (ip\<lparr>i_addrs := as, i_size := z\<rparr>) = fdata s (ip\<lparr>i_addrs := as\<rparr>)"
  by (auto simp: slot_def fblock_def fdata_def fun_eq_iff)

lemma writei_spec:
  assumes ok: "fs_ok s" and i: "i < length (fs_ic s)" and f: "file_ok s (fs_ic s ! i)" and h: "no_holes s (fs_ic s ! i)"
    and t: "i_type (fs_ic s ! i) \<noteq> T_DEV" and inum: "i_inum (fs_ic s ! i) < sb_ninodes (fs_sb s)"
    and n: "off \<le> i_size (fs_ic s ! i)" "unat off + unat n \<le> MAXFILE * BSIZE" "length src = unat n"
    and fr: "2 * touched (unat off) (unat n) \<le> nfree s"
  shows "\<exists>s'. writei i src off n s = Ok (Done (sint n) [], s') \<and> fs_ok s' \<and> file_ok s' (fs_ic s' ! i) \<and> no_holes s' (fs_ic s' ! i)
    \<and> i_size (fs_ic s' ! i) = max (i_size (fs_ic s ! i)) (off + n) \<and> fs_sb s' = fs_sb s
    \<and> (\<exists>as z. fs_ic s' = (fs_ic s)[i := (fs_ic s ! i)\<lparr>i_addrs := as, i_size := z\<rparr>])
    \<and> (\<forall>k < MAXFILE * BSIZE. fbyte s' (fs_ic s' ! i) k = (if unat off \<le> k \<and> k < unat off + unat n then src ! (k - unat off) else fbyte s (fs_ic s ! i) k))
    \<and> (\<forall>b < sb_size (fs_sb s). used s b \<longrightarrow> b \<notin> owned s (fs_ic s ! i) \<longrightarrow> b \<notin> bitmap_blocks (fs_sb s) \<longrightarrow> b \<noteq> IBLOCK (i_inum (fs_ic s ! i)) (fs_sb s)
         \<longrightarrow> fs_dk s' b = fs_dk s b)"
proof -
  let ?ip = "fs_ic s ! i" and ?o = "unat off" and ?n = "unat n"
  have small: "MAXFILE * BSIZE < 4294967296" by (simp add: slot_nums BSIZE_def)
  have u: "unat (off + n) = ?o + ?n" using n(2) small by (intro uint_no_wrap) simp
  have g: "\<not> off > i_size ?ip" "\<not> off + n < off" "\<not> unat (off + n) > MAXFILE * BSIZE" using n u by (simp_all add: word_less_nat_alt word_le_nat_alt)
  have len: "length src = ?n" "take ?n src = src" using n(3) by simp_all
  obtain s1 where s1: "writei_loop i src ?o s = Ok s1" "file_step i s s1"
    "\<forall>k < MAXFILE * BSIZE. fbyte s1 (fs_ic s1 ! i) k = (if ?o \<le> k \<and> k < ?o + length src then src ! (k - ?o) else fbyte s ?ip k)"
    "\<forall>k. ?o \<le> k \<longrightarrow> k < ?o + length src \<longrightarrow> fblock s1 (fs_ic s1 ! i) (k div BSIZE) \<noteq> 0"
    using writei_loop_spec [OF ok i f, of ?o src] n(2) fr len(1) by auto
  note D = file_stepD [OF s1(2)]
  obtain as where as: "length as = NDIRECT + 1" "fs_ic s1 = (fs_ic s)[i := ?ip\<lparr>i_addrs := as\<rparr>]" using D(10) by blast
  have ip1: "fs_ic s1 ! i = ?ip\<lparr>i_addrs := as\<rparr>" using as(2) i by simp
  have old: "fblock s1 (fs_ic s1 ! i) (k div BSIZE) \<noteq> 0" if "k < unat (i_size ?ip)" for k
  proof -
    have k: "k < MAXFILE * BSIZE" "fblock s ?ip (k div BSIZE) \<noteq> 0" using h that by (auto simp: no_holes_def)
    then have "k div BSIZE < MAXFILE" by (simp add: div_less_iff_less_mult BSIZE_def)
    then show ?thesis using D(3) [OF slot_of_less, of "k div BSIZE"] k(2) by (simp add: fblock_def)
  qed
  let ?z = "max (i_size ?ip) (off + n)"
  have uz: "unat ?z = max (unat (i_size ?ip)) (?o + ?n)" using u by (auto simp: max_def word_le_nat_alt)
  have holes: "no_holes s1 (?ip\<lparr>i_addrs := as, i_size := ?z\<rparr>)"
  proof -
    have "fblock s1 (?ip\<lparr>i_addrs := as\<rparr>) (k div BSIZE) \<noteq> 0" if "k < max (unat (i_size ?ip)) (?o + ?n)" for k
      using old [of k] s1(4) n(1) len(1) that unfolding ip1 by (cases "k < unat (i_size ?ip)") (auto simp: word_le_nat_alt)
    then show ?thesis using h n(2) uz by (simp add: no_holes_def)
  qed
  show ?thesis
  proof (cases "n > 0 \<and> off + n > i_size ?ip")
    case False
    have z: "?z = i_size ?ip"
    proof (cases "n > 0")
      case True
      then show ?thesis using False by (simp add: max_def)
    next
      case no: False
      then have "n = 0" by (simp add: word_neq_0_conv [symmetric] del: word_neq_0_conv)
      then show ?thesis using n(1) by (simp add: max_def)
    qed
    then have ip_z: "?ip\<lparr>i_addrs := as, i_size := ?z\<rparr> = ?ip\<lparr>i_addrs := as\<rparr>" by (cases ?ip) simp
    have "writei i src off n s = Ok (Done (sint n) [], s1)" using t g s1(1) len False ip1 by (auto simp: writei_def Let_def)
    then show ?thesis using D s1(3) len(1) holes ip1 as(2) z unfolding ip_z
      by (intro exI [of _ s1]) (auto intro!: exI [of _ as] exI [of _ "i_size ?ip"])
  next
    case True
    let ?ip2 = "?ip\<lparr>i_addrs := as, i_size := off + n\<rparr>"
    let ?s2 = "set_inode i (\<lambda>ip. ip\<lparr>i_size := off + n\<rparr>) s1"
    have z: "?z = off + n" using True by (auto simp: max_def)
    have ic2: "fs_ic ?s2 = (fs_ic s)[i := ?ip2]" "fs_ic ?s2 ! i = ?ip2" using as(2) i ip1 by simp_all
    have f2: "file_ok ?s2 ?ip2" using D(2) unfolding ip1 by (simp add: file_ok_def)
    have ok2: "fs_ok ?s2" using D(1) by simp
    have in2: "i_inum ?ip2 < sb_ninodes (fs_sb ?s2)" using inum D(7) by simp
    obtain s3 where s3: "iupdate i ?s2 = Ok s3" "fs_ok s3" "slot s3 ?ip2 = slot ?s2 ?ip2" "\<forall>b < sb_size (fs_sb ?s2). used s3 b = used ?s2 b"
      "fs_ic s3 = fs_ic ?s2" "fs_sb s3 = fs_sb ?s2" "fs_dsz s3 = fs_dsz ?s2" "fs_devs s3 = fs_devs ?s2"
      "IBLOCK (i_inum ?ip2) (fs_sb ?s2) \<in> inode_blocks (fs_sb ?s2)"
      "\<forall>b. b \<noteq> IBLOCK (i_inum ?ip2) (fs_sb ?s2) \<longrightarrow> fs_dk s3 b = fs_dk ?s2 b"
      using iupdate_spec [OF ok2 ic2(2) [symmetric] f2 in2] by blast
    have w: "writei i src off n s = Ok (Done (sint n) [], s3)" using t g s1(1) len True ip1 s3(1) by (simp add: writei_def Let_def)
    have ip3: "fs_ic s3 ! i = ?ip2" "fs_ic s3 = (fs_ic s)[i := ?ip2]" using s3(5) ic2 by simp_all
    have f3: "file_ok s3 ?ip2" using file_okD [OF f2] s3(3,4,6) unfolding file_ok_def by simp
    have fb: "fblock s3 ?ip2 = fblock s1 ?ip2" using s3(3) by (simp add: fblock_def fun_eq_iff)
    have fd: "fdata s3 ?ip2 m = fdata s1 ?ip2 m" if m: "m < MAXFILE" for m
    proof -
      have "fs_dk s3 (fblock s1 ?ip2 m) = fs_dk s1 (fblock s1 ?ip2 m)" if "fblock s1 ?ip2 m \<noteq> 0"
      proof -
        have "fblock s1 ?ip2 m \<notin> inode_blocks (fs_sb s1)" using file_okD(3) [OF f2 slot_of_less [OF m]] that by (simp add: fblock_def meta_blocks_def)
        then have "fblock s1 ?ip2 m \<noteq> IBLOCK (i_inum ?ip2) (fs_sb ?s2)" using s3(9) by auto
        then show ?thesis using s3(10) by simp
      qed
      then show ?thesis using fb by (simp add: fdata_def)
    qed
    have by3: "fbyte s3 ?ip2 k = fbyte s1 (fs_ic s1 ! i) k" if "k < MAXFILE * BSIZE" for k
      using fd [of "k div BSIZE"] that unfolding ip1 by (simp add: fbyte_def div_less_iff_less_mult BSIZE_def)
    have "no_holes s3 ?ip2" using holes fb unfolding z by (simp add: no_holes_def)
    moreover have "fs_dk s3 b = fs_dk s b" if "b < sb_size (fs_sb s)" "used s b" "b \<notin> owned s ?ip" "b \<notin> bitmap_blocks (fs_sb s)" "b \<noteq> IBLOCK (i_inum ?ip) (fs_sb s)" for b
      using D(4) [OF that(1-4)] s3(10) that(5) D(7) by simp
    moreover have "fs_sb s3 = fs_sb s" using s3(6) D(7) by simp
    ultimately show ?thesis using w s3(2) f3 ip3 z by3 s1(3) len(1)
      by (intro exI [of _ s3]) (auto intro!: exI [of _ as] exI [of _ "off + n"])
  qed
qed


definition small_file :: inode where
  "small_file = \<lparr>i_dev = 1, i_inum = 2, i_ref = 1, i_held = True, i_valid = True, i_type = 2, i_major = 0, i_minor = 0, i_nlink = 1,
     i_size = 0, i_addrs = replicate 13 0\<rparr>"

lemma small_file_ok:
  defines "s \<equiv> small_fs\<lparr>fs_ic := [small_file]\<rparr>"
  shows "fs_ok s" "file_ok s small_file" "no_holes s small_file" "2 \<le> nfree s"
proof -
  show "fs_ok s" using small_fs_ok by (simp add: s_def fs_ok_def used_def)
  have "i_addrs small_file ! k = 0" if "k \<le> NDIRECT" for k using that by (simp add: small_file_def NDIRECT_def)
  then have z: "slot s small_file k = 0" for k by (simp add: slot_def)
  then show "file_ok s small_file" by (simp add: file_ok_def) (simp add: small_file_def NDIRECT_def)
  show "no_holes s small_file" by (simp add: no_holes_def small_file_def)
  have "used s = used small_fs" by (simp add: s_def used_def fun_eq_iff)
  then have "{4, 5} \<subseteq> {b. b < sb_size (fs_sb s) \<and> \<not> used s b}" using small_bits [of 4] small_bits [of 5] by (auto simp: s_def small_fs_def small_sb_def)
  from card_mono [OF _ this] show "2 \<le> nfree s" by (simp add: nfree_def)
qed


lemma read_dinode_cong:
  assumes "\<And>j. off \<le> j \<Longrightarrow> j < off + DINODE \<Longrightarrow> d ! j = d' ! j"
  shows "read_dinode d off ip = read_dinode d' off ip"
proof -
  have g16: "get16 d (off + k) = get16 d' (off + k)" if "k + 2 \<le> 64" for k using assms that by (simp add: get16_def DINODE_def)
  have g32: "get32 d (off + k) = get32 d' (off + k)" if "k + 4 \<le> 64" for k using assms that by (simp add: get32_def DINODE_def)
  have "get_words d (off + 12) (NDIRECT + 1) = get_words d' (off + 12) (NDIRECT + 1)"
    using g32 [of "12 + 4 * _"] by (auto simp: get_words_def NDIRECT_def add.assoc)
  then show ?thesis using g16 [of 0] g16 [of 2] g16 [of 4] g16 [of 6] g32 [of 8] by (simp add: read_dinode_def)
qed

lemma dinode_off_block:
  shows "dinode_off m + DINODE \<le> BSIZE"
    and "IBLOCK m sb = IBLOCK k sb \<Longrightarrow> m \<noteq> k \<Longrightarrow> dinode_off m + DINODE \<le> dinode_off k \<or> dinode_off k + DINODE \<le> dinode_off m"
proof -
  have "unat m mod IPB < 8" by (simp add: IPB_def BSIZE_def DINODE_def)
  then show "dinode_off m + DINODE \<le> BSIZE" by (simp add: dinode_off_def DINODE_def BSIZE_def)
  assume h: "IBLOCK m sb = IBLOCK k sb" "m \<noteq> k"
  have lt: "unat x div IPB < 4294967296" for x :: uint using unat_uint_less [of x] by (simp add: IPB_def BSIZE_def DINODE_def)
  have "(word_of_nat (unat m div IPB) :: uint) = word_of_nat (unat k div IPB)" using h(1) by (simp add: IBLOCK_def)
  then have "unat (word_of_nat (unat m div IPB) :: uint) = unat (word_of_nat (unat k div IPB) :: uint)" by simp
  then have "unat m div IPB = unat k div IPB" by (simp only: unat_of_nat_small [OF lt])
  then have "unat m mod IPB \<noteq> unat k mod IPB" using h(2) by (metis div_mult_mod_eq word_unat_eq_iff)
  then show "dinode_off m + DINODE \<le> dinode_off k \<or> dinode_off k + DINODE \<le> dinode_off m"
    unfolding dinode_off_def DINODE_def by linarith
qed

text \<open>C31: what \<^verbatim>\<open>iupdate\<close> writes, \<^verbatim>\<open>ilock\<close> reads back into a cache entry that has lost the inode, and no other inode of the disk changes.\<close>

theorem iupdate_ilock:
  assumes "fs_ok s" "i < length (fs_ic s)" "ip = fs_ic s ! i" "file_ok s ip" "i_inum ip < sb_ninodes (fs_sb s)" "i_type ip \<noteq> 0" "1 \<le> i_ref ip"
    "length as = NDIRECT + 1"
  shows "\<exists>s' s''. iupdate i s = Ok s'
    \<and> ilock (Some i) (set_inode i (\<lambda>ip. ip\<lparr>i_held := False, i_valid := False, i_type := t, i_nlink := l, i_size := z, i_addrs := as\<rparr>) s') = Ok s''
    \<and> fs_ic s'' ! i = ip\<lparr>i_held := True, i_valid := True\<rparr>
    \<and> (\<forall>m < sb_ninodes (fs_sb s). \<forall>ip0. m \<noteq> i_inum ip \<longrightarrow>
         read_dinode (fs_dk s' (IBLOCK m (fs_sb s))) (dinode_off m) ip0 = read_dinode (fs_dk s (IBLOCK m (fs_sb s))) (dinode_off m) ip0)"
proof -
  let ?B = "IBLOCK (i_inum ip) (fs_sb s)" and ?o = "dinode_off (i_inum ip)"
  obtain s' where s': "iupdate i s = Ok s'" "fs_ok s'" "fs_ic s' = fs_ic s" "fs_sb s' = fs_sb s" "?B \<in> inode_blocks (fs_sb s)"
    "\<forall>b. b \<noteq> ?B \<longrightarrow> fs_dk s' b = fs_dk s b" "fs_dk s' ?B = write_dinode ip ?o (fs_dk s ?B)" "fs_dsz s' = fs_dsz s"
    using iupdate_spec [OF assms(1,3,4,5)] by blast
  note F = file_okD [OF assms(4)]
  have "?B \<in> meta_blocks (fs_sb s)" using s'(5) by (simp add: meta_blocks_def)
  then have Bd: "?B < fs_dsz s" using fs_okD(2,3) [OF assms(1)] by (metis order_less_le_trans)
  have lB: "length (fs_dk s ?B) = BSIZE" by (rule fs_okD(5) [OF assms(1) Bd])
  have off: "?o + DINODE \<le> length (fs_dk s ?B)" using dinode_off_block(1) lB by simp
  let ?ip1 = "ip\<lparr>i_held := False, i_valid := False, i_type := t, i_nlink := l, i_size := z, i_addrs := as\<rparr>"
  let ?s1 = "set_inode i (\<lambda>ip. ip\<lparr>i_held := False, i_valid := False, i_type := t, i_nlink := l, i_size := z, i_addrs := as\<rparr>) s'"
  have ic1: "fs_ic ?s1 ! i = ?ip1" using s'(3) assms(2,3) by simp
  have rd: "read_dinode (fs_dk s' ?B) ?o (?ip1\<lparr>i_held := True\<rparr>)\<lparr>i_valid := True\<rparr> = ip\<lparr>i_held := True, i_valid := True\<rparr>"
    using read_write_dinode [OF off F(2)] s'(7) by simp
  have ty: "i_type (read_dinode (fs_dk s' ?B) ?o x) = i_type ip" for x using read_write_dinode [OF off F(2), of x] s'(7) by simp
  let ?s2 = "set_inode i (\<lambda>_. ip\<lparr>i_held := True, i_valid := True\<rparr>) (set_inode i (\<lambda>ip. ip\<lparr>i_held := True\<rparr>) ?s1)"
  have "ilock (Some i) ?s1 = Ok ?s2"
    using ic1 assms(2,6,7) s'(3,4,8) Bd F(1) rd ty
    by (simp add: ilock_def acquire_inode_def Let_def rd_blk_def not_le assms(3) [symmetric])
  moreover have "fs_ic ?s2 ! i = ip\<lparr>i_held := True, i_valid := True\<rparr>" using assms(2) s'(3) by simp
  moreover have "read_dinode (fs_dk s' (IBLOCK m (fs_sb s))) (dinode_off m) ip0 = read_dinode (fs_dk s (IBLOCK m (fs_sb s))) (dinode_off m) ip0"
    if "m \<noteq> i_inum ip" for m ip0
  proof (cases "IBLOCK m (fs_sb s) = ?B")
    case True
    then show ?thesis using dinode_off_block(1) [of m] dinode_off_block(2) [OF True that] s'(7) lB off F(2)
      by (intro read_dinode_cong) (auto simp: nth_write_dinode)
  qed (simp add: s'(6))
  ultimately show ?thesis using s'(1) by (intro exI [of _ s'] exI [of _ ?s2]) blast
qed

theorem iupdate_ilock_witness:
  "\<exists>s' s''. iupdate 0 (small_fs\<lparr>fs_ic := [small_file]\<rparr>) = Ok s'
    \<and> ilock (Some 0) (set_inode 0 (\<lambda>ip. ip\<lparr>i_held := False, i_valid := False, i_type := 0, i_nlink := 0, i_size := 5, i_addrs := replicate 13 9\<rparr>) s') = Ok s''
    \<and> i_nlink (fs_ic s'' ! 0) = 1 \<and> i_size (fs_ic s'' ! 0) = 0"
proof -
  let ?s = "small_fs\<lparr>fs_ic := [small_file]\<rparr>"
  have f: "i_inum small_file < sb_ninodes (fs_sb ?s)" "i_type small_file \<noteq> 0" "1 \<le> i_ref small_file" "length (replicate 13 (9 :: uint)) = NDIRECT + 1"
    "i_nlink small_file = 1" "i_size small_file = 0" "0 < length (fs_ic ?s)" "small_file = fs_ic ?s ! 0"
    by (simp_all add: small_file_def small_fs_def small_sb_def NDIRECT_def)
  from iupdate_ilock [OF small_file_ok(1) f(7,8) small_file_ok(2) f(1-4), where t = 0 and l = 0 and z = 5] show ?thesis
    using f(5,6) by auto
qed

end
