(* ===== verification/Fs_Dirs.thy ===== *)
theory Fs_Dirs
  imports Fs_Files
begin

text \<open>
  Directories: the contents of a directory are a list of entries of 16 bytes, and \<^verbatim>\<open>dirlookup\<close> and \<^verbatim>\<open>dirlink\<close> search and extend that list.
  The theory also shows what \<^verbatim>\<open>iget\<close> does to the inode cache.
\<close>

section \<open>Names\<close>

text \<open>The characters of a name that count: those before the NUL, \<open>n\<close> at most.\<close>

definition cname :: "nat \<Rightarrow> byte list \<Rightarrow> byte list" where
  "cname n p = takeWhile (\<lambda>c. c \<noteq> 0) (take n p)"

definition name_ok :: "nat \<Rightarrow> byte list \<Rightarrow> bool" where
  "name_ok n p \<longleftrightarrow> n \<le> length p \<or> 0 \<in> set p"

lemma cname_simps [simp]: "cname 0 p = []" "cname (Suc n) (c # p) = (if c = 0 then [] else c # cname n p)"
  by (simp_all add: cname_def)

lemma strncmp_zero:
  "name_ok n p \<Longrightarrow> n \<le> length q \<Longrightarrow> \<exists>r. strncmp p q n = Some r \<and> (r = 0 \<longleftrightarrow> cname n p = cname n q)"
proof (induction n arbitrary: p q)
  case (Suc n)
  obtain c p' d q' where p: "p = c # p'" "q = d # q'" using Suc.prems by (cases p; cases q) (auto simp: name_ok_def)
  show ?case
  proof (cases "c \<noteq> 0 \<and> c = d")
    case True
    then show ?thesis using Suc.IH [of p' q'] Suc.prems p by (auto simp: name_ok_def)
  next
    case False
    have "uint c - uint d = 0 \<longleftrightarrow> c = d" by (auto dest: unsigned_word_eqI)
    then show ?thesis using False p by auto
  qed
qed simp

lemma strncpy_pad_zeros: "n \<le> length s \<Longrightarrow> strncpy_pad s n = Some (replicate n 0 @ drop n s)"
  by (induction s n rule: strncpy_pad.induct) auto

lemma strncpy_name:
  "name_ok n t \<Longrightarrow> length s = n \<Longrightarrow> \<exists>r. strncpy_nat s t n = Some r \<and> length r = n \<and> cname n r = cname n t"
proof (induction n arbitrary: s t)
  case (Suc n)
  obtain x s' c t' where p: "s = x # s'" "t = c # t'" using Suc.prems by (cases s; cases t) (auto simp: name_ok_def)
  show ?case
  proof (cases "c = 0")
    case True
    then show ?thesis using p Suc.prems by (simp add: strncpy_pad_zeros)
  next
    case False
    then show ?thesis using Suc.IH [of t' s'] Suc.prems p by (auto simp: name_ok_def)
  qed
qed simp

lemma namecmp_iff:
  assumes "name_ok DIRSIZ nm" "DIRSIZ \<le> length q"
  obtains r where "namecmp nm q = Some r" "r = 0 \<longleftrightarrow> cname DIRSIZ nm = cname DIRSIZ q"
  using strncmp_zero [OF assms] by (auto simp: namecmp_def)

section \<open>Entries\<close>

definition dent :: "fs \<Rightarrow> inode \<Rightarrow> nat \<Rightarrow> byte list" where
  "dent s ip k = map (fbyte s ip) [DIRENT * k..<DIRENT * k + DIRENT]"

definition dents :: "inode \<Rightarrow> nat" where
  "dents ip = unat (i_size ip) div DIRENT"

definition dir_ok :: "fs \<Rightarrow> nat \<Rightarrow> bool" where
  "dir_ok s i \<longleftrightarrow> fs_ok s \<and> i < length (fs_ic s) \<and> file_ok s (fs_ic s ! i) \<and> no_holes s (fs_ic s ! i) \<and> i_type (fs_ic s ! i) = T_DIR
     \<and> unat (i_size (fs_ic s ! i)) mod DIRENT = 0"

definition is_entry :: "fs \<Rightarrow> inode \<Rightarrow> byte list \<Rightarrow> nat \<Rightarrow> bool" where
  "is_entry s ip nm k \<longleftrightarrow> get16 (dent s ip k) 0 \<noteq> 0 \<and> cname DIRSIZ (drop 2 (dent s ip k)) = cname DIRSIZ nm"

text \<open>The specification: the first entry in use with the name, from entry \<open>k\<close> on.\<close>

definition dir_find :: "fs \<Rightarrow> inode \<Rightarrow> byte list \<Rightarrow> nat \<Rightarrow> nat option" where
  "dir_find s ip nm k = map_option ((+) k) (find_index (is_entry s ip nm) [k..<dents ip])"

lemma dir_find_step:
  "k < dents ip \<Longrightarrow> dir_find s ip nm k = (if is_entry s ip nm k then Some k else dir_find s ip nm (Suc k))"
  "\<not> k < dents ip \<Longrightarrow> dir_find s ip nm k = None"
  by (auto simp: dir_find_def upt_conv_Cons option.map_comp comp_def intro!: option.map_cong)

lemma length_dent [simp]: "length (dent s ip k) = DIRENT"
  by (simp add: dent_def)

lemma dir_okD:
  assumes "dir_ok s i"
  shows "fs_ok s" "i < length (fs_ic s)" "file_ok s (fs_ic s ! i)" "no_holes s (fs_ic s ! i)" "i_type (fs_ic s ! i) = T_DIR"
    "unat (i_size (fs_ic s ! i)) = DIRENT * dents (fs_ic s ! i)" "unat (i_size (fs_ic s ! i)) \<le> MAXFILE * BSIZE"
  using assms by (auto simp: dir_ok_def dents_def no_holes_def)

lemma read_dent:
  assumes "dir_ok s i" "k < dents (fs_ic s ! i)"
  shows "readi i (word_of_nat (DIRENT * k)) (word_of_nat DIRENT) s = Ok (Done (int DIRENT) (dent s (fs_ic s ! i) k), s)"
    "unat (word_of_nat (DIRENT * k) :: uint) = DIRENT * k" "DIRENT * k < unat (i_size (fs_ic s ! i))" "DIRENT * k < 4294967296"
proof -
  note D = dir_okD [OF assms(1)]
  have "DIRENT * k + DIRENT \<le> DIRENT * dents (fs_ic s ! i)" using assms(2) by (simp add: DIRENT_def)
  then have le: "DIRENT * k + DIRENT \<le> unat (i_size (fs_ic s ! i))" using D(6) by simp
  then show "DIRENT * k < unat (i_size (fs_ic s ! i))" by (simp add: DIRENT_def)
  show small: "DIRENT * k < 4294967296" using le D(7) by (simp add: slot_nums BSIZE_def)
  then show u: "unat (word_of_nat (DIRENT * k) :: uint) = DIRENT * k" by (rule unat_of_nat_small)
  have n: "unat (word_of_nat DIRENT :: uint) = DIRENT" "sint (word_of_nat DIRENT :: uint) = int DIRENT" by (simp_all add: DIRENT_def)
  have t: "i_type (fs_ic s ! i) \<noteq> T_DEV" using D(5) by (simp add: T_DIR_def T_DEV_def)
  show "readi i (word_of_nat (DIRENT * k)) (word_of_nat DIRENT) s = Ok (Done (int DIRENT) (dent s (fs_ic s ! i) k), s)"
    using readi_spec [OF D(1,3,4) t, of "word_of_nat (DIRENT * k)" "word_of_nat DIRENT"] le unfolding u n by (simp add: dent_def)
qed

lemma dirlookup_from_spec:
  assumes "dir_ok s i" "name_ok DIRSIZ nm" "k \<le> dents (fs_ic s ! i)"
  shows "dirlookup_from i nm (DIRENT * k) s =
    (case dir_find s (fs_ic s ! i) nm k of
       None \<Rightarrow> Ok (None, s)
     | Some j \<Rightarrow> bind_res (iget (i_dev (fs_ic s ! i)) (ucast (get16 (dent s (fs_ic s ! i) j) 0)) s) (\<lambda>(q, s1).
         Ok (Some (q, word_of_nat (DIRENT * j)), s1)))"
  using assms(3)
proof (induction "dents (fs_ic s ! i) - k" arbitrary: k)
  case 0
  then show ?case using dir_okD(6) [OF assms(1)] by (subst dirlookup_from.simps) (simp add: dir_find_step)
next
  case (Suc n)
  let ?d = "dent s (fs_ic s ! i) k"
  have k: "k < dents (fs_ic s ! i)" using Suc.hyps(2) by simp
  note R = read_dent [OF assms(1) k]
  have IH: "dirlookup_from i nm (DIRENT * k + DIRENT) s =
    (case dir_find s (fs_ic s ! i) nm (Suc k) of None \<Rightarrow> Ok (None, s)
     | Some j \<Rightarrow> bind_res (iget (i_dev (fs_ic s ! i)) (ucast (get16 (dent s (fs_ic s ! i) j) 0)) s) (\<lambda>(q, s1).
         Ok (Some (q, word_of_nat (DIRENT * j)), s1)))"
    using Suc.hyps(1) [of "Suc k"] Suc.hyps(2) k by (simp add: add.commute)
  obtain r where r: "namecmp nm (drop 2 ?d) = Some r" "r = 0 \<longleftrightarrow> cname DIRSIZ nm = cname DIRSIZ (drop 2 ?d)"
    by (rule namecmp_iff [OF assms(2), of "drop 2 ?d"]) (simp_all add: DIRENT_def DIRSIZ_def)
  show ?case using R r IH k
    by (subst dirlookup_from.simps) (auto simp: dir_find_step is_entry_def)
qed

lemma dirlookup_spec:
  assumes "dir_ok s i" "name_ok DIRSIZ nm"
  shows "dirlookup i nm s =
    (case dir_find s (fs_ic s ! i) nm 0 of
       None \<Rightarrow> Ok (None, s)
     | Some j \<Rightarrow> bind_res (iget (i_dev (fs_ic s ! i)) (ucast (get16 (dent s (fs_ic s ! i) j) 0)) s) (\<lambda>(q, s1).
         Ok (Some (q, word_of_nat (DIRENT * j)), s1)))"
  using dirlookup_from_spec [OF assms, of 0] dir_okD(5) [OF assms(1)] by (simp add: dirlookup_def)

lemma empty_from_spec:
  assumes "dir_ok s i" "k \<le> dents (fs_ic s ! i)"
  shows "\<exists>j. empty_from i (DIRENT * k) s = Ok (DIRENT * j, s) \<and> j \<le> dents (fs_ic s ! i)
    \<and> (j < dents (fs_ic s ! i) \<longrightarrow> get16 (dent s (fs_ic s ! i) j) 0 = 0)"
  using assms(2)
proof (induction "dents (fs_ic s ! i) - k" arbitrary: k)
  case 0
  then show ?case using dir_okD(6) [OF assms(1)] by (subst empty_from.simps) auto
next
  case (Suc n)
  have k: "k < dents (fs_ic s ! i)" using Suc.hyps(2) by simp
  note R = read_dent [OF assms(1) k]
  show ?case
  proof (cases "get16 (dent s (fs_ic s ! i) k) 0 = 0")
    case True
    then show ?thesis using R k by (subst empty_from.simps) auto
  next
    case False
    have "empty_from i (DIRENT * k) s = empty_from i (DIRENT * Suc k) s"
      using R False by (subst empty_from.simps) (simp add: add.commute)
    then show ?thesis using Suc.hyps(1) [of "Suc k"] Suc.hyps(2) k by simp
  qed
qed

lemma dir_find_Some: "dir_find s ip nm 0 = Some j \<longleftrightarrow> j < dents ip \<and> is_entry s ip nm j \<and> (\<forall>m < j. \<not> is_entry s ip nm m)"
  by (auto simp: dir_find_def find_index_Some)

lemma dir_find_None: "dir_find s ip nm 0 = None \<longleftrightarrow> (\<forall>m < dents ip. \<not> is_entry s ip nm m)"
  by (auto simp: dir_find_def find_index_None)

lemma dir_find_cong:
  assumes "\<And>m. is_entry s ip nm m \<and> m < dents ip \<longleftrightarrow> is_entry s' ip' nm m \<and> m < dents ip'"
  shows "dir_find s' ip' nm 0 = dir_find s ip nm 0"
proof (cases "dir_find s ip nm 0")
  case None
  then show ?thesis using assms unfolding dir_find_None by (metis dir_find_None)
next
  case (Some j)
  then have "dir_find s' ip' nm 0 = Some j" using assms unfolding dir_find_Some by (meson less_trans)
  then show ?thesis using Some by simp
qed

lemma get16_bytes: "get16 (bytes16 v @ x) 0 = v"
  by (simp add: get16_def bytes16_def nth_append join16)

lemma touched_entry: "touched (DIRENT * j) DIRENT = 1"
proof -
  have "DIRENT * j mod 512 = DIRENT * (j mod 32)" using mult_mod_right [of 16 j 32] by (simp add: DIRENT_def)
  moreover have "j mod 32 < 32" by simp
  ultimately have "DIRENT * j mod 512 + DIRENT + 512 - 1 = 512 + (DIRENT * (j mod 32) + 15)" "DIRENT * (j mod 32) + 15 < 512"
    by (simp_all add: DIRENT_def)
  then show ?thesis by (simp add: touched_def BSIZE_def) (simp add: DIRENT_def)
qed

text \<open>Writing one entry: the others stay, and the list grows by one at most.\<close>

lemma write_dent:
  assumes "dir_ok s i" "i_inum (fs_ic s ! i) < sb_ninodes (fs_sb s)" "j \<le> dents (fs_ic s ! i)" "DIRENT * j + DIRENT \<le> MAXFILE * BSIZE"
    "length src = DIRENT" "2 \<le> nfree s"
  shows "\<exists>s'. writei i src (word_of_nat (DIRENT * j)) (word_of_nat DIRENT) s = Ok (Done (int DIRENT) [], s') \<and> dir_ok s' i
    \<and> dents (fs_ic s' ! i) = max (dents (fs_ic s ! i)) (Suc j) \<and> i_dev (fs_ic s' ! i) = i_dev (fs_ic s ! i)
    \<and> (\<forall>m < dents (fs_ic s' ! i). dent s' (fs_ic s' ! i) m = (if m = j then src else dent s (fs_ic s ! i) m))"
proof -
  let ?ip = "fs_ic s ! i" and ?o = "word_of_nat (DIRENT * j) :: uint" and ?n = "word_of_nat DIRENT :: uint"
  note D = dir_okD [OF assms(1)]
  have small: "MAXFILE * BSIZE < 4294967296" by (simp add: slot_nums BSIZE_def)
  have u: "unat ?o = DIRENT * j" using assms(4) small by (intro unat_of_nat_small) (simp add: DIRENT_def)
  have n: "unat ?n = DIRENT" "sint ?n = int DIRENT" by (simp_all add: DIRENT_def)
  have t: "i_type ?ip \<noteq> T_DEV" using D(5) by (simp add: T_DIR_def T_DEV_def)
  have off: "?o \<le> i_size ?ip" using assms(3) u D(6) by (simp add: word_le_nat_alt)
  have un: "unat (?o + ?n) = DIRENT * j + DIRENT" using assms(4) small u n(1) by (subst uint_no_wrap) simp_all
  obtain s' as z where s': "writei i src ?o ?n s = Ok (Done (int DIRENT) [], s')" "fs_ok s'" "file_ok s' (fs_ic s' ! i)" "no_holes s' (fs_ic s' ! i)"
    "i_size (fs_ic s' ! i) = max (i_size ?ip) (?o + ?n)" "fs_ic s' = (fs_ic s)[i := ?ip\<lparr>i_addrs := as, i_size := z\<rparr>]"
    "\<forall>k < MAXFILE * BSIZE. fbyte s' (fs_ic s' ! i) k = (if DIRENT * j \<le> k \<and> k < DIRENT * j + DIRENT then src ! (k - DIRENT * j) else fbyte s ?ip k)"
    using writei_spec [OF D(1-4) t assms(2) off, of ?n src] assms(4-6) unfolding u n touched_entry by auto
  have "unat (i_size (fs_ic s' ! i)) = max (unat (i_size ?ip)) (DIRENT * j + DIRENT)" unfolding s'(5) un [symmetric] by (simp add: max_def word_le_nat_alt)
  also have "\<dots> = DIRENT * max (dents ?ip) (Suc j)" using D(6) by (simp add: max_def DIRENT_def)
  finally have sz: "unat (i_size (fs_ic s' ! i)) = DIRENT * max (dents ?ip) (Suc j)" .
  then have d: "dents (fs_ic s' ! i) = max (dents ?ip) (Suc j)" by (simp add: dents_def DIRENT_def)
  have ok: "dir_ok s' i" using s'(2-4,6) D(2,5) sz by (simp add: dir_ok_def)
  have "dent s' (fs_ic s' ! i) m = (if m = j then src else dent s ?ip m)" if m: "m < dents (fs_ic s' ! i)" for m
  proof (rule nth_equalityI)
    show "length (dent s' (fs_ic s' ! i) m) = length (if m = j then src else dent s ?ip m)" using assms(5) by simp
    fix k
    assume "k < length (dent s' (fs_ic s' ! i) m)"
    then have k: "k < DIRENT" by simp
    have "DIRENT * m + DIRENT \<le> DIRENT * dents (fs_ic s' ! i)" using m by (simp add: DIRENT_def)
    then have lt: "DIRENT * m + k < MAXFILE * BSIZE" using k dir_okD(6,7) [OF ok] by linarith
    have "DIRENT * j \<le> DIRENT * m + k \<and> DIRENT * m + k < DIRENT * j + DIRENT \<longleftrightarrow> m = j" using k by (auto simp: DIRENT_def)
    then show "dent s' (fs_ic s' ! i) m ! k = (if m = j then src else dent s ?ip m) ! k"
      using s'(7) lt k by (simp add: dent_def)
  qed
  then show ?thesis using s'(1,6) ok d D(2) by (intro exI [of _ s']) simp
qed

section \<open>Properties\<close>

text \<open>C24: a name that \<^verbatim>\<open>dirlink\<close> enters is found by \<^verbatim>\<open>dirlookup\<close>. On a directory without the name and a disk with room, \<^verbatim>\<open>dirlink\<close> succeeds and keeps the
  directory well formed; \<^verbatim>\<open>dirlookup\<close> then gives the inode that was entered and the place of its entry, and finds every other name exactly where
  it was, or not at all if it was not there.\<close>

theorem dirlink_dirlookup:
  assumes "dir_ok s i" "name_ok DIRSIZ nm" "(ucast inum :: ushort) \<noteq> 0" "i_inum (fs_ic s ! i) < sb_ninodes (fs_sb s)"
    "dir_find s (fs_ic s ! i) nm 0 = None" "unat (i_size (fs_ic s ! i)) + DIRENT \<le> MAXFILE * BSIZE" "2 \<le> nfree s"
  shows "\<exists>s' k. dirlink i nm inum s = Ok (0, s') \<and> dir_ok s' i
    \<and> dirlookup i nm s' = bind_res (iget (i_dev (fs_ic s' ! i)) (ucast (ucast inum :: ushort)) s') (\<lambda>(q, s1).
        Ok (Some (q, word_of_nat (DIRENT * k)), s1))
    \<and> (\<forall>nm'. cname DIRSIZ nm' \<noteq> cname DIRSIZ nm \<longrightarrow> dir_find s' (fs_ic s' ! i) nm' 0 = dir_find s (fs_ic s ! i) nm' 0)"
proof -
  let ?ip = "fs_ic s ! i"
  note D = dir_okD [OF assms(1)]
  obtain j where j: "empty_from i 0 s = Ok (DIRENT * j, s)" "j \<le> dents ?ip" "j < dents ?ip \<longrightarrow> get16 (dent s ?ip j) 0 = 0"
    using empty_from_spec [OF assms(1), of 0] by auto
  obtain name where name: "strncpy (replicate DIRSIZ 0) nm (int DIRSIZ) = Some name" "length name = DIRSIZ" "cname DIRSIZ name = cname DIRSIZ nm"
    using strncpy_name [OF assms(2), of "replicate DIRSIZ 0"] by (auto simp: strncpy_def)
  let ?src = "bytes16 (ucast inum) @ name"
  have "DIRENT * j + DIRENT \<le> MAXFILE * BSIZE" using j(2) assms(6) D(6) mult_le_mono2 [OF j(2), of DIRENT] by linarith
  moreover have "length ?src = DIRENT" using name(2) by (simp add: DIRENT_def DIRSIZ_def)
  ultimately obtain s' where s': "writei i ?src (word_of_nat (DIRENT * j)) (word_of_nat DIRENT) s = Ok (Done (int DIRENT) [], s')" "dir_ok s' i"
      "dents (fs_ic s' ! i) = max (dents ?ip) (Suc j)"
      "\<forall>m < dents (fs_ic s' ! i). dent s' (fs_ic s' ! i) m = (if m = j then ?src else dent s ?ip m)"
    using write_dent [OF assms(1,4) j(2)] assms(7) by blast
  have "dirlookup i nm s = Ok (None, s)" using dirlookup_spec [OF assms(1,2)] assms(5) by simp
  then have link: "dirlink i nm inum s = Ok (0, s')" using j(1) name(1) s'(1) by (simp add: dirlink_def)
  have ent: "is_entry s' (fs_ic s' ! i) x m \<longleftrightarrow> (if m = j then cname DIRSIZ x = cname DIRSIZ nm else is_entry s ?ip x m)"
    if "m < dents (fs_ic s' ! i)" for x m
    using s'(4) that name(3) assms(3) by (auto simp: is_entry_def get16_bytes)
  have none: "\<not> is_entry s ?ip x j" if "j < dents ?ip" for x using j(3) that by (simp add: is_entry_def)
  have "dir_find s' (fs_ic s' ! i) nm 0 = Some j"
    unfolding dir_find_Some using ent s'(3) assms(5) [unfolded dir_find_None] j(2) by auto
  moreover have "get16 (dent s' (fs_ic s' ! i) j) 0 = ucast inum" using s'(3,4) by (simp add: get16_bytes)
  ultimately have "dirlookup i nm s' = bind_res (iget (i_dev (fs_ic s' ! i)) (ucast (ucast inum :: ushort)) s') (\<lambda>(q, s1).
      Ok (Some (q, word_of_nat (DIRENT * j)), s1))"
    using dirlookup_spec [OF s'(2) assms(2)] by simp
  moreover have "dir_find s' (fs_ic s' ! i) x 0 = dir_find s ?ip x 0" if "cname DIRSIZ x \<noteq> cname DIRSIZ nm" for x
  proof (rule dir_find_cong)
    fix m
    show "is_entry s ?ip x m \<and> m < dents ?ip \<longleftrightarrow> is_entry s' (fs_ic s' ! i) x m \<and> m < dents (fs_ic s' ! i)"
    proof (cases "m = j")
      case True
      have "\<not> (is_entry s' (fs_ic s' ! i) x j \<and> j < dents (fs_ic s' ! i))" using ent [of j x] that by auto
      moreover have "\<not> (is_entry s ?ip x j \<and> j < dents ?ip)" using none by blast
      ultimately show ?thesis unfolding True by blast
    next
      case False
      then show ?thesis using ent [of m x] s'(3) j(2) by auto
    qed
  qed
  ultimately show ?thesis using link s'(2) by blast
qed

theorem dirlink_dirlookup_witness:
  "\<exists>s' k. dirlink 0 [97, 0] 5 (small_fs\<lparr>fs_ic := [small_file\<lparr>i_type := T_DIR\<rparr>]\<rparr>) = Ok (0, s') \<and> dir_find s' (fs_ic s' ! 0) [98, 0] 0 = None
    \<and> dirlookup 0 [97, 0] s' = bind_res (iget (i_dev (fs_ic s' ! 0)) 5 s') (\<lambda>(q, s1). Ok (Some (q, word_of_nat (DIRENT * k)), s1))"
proof -
  let ?ip = "small_file\<lparr>i_type := T_DIR\<rparr>"
  let ?s = "small_fs\<lparr>fs_ic := [?ip]\<rparr>" and ?f = "small_fs\<lparr>fs_ic := [small_file]\<rparr>"
  have slots: "slot ?s ?ip = slot ?f small_file" by (simp add: slot_def fun_eq_iff)
  have u: "used ?s = used ?f" by (simp add: used_def fun_eq_iff)
  have a: "fs_ok ?s" "file_ok ?s ?ip" "no_holes ?s ?ip" "2 \<le> nfree ?s"
    using small_file_ok slots u by (simp_all add: fs_ok_def file_ok_def no_holes_def nfree_def fblock_def)
  have z: "i_size ?ip = 0" "i_inum ?ip = 2" by (simp_all add: small_file_def)
  have d: "dir_ok ?s 0" using a z by (simp add: dir_ok_def)
  have n: "dir_find ?s (fs_ic ?s ! 0) x 0 = None" for x using z by (simp add: dir_find_def dents_def)
  have "\<exists>s' k. dirlink 0 [97, 0] 5 ?s = Ok (0, s') \<and> dir_ok s' 0
    \<and> dirlookup 0 [97, 0] s' = bind_res (iget (i_dev (fs_ic s' ! 0)) (ucast (ucast (5 :: uint) :: ushort)) s') (\<lambda>(q, s1).
        Ok (Some (q, word_of_nat (DIRENT * k)), s1))
    \<and> (\<forall>nm'. cname DIRSIZ nm' \<noteq> cname DIRSIZ [97, 0] \<longrightarrow> dir_find s' (fs_ic s' ! 0) nm' 0 = dir_find ?s (fs_ic ?s ! 0) nm' 0)"
    by (rule dirlink_dirlookup [OF d _ _ _ n]) (use a(4) z in \<open>simp_all add: name_ok_def small_fs_def small_sb_def DIRENT_def slot_nums BSIZE_def\<close>)
  moreover have "cname DIRSIZ [98, 0] \<noteq> cname DIRSIZ [97, 0]" by (simp add: DIRSIZ_def cname_def)
  ultimately show ?thesis using n by auto
qed

text \<open>The inode cache is well formed if no count is negative and no inode is cached twice.\<close>

definition cached :: "uint \<Rightarrow> uint \<Rightarrow> inode \<Rightarrow> bool" where
  "cached dev inum ip \<longleftrightarrow> i_ref ip > 0 \<and> i_dev ip = dev \<and> i_inum ip = inum"

definition icache_ok :: "inode list \<Rightarrow> bool" where
  "icache_ok ic \<longleftrightarrow> (\<forall>ip \<in> set ic. i_ref ip \<ge> 0)
     \<and> (\<forall>i < length ic. \<forall>j < length ic. i_ref (ic ! i) > 0 \<longrightarrow> cached (i_dev (ic ! i)) (i_inum (ic ! i)) (ic ! j) \<longrightarrow> i = j)"

lemma icache_ok_update:
  assumes "icache_ok ic" "k < length ic" "i_ref x > 0" "\<And>j. j < length ic \<Longrightarrow> j \<noteq> k \<Longrightarrow> \<not> cached (i_dev x) (i_inum x) (ic ! j)"
  shows "icache_ok (ic[k := x])"
proof -
  have "i_ref ip \<ge> 0" if "ip \<in> set (ic[k := x])" for ip
    using that assms(1,3) set_update_subset_insert [of ic k x] by (auto simp: icache_ok_def)
  moreover have "i = j" if h: "i < length ic" "j < length ic" "i_ref (ic[k := x] ! i) > 0"
      "cached (i_dev (ic[k := x] ! i)) (i_inum (ic[k := x] ! i)) (ic[k := x] ! j)" for i j
  proof (cases "i = k \<or> j = k")
    case True
    then show ?thesis using h assms(2,3) assms(4) [of i] assms(4) [of j] by (auto simp: nth_list_update cached_def split: if_splits)
  next
    case False
    then show ?thesis using h assms(1) by (auto simp: icache_ok_def)
  qed
  ultimately show ?thesis by (simp add: icache_ok_def)
qed

text \<open>C30: \<^verbatim>\<open>iget\<close> keeps the inode cache well formed: an inode has one entry at most, so that its lock and its data are shared by all who use it. It gives the
  entry of the inode if there is one, with one reference more and nothing else changed; otherwise a free entry, marked as not yet read; the other entries stay. It
  panics only if the inode is not cached and all entries are in use.\<close>

theorem iget_correct:
  assumes "icache_ok (fs_ic s)"
  shows "case iget dev inum s of
      Ok (i, s') \<Rightarrow> icache_ok (fs_ic s') \<and> i < length (fs_ic s) \<and> length (fs_ic s') = length (fs_ic s) \<and> cached dev inum (fs_ic s' ! i)
        \<and> (\<forall>j. j \<noteq> i \<longrightarrow> fs_ic s' ! j = fs_ic s ! j)
        \<and> (if cached dev inum (fs_ic s ! i) then fs_ic s' ! i = (fs_ic s ! i)\<lparr>i_ref := i_ref (fs_ic s ! i) + 1\<rparr>
           else i_ref (fs_ic s ! i) = 0 \<and> i_ref (fs_ic s' ! i) = 1 \<and> \<not> i_valid (fs_ic s' ! i) \<and> (\<forall>ip \<in> set (fs_ic s). \<not> cached dev inum ip))
    | Panic m \<Rightarrow> \<forall>ip \<in> set (fs_ic s). i_ref ip > 0 \<and> \<not> cached dev inum ip
    | _ \<Rightarrow> False"
proof (cases "find_index (cached dev inum) (fs_ic s)")
  case (Some i)
  note F = find_index_SomeD [OF Some]
  let ?x = "(fs_ic s ! i)\<lparr>i_ref := i_ref (fs_ic s ! i) + 1\<rparr>"
  have "\<not> cached dev inum (fs_ic s ! j)" if "j < length (fs_ic s)" "j \<noteq> i" for j
    using assms F(1,2) that by (auto simp: icache_ok_def cached_def)
  then have "icache_ok ((fs_ic s)[i := ?x])" using F(2) by (intro icache_ok_update [OF assms F(1)]) (auto simp: cached_def)
  moreover have "iget dev inum s = Ok (i, s\<lparr>fs_ic := (fs_ic s)[i := ?x]\<rparr>)" using Some by (simp add: iget_def set_inode_def cached_def [abs_def])
  ultimately show ?thesis using F(1,2) by (auto simp: cached_def)
next
  case None
  then have n: "\<forall>ip \<in> set (fs_ic s). \<not> cached dev inum ip" by (simp add: find_index_None)
  show ?thesis
  proof (cases "find_index (\<lambda>ip. i_ref ip = 0) (fs_ic s)")
    case e: None
    then have "\<forall>ip \<in> set (fs_ic s). i_ref ip > 0" using assms by (force simp: find_index_None icache_ok_def)
    then show ?thesis using None e n by (simp add: iget_def cached_def [abs_def])
  next
    case (Some i)
    note F = find_index_SomeD [OF Some]
    let ?x = "(fs_ic s ! i)\<lparr>i_dev := dev, i_inum := inum, i_ref := 1, i_valid := False\<rparr>"
    have "icache_ok ((fs_ic s)[i := ?x])" using n by (intro icache_ok_update [OF assms F(1)]) auto
    moreover have "iget dev inum s = Ok (i, s\<lparr>fs_ic := (fs_ic s)[i := ?x]\<rparr>)" using None Some by (simp add: iget_def set_inode_def cached_def [abs_def])
    ultimately show ?thesis using F(1,2) n by (auto simp: cached_def)
  qed
qed

theorem iget_correct_witness:
  "\<exists>s'. iget 1 7 (small_fs\<lparr>fs_ic := [small_file, small_file\<lparr>i_ref := 0\<rparr>]\<rparr>) = Ok (1, s') \<and> icache_ok (fs_ic s') \<and> fs_ic s' ! 0 = small_file"
proof -
  let ?s = "small_fs\<lparr>fs_ic := [small_file, small_file\<lparr>i_ref := 0\<rparr>]\<rparr>"
  have "icache_ok (fs_ic ?s)" by (auto simp: icache_ok_def cached_def small_file_def less_Suc_eq)
  from iget_correct [OF this, of 1 7] show ?thesis by (auto simp: iget_def small_file_def set_inode_def)
qed

end
