(* ===== verification/Pipe.thy ===== *)
theory Pipe
  imports Prelude
begin

text \<open>
  Pipes (pipe.c): a ring of \<open>PIPESIZE\<close> bytes with two free-running counters. A call that has to sleep returns \<open>Sleep\<close> with the channel;
  when the process is woken it goes on with \<open>pipewrite_from\<close> at the byte it had reached, or with \<open>piperead\<close> from the start, as the
  loops of the code do. The channels passed to \<^verbatim>\<open>wakeup\<close> are part of the result. The page a pipe lives in is allocated in theory \<^verbatim>\<open>File\<close>.
\<close>

section \<open>Definitions\<close>

definition PIPESIZE :: nat where "PIPESIZE = 512"

record pipe =
  p_data :: "byte list"
  p_nread :: uint
  p_nwrite :: uint
  p_readopen :: bool
  p_writeopen :: bool

datatype pchan = NRead | NWrite

datatype 'a ptry = Return 'a | Sleep pchan

text \<open>The fields \<^verbatim>\<open>pipealloc\<close> sets in the page \<open>d\<close> it got.\<close>

definition pipe_init :: "byte list \<Rightarrow> pipe" where
  "pipe_init d = \<lparr>p_data = d, p_nread = 0, p_nwrite = 0, p_readopen = True, p_writeopen = True\<rparr>"

text \<open>The result says whether the page is freed.\<close>

definition pipeclose :: "pipe \<Rightarrow> bool \<Rightarrow> pchan list \<times> bool \<times> pipe" where
  "pipeclose p writable =
     (let (w, p1) = (if writable then ([NRead], p\<lparr>p_writeopen := False\<rparr>) else ([NWrite], p\<lparr>p_readopen := False\<rparr>))
      in (w, \<not> p_readopen p1 \<and> \<not> p_writeopen p1, p1))"

definition put_byte :: "byte \<Rightarrow> pipe \<Rightarrow> pipe" where
  "put_byte c p = p\<lparr>p_data := (p_data p)[unat (p_nwrite p) mod PIPESIZE := c], p_nwrite := p_nwrite p + 1\<rparr>"

function pipewrite_from :: "bool \<Rightarrow> byte list \<Rightarrow> nat \<Rightarrow> pipe \<Rightarrow> int ptry \<times> nat \<times> pchan list \<times> pipe" where
  "pipewrite_from killed src i p =
     (if i \<ge> length src then (Return (int (length src)), i, [NRead], p)
      else if p_nwrite p = p_nread p + word_of_nat PIPESIZE
      then if \<not> p_readopen p \<or> killed then (Return (-1), i, [], p) else (Sleep NWrite, i, [NRead], p)
      else pipewrite_from killed src (Suc i) (put_byte (src ! i) p))"
  by pat_completeness auto
termination
  by (relation "measure (\<lambda>(killed, src, i, p). length src - i)") auto

declare pipewrite_from.simps [simp del]

definition pipewrite :: "bool \<Rightarrow> byte list \<Rightarrow> pipe \<Rightarrow> int ptry \<times> nat \<times> pchan list \<times> pipe" where
  "pipewrite killed src p = pipewrite_from killed src 0 p"

fun piperead_copy :: "nat \<Rightarrow> pipe \<Rightarrow> byte list \<times> pipe" where
  "piperead_copy 0 p = ([], p)"
| "piperead_copy (Suc n) p =
     (if p_nread p = p_nwrite p then ([], p)
      else let (ds, p1) = piperead_copy n (p\<lparr>p_nread := p_nread p + 1\<rparr>)
           in (p_data p ! (unat (p_nread p) mod PIPESIZE) # ds, p1))"

definition piperead :: "bool \<Rightarrow> nat \<Rightarrow> pipe \<Rightarrow> (int \<times> byte list) ptry \<times> pchan list \<times> pipe" where
  "piperead killed n p =
     (if p_nread p = p_nwrite p \<and> p_writeopen p
      then if killed then (Return (-1, []), [], p) else (Sleep NRead, [], p)
      else let (ds, p1) = piperead_copy n p in (Return (int (length ds), ds), [NWrite], p1))"

section \<open>A queue of bytes\<close>

datatype qop = Put "byte list" | Get nat

fun run_q :: "(byte list \<Rightarrow> 'q \<Rightarrow> nat \<times> 'q) \<Rightarrow> (nat \<Rightarrow> 'q \<Rightarrow> byte list \<times> 'q) \<Rightarrow> qop list \<Rightarrow> 'q \<Rightarrow> byte list \<times> byte list \<times> 'q" where
  "run_q put get [] q = ([], [], q)"
| "run_q put get (Put bs # ops) q =
     (let (n, q1) = put bs q; (ins, outs, q2) = run_q put get ops q1 in (take n bs @ ins, outs, q2))"
| "run_q put get (Get n # ops) q =
     (let (ds, q1) = get n q; (ins, outs, q2) = run_q put get ops q1 in (ins, ds @ outs, q2))"

locale byte_queue =
  fixes ok :: "'q \<Rightarrow> bool" and content :: "'q \<Rightarrow> byte list" and cap :: nat
    and put :: "byte list \<Rightarrow> 'q \<Rightarrow> nat \<times> 'q" and get :: "nat \<Rightarrow> 'q \<Rightarrow> byte list \<times> 'q"
  assumes bounded: "\<And>q. ok q \<Longrightarrow> length (content q) \<le> cap"
    and put_law: "\<And>q bs n q'. ok q \<Longrightarrow> put bs q = (n, q') \<Longrightarrow> ok q' \<and> n \<le> length bs \<and> content q' = content q @ take n bs"
    and get_law: "\<And>q k ds q'. ok q \<Longrightarrow> get k q = (ds, q') \<Longrightarrow> ok q' \<and> content q = ds @ content q' \<and> length ds \<le> k"
begin

lemma run_fifo:
  assumes "ok q" "run_q put get ops q = (ins, outs, q')"
  shows "ok q' \<and> content q @ ins = outs @ content q'"
  using assms
proof (induction ops arbitrary: q ins outs)
  case (Cons x ops)
  show ?case
  proof (cases x)
    case (Put bs)
    obtain n q1 ins' where p: "put bs q = (n, q1)" "run_q put get ops q1 = (ins', outs, q')" "ins = take n bs @ ins'"
      using Cons.prems(2) Put by (auto simp: split_beta Let_def prod_eq_iff)
    note L = put_law [OF Cons.prems(1) p(1)]
    show ?thesis using Cons.IH [of q1 ins' outs] L p by simp
  next
    case (Get k)
    obtain ds q1 outs' where p: "get k q = (ds, q1)" "run_q put get ops q1 = (ins, outs', q')" "outs = ds @ outs'"
      using Cons.prems(2) Get by (auto simp: split_beta Let_def prod_eq_iff)
    note L = get_law [OF Cons.prems(1) p(1)]
    show ?thesis using Cons.IH [of q1 ins outs'] L p by simp
  qed
qed simp

end

section \<open>The ring holds a queue\<close>

definition pipe_len :: "pipe \<Rightarrow> nat" where
  "pipe_len p = unat (p_nwrite p - p_nread p)"

definition pipe_ok :: "pipe \<Rightarrow> bool" where
  "pipe_ok p \<longleftrightarrow> length (p_data p) = PIPESIZE \<and> pipe_len p \<le> PIPESIZE"

definition pipe_content :: "pipe \<Rightarrow> byte list" where
  "pipe_content p = map (\<lambda>k. p_data p ! ((unat (p_nread p) + k) mod PIPESIZE)) [0..<pipe_len p]"

lemma length_pipe_content [simp]: "length (pipe_content p) = pipe_len p"
  by (simp add: pipe_content_def)

lemma unat_plus_mod: "unat (a + b :: uint) mod PIPESIZE = (unat a + unat b) mod PIPESIZE"
proof -
  have "(512 :: nat) dvd 2 ^ 32" by simp
  then show ?thesis unfolding PIPESIZE_def by (simp add: unat_word_ariths mod_mod_cancel)
qed

lemma nwrite_mod: "unat (p_nwrite p) mod PIPESIZE = (unat (p_nread p) + pipe_len p) mod PIPESIZE"
  using unat_plus_mod [of "p_nread p" "p_nwrite p - p_nread p"] by (simp add: pipe_len_def)

lemma full_iff: "pipe_ok p \<Longrightarrow> p_nwrite p = p_nread p + word_of_nat PIPESIZE \<longleftrightarrow> pipe_len p = PIPESIZE"
proof -
  assume "pipe_ok p"
  have "p_nwrite p = p_nread p + 512 \<longleftrightarrow> p_nwrite p - p_nread p = 512" by (simp add: algebra_simps)
  also have "\<dots> \<longleftrightarrow> unat (p_nwrite p - p_nread p) = 512" unfolding word_unat_eq_iff by simp
  finally show ?thesis by (simp add: pipe_len_def PIPESIZE_def)
qed

lemma mod_apart: "a < b \<Longrightarrow> b - a < PIPESIZE \<Longrightarrow> (x + a) mod PIPESIZE \<noteq> (x + b) mod PIPESIZE"
proof
  assume h: "a < b" "b - a < PIPESIZE" "(x + a) mod PIPESIZE = (x + b) mod PIPESIZE"
  then have "PIPESIZE dvd (x + b) - (x + a)" by (metis mod_eq_dvd_iff_nat add_le_cancel_left less_imp_le)
  then show False using h(1,2) by (auto dest: dvd_imp_le)
qed

lemma put_byte_spec:
  assumes "pipe_ok p" "pipe_len p < PIPESIZE"
  shows "pipe_ok (put_byte c p)" "pipe_content (put_byte c p) = pipe_content p @ [c]" "pipe_len (put_byte c p) = Suc (pipe_len p)"
proof -
  let ?q = "put_byte c p"
  have f: "p_nread ?q = p_nread p" "p_nwrite ?q = p_nwrite p + 1" "p_data ?q = (p_data p)[unat (p_nwrite p) mod PIPESIZE := c]"
    by (simp_all add: put_byte_def)
  have len: "length (p_data p) = PIPESIZE" using assms(1) by (simp add: pipe_ok_def)
  have "unat (p_nwrite p - p_nread p + 1) = unat (p_nwrite p - p_nread p) + 1"
    using assms(2) uint_no_wrap [of "p_nwrite p - p_nread p" 1] by (simp add: pipe_len_def PIPESIZE_def)
  then show l: "pipe_len ?q = Suc (pipe_len p)" by (simp add: pipe_len_def f algebra_simps)
  then show "pipe_ok ?q" using assms len by (simp add: pipe_ok_def f)
  let ?w = "unat (p_nwrite p) mod PIPESIZE"
  have "?w < PIPESIZE" by (simp add: PIPESIZE_def)
  then have w: "p_data ?q ! j = (if j = ?w then c else p_data p ! j)" for j using len by (simp add: f nth_list_update)
  have old: "p_data ?q ! ((unat (p_nread p) + k) mod PIPESIZE) = p_data p ! ((unat (p_nread p) + k) mod PIPESIZE)" if "k < pipe_len p" for k
    using mod_apart [of k "pipe_len p" "unat (p_nread p)"] that assms(2) nwrite_mod [of p] by (simp add: w)
  have new: "p_data ?q ! ((unat (p_nread p) + pipe_len p) mod PIPESIZE) = c" using nwrite_mod [of p] by (simp add: w)
  show "pipe_content ?q = pipe_content p @ [c]" using old new by (simp add: pipe_content_def l f(1))
qed

lemma read_byte_spec:
  assumes "pipe_ok p" "p_nread p \<noteq> p_nwrite p"
  shows "pipe_ok (p\<lparr>p_nread := p_nread p + 1\<rparr>)"
    "pipe_content p = p_data p ! (unat (p_nread p) mod PIPESIZE) # pipe_content (p\<lparr>p_nread := p_nread p + 1\<rparr>)"
proof -
  let ?q = "p\<lparr>p_nread := p_nread p + 1\<rparr>" and ?d = "p_nwrite p - p_nread p"
  have "?d \<noteq> 0" using assms(2) by simp
  then have u: "unat ?d = Suc (unat (?d - 1))" by (simp add: unat_minus_one unat_gt_0)
  have e: "p_nwrite p - (p_nread p + 1) = ?d - 1" by simp
  have l: "pipe_len p = Suc (pipe_len ?q)" using u unfolding pipe_len_def by (simp add: e)
  then show "pipe_ok ?q" using assms(1) by (simp add: pipe_ok_def)
  have m: "(unat (p_nread p + 1) + k) mod PIPESIZE = (unat (p_nread p) + Suc k) mod PIPESIZE" for k
  proof -
    have "(unat (p_nread p + 1) + k) mod PIPESIZE = (unat (p_nread p + 1) mod PIPESIZE + k) mod PIPESIZE" by (simp add: mod_add_left_eq)
    also have "\<dots> = ((unat (p_nread p) + 1) mod PIPESIZE + k) mod PIPESIZE" using unat_plus_mod [of "p_nread p" 1] by simp
    finally show ?thesis by (simp add: mod_add_left_eq)
  qed
  show "pipe_content p = p_data p ! (unat (p_nread p) mod PIPESIZE) # pipe_content ?q"
    unfolding pipe_content_def l by (simp add: upt_conv_Cons map_Suc_upt [symmetric] m del: upt_Suc)
qed

lemma pipewrite_spec:
  assumes "pipe_ok p" "pipewrite_from killed src i p = (r, j, w, p')" "i \<le> length src"
  shows "pipe_ok p' \<and> i \<le> j \<and> j \<le> length src \<and> pipe_content p' = pipe_content p @ take (j - i) (drop i src)
    \<and> p_readopen p' = p_readopen p \<and> p_writeopen p' = p_writeopen p
    \<and> (r = Return (int (length src)) \<and> j = length src \<and> NRead \<in> set w
       \<or> pipe_len p' = PIPESIZE \<and> j < length src \<and> (if p_readopen p \<and> \<not> killed then r = Sleep NWrite \<and> NRead \<in> set w else r = Return (-1)))"
  using assms
proof (induction killed src i p rule: pipewrite_from.induct)
  case (1 killed src i p)
  have full: "p_nwrite p = p_nread p + word_of_nat PIPESIZE \<longleftrightarrow> pipe_len p = PIPESIZE" using full_iff [OF 1(2)] .
  show ?case
  proof (cases "i < length src \<and> pipe_len p \<noteq> PIPESIZE")
    case True
    then have lt: "pipe_len p < PIPESIZE" using 1(2) by (simp add: pipe_ok_def)
    note P = put_byte_spec [OF 1(2) lt, of "src ! i"]
    have r: "pipewrite_from killed src (Suc i) (put_byte (src ! i) p) = (r, j, w, p')"
      using 1(3) True full by (subst (asm) pipewrite_from.simps) simp
    have IH: "pipe_ok p' \<and> Suc i \<le> j \<and> j \<le> length src \<and> pipe_content p' = pipe_content (put_byte (src ! i) p) @ take (j - Suc i) (drop (Suc i) src)
      \<and> p_readopen p' = p_readopen (put_byte (src ! i) p) \<and> p_writeopen p' = p_writeopen (put_byte (src ! i) p)
      \<and> (r = Return (int (length src)) \<and> j = length src \<and> NRead \<in> set w
         \<or> pipe_len p' = PIPESIZE \<and> j < length src
            \<and> (if p_readopen (put_byte (src ! i) p) \<and> \<not> killed then r = Sleep NWrite \<and> NRead \<in> set w else r = Return (-1)))"
      by (rule 1(1)) (use True full P(1) r in auto)
    have "take (j - i) (drop i src) = src ! i # take (j - Suc i) (drop (Suc i) src)" if "Suc i \<le> j"
    proof -
      have "j - i = Suc (j - Suc i)" "drop i src = src ! i # drop (Suc i) src" using that True by (simp_all add: Cons_nth_drop_Suc)
      then show ?thesis by simp
    qed
    then show ?thesis using IH P(2) by (simp add: put_byte_def)
  next
    case False
    then have "(r, j, w, p') = (if i \<ge> length src then (Return (int (length src)), i, [NRead], p)
      else if \<not> p_readopen p \<or> killed then (Return (-1), i, [], p) else (Sleep NWrite, i, [NRead], p))"
      using 1(3) full pipewrite_from.simps [of killed src i p] by (simp split: if_splits)
    then show ?thesis using 1(2,4) False by (auto split: if_splits)
  qed
qed

lemma piperead_copy_spec:
  assumes "pipe_ok p" "piperead_copy n p = (ds, p')"
  shows "pipe_ok p' \<and> pipe_content p = ds @ pipe_content p' \<and> length ds = min n (pipe_len p)
    \<and> p_readopen p' = p_readopen p \<and> p_writeopen p' = p_writeopen p"
  using assms
proof (induction n p arbitrary: ds rule: piperead_copy.induct)
  case (2 n p)
  show ?case
  proof (cases "p_nread p = p_nwrite p")
    case True
    then show ?thesis using 2(2,3) by (simp add: pipe_len_def)
  next
    case False
    note R = read_byte_spec [OF 2(2) False]
    let ?q = "p\<lparr>p_nread := p_nread p + 1\<rparr>"
    obtain es where es: "piperead_copy n ?q = (es, p')" "ds = p_data p ! (unat (p_nread p) mod PIPESIZE) # es"
      using 2(3) False by (auto simp: split_beta Let_def prod_eq_iff)
    have "pipe_ok p' \<and> pipe_content ?q = es @ pipe_content p' \<and> length es = min n (pipe_len ?q)
      \<and> p_readopen p' = p_readopen ?q \<and> p_writeopen p' = p_writeopen ?q"
      by (rule 2(1) [OF False R(1) es(1)])
    moreover have "pipe_len p = Suc (pipe_len ?q)" using R(2) by (metis length_Cons length_pipe_content)
    ultimately show ?thesis using R(2) es(2) by simp
  qed
qed simp

text \<open>A write that may be cut short by a full ring, and a read, as operations of a queue.\<close>

definition pipe_put :: "byte list \<Rightarrow> pipe \<Rightarrow> nat \<times> pipe" where
  "pipe_put bs p = (let (r, j, w, p') = pipewrite False bs p in (j, p'))"

definition pipe_get :: "nat \<Rightarrow> pipe \<Rightarrow> byte list \<times> pipe" where
  "pipe_get n p = (let (r, w, p') = piperead False n p in (case r of Return (k, ds) \<Rightarrow> ds | Sleep c \<Rightarrow> [], p'))"

interpretation pq: byte_queue pipe_ok pipe_content PIPESIZE pipe_put pipe_get
proof
  show "length (pipe_content q) \<le> PIPESIZE" if "pipe_ok q" for q using that by (simp add: pipe_ok_def)
  show "pipe_ok q' \<and> n \<le> length bs \<and> pipe_content q' = pipe_content q @ take n bs" if h: "pipe_ok q" "pipe_put bs q = (n, q')" for q bs n q'
  proof -
    obtain r w where "pipewrite_from False bs 0 q = (r, n, w, q')" using h(2)
      by (cases "pipewrite_from False bs 0 q") (auto simp: pipe_put_def pipewrite_def)
    from pipewrite_spec [OF h(1) this] show ?thesis by simp
  qed
  show "pipe_ok q' \<and> pipe_content q = ds @ pipe_content q' \<and> length ds \<le> k" if h: "pipe_ok q" "pipe_get k q = (ds, q')" for q k ds q'
  proof -
    obtain es q1 where e: "piperead_copy k q = (es, q1)" by (metis prod.exhaust)
    from piperead_copy_spec [OF h(1) e] show ?thesis using h by (auto simp: pipe_get_def piperead_def e split: if_splits)
  qed
qed

section \<open>Properties\<close>

text \<open>C32: a pipe is a first-in first-out queue of bytes. However writes and reads of any length follow each other, also when the
  free-running counters wrap around, the bytes read so far followed by the bytes still in the ring are the bytes that were in it followed by the bytes written.\<close>

theorem pipe_fifo:
  assumes "pipe_ok p" "run_q pipe_put pipe_get ops p = (ins, outs, p')"
  shows "pipe_content p @ ins = outs @ pipe_content p' \<and> pipe_ok p'"
  using pq.run_fifo [OF assms] by blast

theorem pipe_fifo_witness:
  "\<exists>ins outs p'. run_q pipe_put pipe_get [Put [1, 2, 3], Get 2] ((pipe_init (replicate 512 0))\<lparr>p_nread := 4294967295, p_nwrite := 4294967295\<rparr>)
      = (ins, outs, p') \<and> ins = outs @ pipe_content p' \<and> pipe_ok p'"
proof -
  let ?p = "(pipe_init (replicate 512 0))\<lparr>p_nread := 4294967295, p_nwrite := 4294967295\<rparr>"
  have ok: "pipe_ok ?p" by (simp add: pipe_ok_def pipe_len_def pipe_init_def PIPESIZE_def)
  obtain ins outs p' where r: "run_q pipe_put pipe_get [Put [1, 2, 3], Get 2] ?p = (ins, outs, p')" by (rule prod_cases3)
  have "pipe_content ?p = []" by (simp add: pipe_content_def pipe_len_def pipe_init_def)
  then have "ins = outs @ pipe_content p' \<and> pipe_ok p'" using pipe_fifo [OF ok r] by (simp only: append_Nil)
  with r show ?thesis by blast
qed

text \<open>C34: \<^verbatim>\<open>pipewrite\<close> stores every byte or stops with the ring full: it returns the count, or -1 if there is no reader left
  or the process was killed, and sleeps otherwise. \<^verbatim>\<open>piperead\<close> on an empty pipe sleeps only while a writer is left, and otherwise returns
  what the ring holds, up to the count asked for.\<close>

theorem pipe_calls:
  assumes "pipe_ok p"
  shows "(case pipewrite killed src p of (r, j, w, p') \<Rightarrow>
      pipe_ok p' \<and> pipe_content p' = pipe_content p @ take j src
      \<and> (r = Return (int (length src)) \<and> j = length src \<and> NRead \<in> set w
         \<or> pipe_len p' = PIPESIZE \<and> j < length src \<and> (if p_readopen p \<and> \<not> killed then r = Sleep NWrite \<and> NRead \<in> set w else r = Return (-1))))
    \<and> (case piperead killed n p of (r, w, p') \<Rightarrow>
      pipe_ok p' \<and> (if pipe_len p = 0 \<and> p_writeopen p then p' = p \<and> r = (if killed then Return (-1, []) else Sleep NRead)
        else r = Return (int (min n (pipe_len p)), take n (pipe_content p)) \<and> pipe_content p' = drop n (pipe_content p) \<and> NWrite \<in> set w))"
proof
  obtain r j w p' where p': "pipewrite_from killed src 0 p = (r, j, w, p')" by (rule prod_cases4)
  from pipewrite_spec [OF assms p'] show "case pipewrite killed src p of (r, j, w, p') \<Rightarrow>
      pipe_ok p' \<and> pipe_content p' = pipe_content p @ take j src
      \<and> (r = Return (int (length src)) \<and> j = length src \<and> NRead \<in> set w
         \<or> pipe_len p' = PIPESIZE \<and> j < length src \<and> (if p_readopen p \<and> \<not> killed then r = Sleep NWrite \<and> NRead \<in> set w else r = Return (-1)))"
    by (simp add: pipewrite_def p')
  have e: "p_nread p = p_nwrite p \<longleftrightarrow> pipe_len p = 0" by (auto simp: pipe_len_def unat_eq_zero)
  obtain ds q where q: "piperead_copy n p = (ds, q)" by (metis prod.exhaust)
  have Q: "pipe_ok q" "pipe_content p = ds @ pipe_content q" "length ds = min n (pipe_len p)" using piperead_copy_spec [OF assms q] by auto
  have l: "pipe_len p = length ds + length (pipe_content q)" using arg_cong [OF Q(2), of length] by simp
  have "take n (pipe_content p) = ds" "drop n (pipe_content p) = pipe_content q"
    using Q(3) l unfolding Q(2) by (auto simp: min_def pipe_content_def split: if_splits)
  then show "case piperead killed n p of (r, w, p') \<Rightarrow>
      pipe_ok p' \<and> (if pipe_len p = 0 \<and> p_writeopen p then p' = p \<and> r = (if killed then Return (-1, []) else Sleep NRead)
        else r = Return (int (min n (pipe_len p)), take n (pipe_content p)) \<and> pipe_content p' = drop n (pipe_content p) \<and> NWrite \<in> set w)"
    using assms Q by (simp add: piperead_def e q)
qed

theorem pipe_calls_witness:
  "pipe_ok (pipe_init (replicate 512 0)) \<and> fst (piperead False 5 (pipe_init (replicate 512 0))) = Sleep NRead"
proof -
  have ok: "pipe_ok (pipe_init (replicate 512 0))" by (simp add: pipe_ok_def pipe_len_def pipe_init_def PIPESIZE_def)
  then show ?thesis using pipe_calls [OF ok, where killed = False and src = "[]" and n = 5] by (auto simp: pipe_len_def pipe_init_def split: prod.splits)
qed

end
