(* ===== verification/Syscall.thy ===== *)
theory Syscall
  imports Memory
begin

text \<open>
  System call arguments and dispatch (syscall.c, syscall.h). The kernel reads arguments through the current page table, so a process
  is its memory as a function from addresses to bytes, its size \<^verbatim>\<open>sz\<close> and its saved stack pointer. A fetch that returns -1 is \<open>None\<close>.
\<close>

section \<open>Definitions\<close>

record uproc =
  u_mem :: mem
  u_sz :: uint
  u_esp :: uint

definition fetchint :: "uint \<Rightarrow> uproc \<Rightarrow> uint option" where
  "fetchint a u = (if a \<ge> u_sz u \<or> a + 4 > u_sz u then None else Some (load32 (u_mem u) a))"

text \<open>The length of the string and its address.\<close>

definition fetchstr :: "uint \<Rightarrow> uproc \<Rightarrow> (nat \<times> addr) option" where
  "fetchstr a u =
     (if a \<ge> u_sz u then None
      else case find_index (\<lambda>k. u_mem u (a + word_of_nat k) = 0) [0..<unat (u_sz u - a)] of
             Some k \<Rightarrow> Some (k, a) | None \<Rightarrow> None)"

definition argint :: "nat \<Rightarrow> uproc \<Rightarrow> uint option" where
  "argint n u = fetchint (u_esp u + 4 + 4 * word_of_nat n) u"

definition argptr :: "nat \<Rightarrow> int \<Rightarrow> uproc \<Rightarrow> addr option" where
  "argptr n sz u =
     (case argint n u of
        None \<Rightarrow> None
      | Some i \<Rightarrow>
          if i < KERNBASE \<and> i \<ge> KERNBASE - PGSIZE * 32 then Some i
          else if sz < 0 \<or> i \<ge> u_sz u \<or> i + word_of_int sz > u_sz u then None
          else Some i)"

definition argstr :: "nat \<Rightarrow> uproc \<Rightarrow> (nat \<times> addr) option" where
  "argstr n u = (case argint n u of None \<Rightarrow> None | Some a \<Rightarrow> fetchstr a u)"

definition ubytes :: "uproc \<Rightarrow> addr \<Rightarrow> nat \<Rightarrow> byte list" where
  "ubytes u a n = map (\<lambda>k. u_mem u (a + word_of_nat k)) [0..<n]"

datatype sysname = Sys_fork | Sys_exit | Sys_wait | Sys_pipe | Sys_read | Sys_kill | Sys_exec | Sys_fstat | Sys_chdir | Sys_dup
  | Sys_getpid | Sys_sbrk | Sys_sleep | Sys_uptime | Sys_open | Sys_write | Sys_mknod | Sys_unlink | Sys_link | Sys_mkdir | Sys_close
  | Sys_shmget | Sys_shmrem | Sys_sem_init | Sys_sem_up | Sys_sem_down | Sys_isActive

text \<open>The table; entry 0 is empty.\<close>

definition syscalls :: "sysname option list" where
  "syscalls = None # map Some [Sys_fork, Sys_exit, Sys_wait, Sys_pipe, Sys_read, Sys_kill, Sys_exec, Sys_fstat, Sys_chdir, Sys_dup,
     Sys_getpid, Sys_sbrk, Sys_sleep, Sys_uptime, Sys_open, Sys_write, Sys_mknod, Sys_unlink, Sys_link, Sys_mkdir, Sys_close,
     Sys_shmget, Sys_shmrem, Sys_sem_init, Sys_sem_up, Sys_sem_down, Sys_isActive]"

text \<open>\<open>run\<close> are the routines the table points to; the result is the new value of \<^verbatim>\<open>eax\<close>.\<close>

definition syscall :: "(sysname \<Rightarrow> 's \<Rightarrow> (int \<times> 's) res) \<Rightarrow> uint \<Rightarrow> 's \<Rightarrow> (uint \<times> 's) res" where
  "syscall run eax s =
     (let num = sint eax
      in if num > 0 \<and> num < int (length syscalls) \<and> syscalls ! nat num \<noteq> None
         then bind_res (run (the (syscalls ! nat num)) s) (\<lambda>(r, s1). Ok (word_of_int r, s1))
         else Ok (word_of_int (-1), s))"

section \<open>Arguments stay inside the process\<close>

lemma fetchint_bounds:
  assumes "fetchint a u = Some v" "u_sz u \<le> KERNBASE" "k < 4"
  shows "a + word_of_nat k < u_sz u"
proof -
  have a: "unat a < unat (u_sz u)" "unat (a + 4) \<le> unat (u_sz u)" "unat (u_sz u) \<le> 2147483648"
    using assms(1,2) by (auto simp: fetchint_def KERNBASE_def word_less_nat_alt word_le_nat_alt split: if_splits)
  have "unat (a + 4) = unat a + 4" using a by (intro trans [OF uint_no_wrap]) simp_all
  moreover have "unat (word_of_nat k :: uint) = k" using assms(3) by (simp add: unat_of_nat_small)
  moreover have "unat (a + word_of_nat k) = unat a + k" using a assms(3) calculation(2) by (intro trans [OF uint_no_wrap]) simp_all
  ultimately show ?thesis using a(2) assms(3) by (simp add: word_less_nat_alt)
qed

text \<open>C33: what the kernel takes as a pointer lies in the process, the window of the shared pages apart. If \<^verbatim>\<open>argptr\<close> accepts a pointer for
  \<open>n\<close> bytes below the window, every one of the \<open>n\<close> bytes is below \<^verbatim>\<open>sz\<close>, without wrap-around; a string that \<^verbatim>\<open>argstr\<close> accepts is
  NUL-terminated below \<^verbatim>\<open>sz\<close>, and the length it returns is that of the string.\<close>

theorem args_in_process:
  assumes "u_sz u \<le> KERNBASE"
  shows "(\<forall>a n. argptr i n u = Some a \<longrightarrow> a < KERNBASE - PGSIZE * 32 \<or> KERNBASE \<le> a \<longrightarrow> 0 \<le> n \<and> n < 2147483648 \<longrightarrow>
       (\<forall>k < nat n. a + word_of_nat k < u_sz u \<and> unat (a + word_of_nat k) = unat a + k))
    \<and> (\<forall>k a. argstr i u = Some (k, a) \<longrightarrow> a + word_of_nat k < u_sz u \<and> unat (a + word_of_nat k) = unat a + k
         \<and> u_mem u (a + word_of_nat k) = 0 \<and> 0 \<notin> set (ubytes u a k))"
proof (intro conjI allI impI)
  have top: "unat (u_sz u) \<le> 2147483648" using assms by (simp add: KERNBASE_def word_le_nat_alt)
  fix a n k
  assume h: "argptr i n u = Some a" "a < KERNBASE - PGSIZE * 32 \<or> KERNBASE \<le> a" "0 \<le> n \<and> n < 2147483648" "k < nat n"
  then have g: "a < u_sz u" "a + word_of_int n \<le> u_sz u" by (auto simp: argptr_def not_le not_less split: option.splits if_splits)
  have un: "unat (word_of_int n :: uint) = nat n" using h(3) by (simp add: unsigned_of_int take_bit_int_eq_self)
  have ua: "unat a < 2147483648" using g(1) top by (simp add: word_less_nat_alt)
  have nn: "nat n < 2147483648" using h(3) by linarith
  have "unat (a + word_of_int n) = unat a + nat n" using uint_no_wrap [of a "word_of_int n"] un ua nn by simp
  then have le: "unat a + nat n \<le> unat (u_sz u)" using g(2) by (simp add: word_le_nat_alt)
  have uk: "unat (word_of_nat k :: uint) = k" using h(3,4) by (intro unat_of_nat_small) linarith
  then show e: "unat (a + word_of_nat k) = unat a + k" using uint_no_wrap [of a "word_of_nat k"] uk ua nn h(4) by simp
  show "a + word_of_nat k < u_sz u" using e le h(4) by (simp add: word_less_nat_alt)
next
  have top: "unat (u_sz u) \<le> 2147483648" using assms by (simp add: KERNBASE_def word_le_nat_alt)
  fix k a
  assume h: "argstr i u = Some (k, a)"
  then have f: "a < u_sz u" "find_index (\<lambda>k. u_mem u (a + word_of_nat k) = 0) [0..<unat (u_sz u - a)] = Some k"
    by (auto simp: argstr_def fetchstr_def not_le split: option.splits if_splits)
  note F = find_index_SomeD [OF f(2)]
  have "unat (u_sz u - a) = unat (u_sz u) - unat a" using f(1) by (simp add: unat_sub word_less_nat_alt word_le_nat_alt)
  then have k: "k < unat (u_sz u) - unat a" using F(1) by simp
  then have uk: "unat (word_of_nat k :: uint) = k" using top by (intro unat_of_nat_small) linarith
  show e: "unat (a + word_of_nat k) = unat a + k" using uint_no_wrap [of a "word_of_nat k"] uk k top by simp
  show "a + word_of_nat k < u_sz u" using e k by (simp add: word_less_nat_alt)
  show "u_mem u (a + word_of_nat k) = 0" using F(1,2) by simp
  show "0 \<notin> set (ubytes u a k)" using F(1,3) by (auto simp: ubytes_def)
qed

definition small_u :: uproc where
  "small_u = \<lparr>u_mem = (\<lambda>a. if a = 0x10 then 0x20 else if a = 0x20 then 97 else 0), u_sz = 0x1000, u_esp = 8\<rparr>"

theorem args_in_process_witness:
  "argptr 1 16 small_u = Some 0x20 \<and> 0x20 + word_of_nat 15 < u_sz small_u \<and> argstr 1 small_u = Some (1, 0x20)
    \<and> u_mem small_u (0x20 + word_of_nat 1) = 0"
proof -
  have i: "argint 1 small_u = Some 0x20" by (simp add: argint_def fetchint_def small_u_def load32_def)
  have p: "argptr 1 16 small_u = Some 0x20" unfolding argptr_def i by (simp add: small_u_def KERNBASE_def PGSIZE_def)
  have "find_index (\<lambda>k. u_mem small_u (0x20 + word_of_nat k) = 0) [0..<unat (u_sz small_u - 0x20)] = Some 1"
    unfolding find_index_Some by (simp add: small_u_def)
  then have "fetchstr 0x20 small_u = Some (1, 0x20)" unfolding fetchstr_def by (simp only: option.case) (simp add: small_u_def)
  then have s: "argstr 1 small_u = Some (1, 0x20)" unfolding argstr_def i by simp
  have "u_sz small_u \<le> KERNBASE" by (simp add: small_u_def KERNBASE_def)
  note A = args_in_process [OF this, of 1]
  have "0x20 + word_of_nat 15 < u_sz small_u"
    using conjunct1 [OF A, THEN spec [of _ "0x20"], THEN spec [of _ 16], THEN mp, OF p]
    by (auto simp: KERNBASE_def PGSIZE_def dest: spec [of _ 15])
  then show ?thesis using p s A by blast
qed

text \<open>C37: inside the window of the shared pages \<^verbatim>\<open>argptr\<close> does not look at the size. A process that puts a pointer just
  below \<^verbatim>\<open>KERNBASE\<close> on its stack passes the check for any size, so that \<^verbatim>\<open>read\<close> or \<^verbatim>\<open>write\<close> reach kernel memory, whether or not the process has a shared
  page.\<close>

theorem argptr_window_unchecked:
  assumes "argint i u = Some (KERNBASE - 4)"
  shows "argptr i n u = Some (KERNBASE - 4) \<and> (4 < n \<longrightarrow> (\<exists>k < nat n. KERNBASE \<le> (KERNBASE - 4) + word_of_nat k))"
  using assms by (auto simp: argptr_def KERNBASE_def PGSIZE_def intro!: exI [of _ 4])

theorem argptr_window_unchecked_witness:
  "argptr 0 4096 \<lparr>u_mem = store32 (\<lambda>_. 0) 0xFFC (KERNBASE - 4), u_sz = 0x1000, u_esp = 0xFF8\<rparr> = Some (KERNBASE - 4)"
proof -
  have "argint 0 \<lparr>u_mem = store32 (\<lambda>_. 0) 0xFFC (KERNBASE - 4), u_sz = 0x1000, u_esp = 0xFF8\<rparr> = Some (KERNBASE - 4)"
    by (simp add: argint_def fetchint_def load32_def store32_def KERNBASE_def)
  from argptr_window_unchecked [OF this, of 4096] show ?thesis by simp
qed

end
