(* ===== verification/File.thy ===== *)
theory File
  imports Fs Pipe Syscall
begin

text \<open>
  Open files (file.c, the structures of file.h, and \<^verbatim>\<open>pipealloc\<close> of pipe.c). The state of the file layer is that of one process and of
  what it shares with others: the file system, the table of open files, the pipes, the number of free pages, the calls that
  the log counts as outstanding, the descriptors and current directory of the process, its memory, and whether it was killed. A pointer
  to a file, pipe or inode is its index; a pipe that was freed is \<open>None\<close>. Data of a new pipe is what \<^verbatim>\<open>kfree\<close> leaves
  in a free page. A call that has to sleep is \<open>Block\<close>.
\<close>

section \<open>Definitions\<close>

definition NFILE :: nat where "NFILE = 100"

datatype fdtype = FD_NONE | FD_PIPE | FD_INODE

record open_file =
  f_type :: fdtype
  f_ref :: int
  f_readable :: bool
  f_writable :: bool
  f_pipe :: nat
  f_ip :: nat
  f_off :: uint

record kst =
  k_fs :: fs
  k_files :: "open_file list"
  k_pipes :: "pipe option list"
  k_pages :: nat
  k_ops :: int
  k_ofile :: "nat option list"
  k_cwd :: nat
  k_user :: uproc
  k_killed :: bool

text \<open>An entry of \<^verbatim>\<open>devsw\<close>: routines that get the inode, the address and the count.\<close>

type_synonym dev_op = "nat \<Rightarrow> addr \<Rightarrow> int \<Rightarrow> kst \<Rightarrow> (int \<times> kst) res"

record devsw =
  dev_read :: dev_op
  dev_write :: dev_op

text \<open>Calls of the file system, and of the log: \<^verbatim>\<open>begin_op\<close> once it has got its room, and \<^verbatim>\<open>end_op\<close>.\<close>

definition on_fs :: "(fs \<Rightarrow> fs res) \<Rightarrow> kst \<Rightarrow> kst res" where
  "on_fs f s = bind_res (f (k_fs s)) (\<lambda>t. Ok (s\<lparr>k_fs := t\<rparr>))"

definition on_fs_val :: "(fs \<Rightarrow> ('a \<times> fs) res) \<Rightarrow> kst \<Rightarrow> ('a \<times> kst) res" where
  "on_fs_val f s = bind_res (f (k_fs s)) (\<lambda>(v, t). Ok (v, s\<lparr>k_fs := t\<rparr>))"

definition op_begin :: "kst \<Rightarrow> kst" where "op_begin s = s\<lparr>k_ops := k_ops s + 1\<rparr>"
definition op_end :: "kst \<Rightarrow> kst" where "op_end s = s\<lparr>k_ops := k_ops s - 1\<rparr>"

definition set_file :: "nat \<Rightarrow> (open_file \<Rightarrow> open_file) \<Rightarrow> kst \<Rightarrow> kst" where
  "set_file f g s = s\<lparr>k_files := (k_files s)[f := g (k_files s ! f)]\<rparr>"

definition ustore :: "addr \<Rightarrow> byte list \<Rightarrow> uproc \<Rightarrow> uproc" where
  "ustore a bs u = u\<lparr>u_mem := (\<lambda>x. if unat (x - a) < length bs then bs ! unat (x - a) else u_mem u x)\<rparr>"

definition filealloc :: "kst \<Rightarrow> nat option \<times> kst" where
  "filealloc s =
     (case find_index (\<lambda>f. f_ref f = 0) (k_files s) of
        Some f \<Rightarrow> (Some f, set_file f (\<lambda>x. x\<lparr>f_ref := 1\<rparr>) s)
      | None \<Rightarrow> (None, s))"

definition filedup :: "nat \<Rightarrow> kst \<Rightarrow> kst res" where
  "filedup f s =
     (if f_ref (k_files s ! f) < 1 then Panic ''filedup''
      else Ok (set_file f (\<lambda>x. x\<lparr>f_ref := f_ref x + 1\<rparr>) s))"

text \<open>\<^verbatim>\<open>pipeclose\<close> with the freeing of the page.\<close>

definition close_pipe :: "nat \<Rightarrow> bool \<Rightarrow> kst \<Rightarrow> kst res" where
  "close_pipe p writable s =
     (case k_pipes s ! p of
        None \<Rightarrow> Fault
      | Some q \<Rightarrow>
          let (w, dead, q1) = pipeclose q writable
          in Ok (if dead then s\<lparr>k_pipes := (k_pipes s)[p := None], k_pages := k_pages s + 1\<rparr>
                 else s\<lparr>k_pipes := (k_pipes s)[p := Some q1]\<rparr>))"

definition fileclose :: "nat \<Rightarrow> kst \<Rightarrow> kst res" where
  "fileclose f s =
     (let ff = k_files s ! f
      in if f_ref ff < 1 then Panic ''fileclose''
         else if f_ref ff - 1 > 0 then Ok (set_file f (\<lambda>x. x\<lparr>f_ref := f_ref x - 1\<rparr>) s)
         else let s1 = set_file f (\<lambda>x. x\<lparr>f_ref := 0, f_type := FD_NONE\<rparr>) s
              in case f_type ff of
                   FD_PIPE \<Rightarrow> close_pipe (f_pipe ff) (f_writable ff) s1
                 | FD_INODE \<Rightarrow> bind_res (on_fs (iput (f_ip ff)) (op_begin s1)) (\<lambda>s2. Ok (op_end s2))
                 | FD_NONE \<Rightarrow> Ok s1)"

text \<open>The padding between the fields of \<^verbatim>\<open>struct stat\<close> is not written: \<open>st\<close> is stored field by field.\<close>

definition store_stat :: "addr \<Rightarrow> stat \<Rightarrow> uproc \<Rightarrow> uproc" where
  "store_stat a st u =
     ustore (a + 16) (bytes32 (st_size st)) (ustore (a + 12) (bytes16 (st_nlink st)) (ustore (a + 8) (bytes32 (st_ino st))
       (ustore (a + 4) (bytes32 (st_dev st)) (ustore a (bytes16 (st_type st)) u))))"

definition filestat :: "nat \<Rightarrow> addr \<Rightarrow> kst \<Rightarrow> (int \<times> kst) res" where
  "filestat f a s =
     (let ff = k_files s ! f
      in if f_type ff = FD_INODE
         then bind_res (on_fs (ilock (Some (f_ip ff))) s) (\<lambda>s1.
              let s2 = s1\<lparr>k_user := store_stat a (stati (f_ip ff) (k_fs s1)) (k_user s1)\<rparr>
              in bind_res (on_fs (iunlock (Some (f_ip ff))) s2) (\<lambda>s3. Ok (0, s3)))
         else Ok (-1, s))"

text \<open>\<^verbatim>\<open>readi\<close> and \<^verbatim>\<open>writei\<close> with the copy from or to the process, or with the call of the device's routine.\<close>

definition read_inode :: "(nat \<Rightarrow> devsw) \<Rightarrow> nat \<Rightarrow> addr \<Rightarrow> uint \<Rightarrow> int \<Rightarrow> kst \<Rightarrow> (int \<times> kst) res" where
  "read_inode dv i a off n s =
     bind_res (on_fs_val (readi i off (word_of_int n)) s) (\<lambda>(r, s1).
     case r of
       Done k ds \<Rightarrow> Ok (k, s1\<lparr>k_user := ustore a ds (k_user s1)\<rparr>)
     | Dev m \<Rightarrow> dev_read (dv m) i a n s1)"

definition write_inode :: "(nat \<Rightarrow> devsw) \<Rightarrow> nat \<Rightarrow> addr \<Rightarrow> uint \<Rightarrow> int \<Rightarrow> kst \<Rightarrow> (int \<times> kst) res" where
  "write_inode dv i a off n s =
     bind_res (on_fs_val (writei i (ubytes (k_user s) a (nat n)) off (word_of_int n)) s) (\<lambda>(r, s1).
     case r of
       Done k ds \<Rightarrow> Ok (k, s1)
     | Dev m \<Rightarrow> dev_write (dv m) i a n s1)"

definition advance :: "nat \<Rightarrow> int \<Rightarrow> kst \<Rightarrow> kst" where
  "advance f r s = (if r > 0 then set_file f (\<lambda>x. x\<lparr>f_off := f_off x + word_of_int r\<rparr>) s else s)"

definition fileread :: "(nat \<Rightarrow> devsw) \<Rightarrow> nat \<Rightarrow> addr \<Rightarrow> int \<Rightarrow> kst \<Rightarrow> (int \<times> kst) res" where
  "fileread dv f a n s =
     (let ff = k_files s ! f
      in if \<not> f_readable ff then Ok (-1, s)
         else case f_type ff of
           FD_PIPE \<Rightarrow>
             (case k_pipes s ! f_pipe ff of
                None \<Rightarrow> Fault
              | Some p \<Rightarrow>
                  (case piperead (k_killed s) (nat n) p of
                     (Sleep c, w, p1) \<Rightarrow> Block
                   | (Return (r, ds), w, p1) \<Rightarrow>
                       Ok (r, s\<lparr>k_pipes := (k_pipes s)[f_pipe ff := Some p1], k_user := ustore a ds (k_user s)\<rparr>)))
         | FD_INODE \<Rightarrow>
             bind_res (on_fs (ilock (Some (f_ip ff))) s) (\<lambda>s1.
             bind_res (read_inode dv (f_ip ff) a (f_off (k_files s1 ! f)) n s1) (\<lambda>(r, s2).
             bind_res (on_fs (iunlock (Some (f_ip ff))) (advance f r s2)) (\<lambda>s3. Ok (r, s3))))
         | FD_NONE \<Rightarrow> Panic ''fileread'')"

text \<open>One transaction of \<^verbatim>\<open>filewrite\<close>.\<close>

definition filewrite_max :: int where "filewrite_max = int ((LOGSIZE - 1 - 1 - 2) div 2 * 512)"

definition filewrite_step :: "(nat \<Rightarrow> devsw) \<Rightarrow> nat \<Rightarrow> addr \<Rightarrow> int \<Rightarrow> kst \<Rightarrow> (int \<times> kst) res" where
  "filewrite_step dv f a n1 s =
     (let ip = f_ip (k_files s ! f)
      in bind_res (on_fs (ilock (Some ip)) (op_begin s)) (\<lambda>s1.
         bind_res (write_inode dv ip a (f_off (k_files s1 ! f)) n1 s1) (\<lambda>(r, s2).
         bind_res (on_fs (iunlock (Some ip)) (advance f r s2)) (\<lambda>s3. Ok (r, op_end s3)))))"

function filewrite_loop :: "(nat \<Rightarrow> devsw) \<Rightarrow> nat \<Rightarrow> addr \<Rightarrow> int \<Rightarrow> int \<Rightarrow> kst \<Rightarrow> (int \<times> kst) res" where
  "filewrite_loop dv f a n i s =
     (if i \<ge> n then Ok (if i = n then n else -1, s)
      else let n1 = min (n - i) filewrite_max
           in bind_res (filewrite_step dv f (a + word_of_int i) n1 s) (\<lambda>(r, s1).
              if r < 0 then Ok (-1, s1)
              else if r \<noteq> n1 then Panic ''short filewrite''
              else filewrite_loop dv f a n (i + n1) s1))"
  by pat_completeness auto
termination
  by (relation "measure (\<lambda>(dv, f, a, n, i, s). nat (n - i))") (auto simp: filewrite_max_def LOGSIZE_def MAXOPBLOCKS_def)

declare filewrite_loop.simps [simp del]

definition filewrite :: "(nat \<Rightarrow> devsw) \<Rightarrow> nat \<Rightarrow> addr \<Rightarrow> int \<Rightarrow> kst \<Rightarrow> (int \<times> kst) res" where
  "filewrite dv f a n s =
     (let ff = k_files s ! f
      in if \<not> f_writable ff then Ok (-1, s)
         else case f_type ff of
           FD_PIPE \<Rightarrow>
             (case k_pipes s ! f_pipe ff of
                None \<Rightarrow> Fault
              | Some p \<Rightarrow>
                  (case pipewrite (k_killed s) (ubytes (k_user s) a (nat n)) p of
                     (Sleep c, j, w, p1) \<Rightarrow> Block
                   | (Return r, j, w, p1) \<Rightarrow> Ok (if r = -1 then -1 else n, s\<lparr>k_pipes := (k_pipes s)[f_pipe ff := Some p1]\<rparr>)))
         | FD_INODE \<Rightarrow> filewrite_loop dv f a n 0 s
         | FD_NONE \<Rightarrow> Panic ''filewrite'')"

definition pipealloc :: "kst \<Rightarrow> ((nat \<times> nat) option \<times> kst) res" where
  "pipealloc s =
     (case filealloc s of
        (None, s1) \<Rightarrow> Ok (None, s1)
      | (Some f0, s1) \<Rightarrow>
          (case filealloc s1 of
             (None, s2) \<Rightarrow> bind_res (fileclose f0 s2) (\<lambda>s3. Ok (None, s3))
           | (Some f1, s2) \<Rightarrow>
               if k_pages s2 = 0
               then bind_res (fileclose f0 s2) (\<lambda>s3. bind_res (fileclose f1 s3) (\<lambda>s4. Ok (None, s4)))
               else let p = length (k_pipes s2);
                        s3 = s2\<lparr>k_pages := k_pages s2 - 1, k_pipes := k_pipes s2 @ [Some (pipe_init (replicate PIPESIZE 1))]\<rparr>;
                        s4 = set_file f0 (\<lambda>x. x\<lparr>f_type := FD_PIPE, f_readable := True, f_writable := False, f_pipe := p\<rparr>) s3
                    in Ok (Some (f0, f1),
                           set_file f1 (\<lambda>x. x\<lparr>f_type := FD_PIPE, f_readable := False, f_writable := True, f_pipe := p\<rparr>) s4)))"
end
