(* ===== verification/Sysfile.thy ===== *)
theory Sysfile
  imports File
begin

text \<open>
  The file system calls (sysfile.c, fcntl.h): checking of arguments, then the operations of theories \<^verbatim>\<open>Fs\<close> and \<^verbatim>\<open>File\<close> inside a
  transaction. A call is a function on the state of theory \<^verbatim>\<open>File\<close> that gives the value the process gets and the new state. The
  name buffers on the kernel stack hold arbitrary bytes before \<^verbatim>\<open>skipelem\<close> fills them; they are zero here, and no routine reads behind the NUL. \<^verbatim>\<open>sys_exec\<close>
  gives the arguments it calls \<^verbatim>\<open>exec\<close> with.
\<close>

section \<open>Definitions\<close>

definition O_RDONLY :: uint where "O_RDONLY = 0x000"
definition O_WRONLY :: uint where "O_WRONLY = 0x001"
definition O_RDWR :: uint where "O_RDWR = 0x002"
definition O_CREATE :: uint where "O_CREATE = 0x200"
definition MAXARG :: nat where "MAXARG = 32"

definition path_arg :: "nat \<Rightarrow> kst \<Rightarrow> byte list option" where
  "path_arg n s = (case argstr n (k_user s) of None \<Rightarrow> None | Some (l, a) \<Rightarrow> Some (ubytes (k_user s) a l))"

definition name_buf :: "byte list" where "name_buf = replicate DIRSIZ 0"

text \<open>The descriptor and the file.\<close>

definition argfd :: "nat \<Rightarrow> kst \<Rightarrow> (nat \<times> nat) option" where
  "argfd n s =
     (case argint n (k_user s) of
        None \<Rightarrow> None
      | Some w \<Rightarrow>
          let fd = sint w
          in if fd < 0 \<or> fd \<ge> int NOFILE then None
             else case k_ofile s ! nat fd of None \<Rightarrow> None | Some f \<Rightarrow> Some (nat fd, f))"

definition fdalloc :: "nat \<Rightarrow> kst \<Rightarrow> nat option \<times> kst" where
  "fdalloc f s =
     (case find_index (\<lambda>x. x = None) (k_ofile s) of
        Some fd \<Rightarrow> (Some fd, s\<lparr>k_ofile := (k_ofile s)[fd := Some f]\<rparr>)
      | None \<Rightarrow> (None, s))"

definition sys_dup :: "kst \<Rightarrow> (int \<times> kst) res" where
  "sys_dup s =
     (case argfd 0 s of
        None \<Rightarrow> Ok (-1, s)
      | Some (_, f) \<Rightarrow>
          (case fdalloc f s of
             (None, s1) \<Rightarrow> Ok (-1, s1)
           | (Some fd, s1) \<Rightarrow> bind_res (filedup f s1) (\<lambda>s2. Ok (int fd, s2))))"

definition sys_read :: "(nat \<Rightarrow> devsw) \<Rightarrow> kst \<Rightarrow> (int \<times> kst) res" where
  "sys_read dv s =
     (case (argfd 0 s, argint 2 (k_user s)) of
        (Some (_, f), Some n) \<Rightarrow>
          (case argptr 1 (sint n) (k_user s) of
             None \<Rightarrow> Ok (-1, s)
           | Some p \<Rightarrow> fileread dv f p (sint n) s)
      | _ \<Rightarrow> Ok (-1, s))"

definition sys_write :: "(nat \<Rightarrow> devsw) \<Rightarrow> kst \<Rightarrow> (int \<times> kst) res" where
  "sys_write dv s =
     (case (argfd 0 s, argint 2 (k_user s)) of
        (Some (_, f), Some n) \<Rightarrow>
          (case argptr 1 (sint n) (k_user s) of
             None \<Rightarrow> Ok (-1, s)
           | Some p \<Rightarrow> filewrite dv f p (sint n) s)
      | _ \<Rightarrow> Ok (-1, s))"

definition sys_close :: "kst \<Rightarrow> (int \<times> kst) res" where
  "sys_close s =
     (case argfd 0 s of
        None \<Rightarrow> Ok (-1, s)
      | Some (fd, f) \<Rightarrow>
          bind_res (fileclose f (s\<lparr>k_ofile := (k_ofile s)[fd := None]\<rparr>)) (\<lambda>s1. Ok (0, s1)))"

definition sys_fstat :: "kst \<Rightarrow> (int \<times> kst) res" where
  "sys_fstat s =
     (case (argfd 0 s, argptr 1 20 (k_user s)) of
        (Some (_, f), Some st) \<Rightarrow> filestat f st s
      | _ \<Rightarrow> Ok (-1, s))"

definition kset_inode :: "nat \<Rightarrow> (inode \<Rightarrow> inode) \<Rightarrow> kst \<Rightarrow> kst" where
  "kset_inode i f s = s\<lparr>k_fs := set_inode i f (k_fs s)\<rparr>"

text \<open>The label \<^verbatim>\<open>bad\<close> of \<^verbatim>\<open>sys_link\<close>.\<close>

definition link_bad :: "nat \<Rightarrow> kst \<Rightarrow> (int \<times> kst) res" where
  "link_bad ip s =
     bind_res (on_fs (ilock (Some ip)) s) (\<lambda>s1.
     bind_res (on_fs (iupdate ip) (kset_inode ip (\<lambda>x. x\<lparr>i_nlink := i_nlink x - 1\<rparr>) s1)) (\<lambda>s2.
     bind_res (on_fs (iunlockput ip) s2) (\<lambda>s3. Ok (-1, op_end s3))))"

text \<open>\<^verbatim>\<open>sys_link\<close> after the link count was raised.\<close>

definition link_entry :: "nat \<Rightarrow> byte list \<Rightarrow> kst \<Rightarrow> (int \<times> kst) res" where
  "link_entry ip new s =
     bind_res (on_fs_val (nameiparent (k_cwd s) new name_buf) s) (\<lambda>(r, s1).
     case r of
       None \<Rightarrow> link_bad ip s1
     | Some (dp, name) \<Rightarrow>
         bind_res (on_fs (ilock (Some dp)) s1) (\<lambda>s2.
         bind_res (if i_dev (fs_ic (k_fs s2) ! dp) \<noteq> i_dev (fs_ic (k_fs s2) ! ip) then Ok (-1, s2)
                   else on_fs_val (dirlink dp name (i_inum (fs_ic (k_fs s2) ! ip))) s2) (\<lambda>(k, s3).
         if k < 0 then bind_res (on_fs (iunlockput dp) s3) (\<lambda>s4. link_bad ip s4)
         else bind_res (on_fs (iunlockput dp) s3) (\<lambda>s4.
              bind_res (on_fs (iput ip) s4) (\<lambda>s5. Ok (0, op_end s5))))))"

definition sys_link :: "kst \<Rightarrow> (int \<times> kst) res" where
  "sys_link s =
     (case (path_arg 0 s, path_arg 1 s) of
        (Some old, Some new) \<Rightarrow>
          bind_res (on_fs_val (namei (k_cwd s) old) (op_begin s)) (\<lambda>(r, s1).
          case r of
            None \<Rightarrow> Ok (-1, op_end s1)
          | Some ip \<Rightarrow>
              bind_res (on_fs (ilock (Some ip)) s1) (\<lambda>s2.
              if i_type (fs_ic (k_fs s2) ! ip) = T_DIR
              then bind_res (on_fs (iunlockput ip) s2) (\<lambda>s3. Ok (-1, op_end s3))
              else bind_res (on_fs (iupdate ip) (kset_inode ip (\<lambda>x. x\<lparr>i_nlink := i_nlink x + 1\<rparr>) s2)) (\<lambda>s3.
                   bind_res (on_fs (iunlock (Some ip)) s3) (\<lambda>s4. link_entry ip new s4))))
      | _ \<Rightarrow> Ok (-1, s))"

function isdirempty_from :: "nat \<Rightarrow> nat \<Rightarrow> fs \<Rightarrow> (bool \<times> fs) res" where
  "isdirempty_from i off s =
     (if off \<ge> unat (i_size (fs_ic s ! i)) \<or> off \<ge> 4294967296 then Ok (True, s)
      else bind_res (readi i (word_of_nat off) (word_of_nat DIRENT) s) (\<lambda>(r, s1).
           case r of
             Done k de \<Rightarrow>
               if k \<noteq> int DIRENT then Panic ''isdirempty: readi''
               else if get16 de 0 \<noteq> 0 then Ok (False, s1)
               else isdirempty_from i (off + DIRENT) s1
           | Dev m \<Rightarrow> Panic ''isdirempty: readi''))"
  by pat_completeness auto
termination
  by (relation "measure (\<lambda>(i, off, s). 4294967296 - off)") (auto simp: DIRENT_def)

declare isdirempty_from.simps [simp del]

definition isdirempty :: "nat \<Rightarrow> fs \<Rightarrow> (bool \<times> fs) res" where
  "isdirempty i s = isdirempty_from i (2 * DIRENT) s"

text \<open>\<^verbatim>\<open>sys_unlink\<close> once the entry is found and may go: the parent and the inode are locked.\<close>

definition unlink_entry :: "nat \<Rightarrow> nat \<Rightarrow> uint \<Rightarrow> kst \<Rightarrow> (int \<times> kst) res" where
  "unlink_entry dp ip off s =
     bind_res (on_fs_val (writei dp (replicate DIRENT 0) off (word_of_nat DIRENT)) s) (\<lambda>(r, s1).
     if r \<noteq> Done (int DIRENT) [] then Panic ''unlink: writei''
     else bind_res (if i_type (fs_ic (k_fs s1) ! ip) = T_DIR
                    then on_fs (iupdate dp) (kset_inode dp (\<lambda>x. x\<lparr>i_nlink := i_nlink x - 1\<rparr>) s1) else Ok s1) (\<lambda>s2.
          bind_res (on_fs (iunlockput dp) s2) (\<lambda>s3.
          bind_res (on_fs (iupdate ip) (kset_inode ip (\<lambda>x. x\<lparr>i_nlink := i_nlink x - 1\<rparr>) s3)) (\<lambda>s4.
          bind_res (on_fs (iunlockput ip) s4) (\<lambda>s5. Ok (0, op_end s5))))))"

definition unlink_bad :: "nat \<Rightarrow> kst \<Rightarrow> (int \<times> kst) res" where
  "unlink_bad dp s = bind_res (on_fs (iunlockput dp) s) (\<lambda>s1. Ok (-1, op_end s1))"

definition sys_unlink :: "kst \<Rightarrow> (int \<times> kst) res" where
  "sys_unlink s =
     (case path_arg 0 s of
        None \<Rightarrow> Ok (-1, s)
      | Some path \<Rightarrow>
          bind_res (on_fs_val (nameiparent (k_cwd s) path name_buf) (op_begin s)) (\<lambda>(r, s1).
          case r of
            None \<Rightarrow> Ok (-1, op_end s1)
          | Some (dp, name) \<Rightarrow>
              bind_res (on_fs (ilock (Some dp)) s1) (\<lambda>s2.
              if namecmp name [46, 0] = Some 0 \<or> namecmp name [46, 46, 0] = Some 0 then unlink_bad dp s2
              else bind_res (on_fs_val (dirlookup dp name) s2) (\<lambda>(e, s3).
                   case e of
                     None \<Rightarrow> unlink_bad dp s3
                   | Some (ip, off) \<Rightarrow>
                       bind_res (on_fs (ilock (Some ip)) s3) (\<lambda>s4.
                       let x = fs_ic (k_fs s4) ! ip
                       in if sint (i_nlink x) < 1 then Panic ''unlink: nlink < 1''
                          else bind_res (if i_type x = T_DIR then on_fs_val (isdirempty ip) s4 else Ok (True, s4)) (\<lambda>(empty, s5).
                               if \<not> empty then bind_res (on_fs (iunlockput ip) s5) (\<lambda>s6. unlink_bad dp s6)
                               else unlink_entry dp ip off s5))))))"

text \<open>The new inode of \<^verbatim>\<open>create\<close>, with the entries of a directory.\<close>

definition create_new :: "nat \<Rightarrow> byte list \<Rightarrow> ushort \<Rightarrow> ushort \<Rightarrow> ushort \<Rightarrow> fs \<Rightarrow> (nat option \<times> fs) res" where
  "create_new dp name type major minor s =
     bind_res (ialloc (i_dev (fs_ic s ! dp)) type s) (\<lambda>(ip, s1).
     bind_res (ilock (Some ip) s1) (\<lambda>s2.
     bind_res (iupdate ip (set_inode ip (\<lambda>x. x\<lparr>i_major := major, i_minor := minor, i_nlink := 1\<rparr>) s2)) (\<lambda>s3.
     bind_res (if type = T_DIR
               then bind_res (iupdate dp (set_inode dp (\<lambda>x. x\<lparr>i_nlink := i_nlink x + 1\<rparr>) s3)) (\<lambda>s4.
                    bind_res (dirlink ip [46, 0] (i_inum (fs_ic s4 ! ip)) s4) (\<lambda>(k, s5).
                    if k < 0 then Panic ''create dots''
                    else bind_res (dirlink ip [46, 46, 0] (i_inum (fs_ic s5 ! dp)) s5) (\<lambda>(k, s6).
                         if k < 0 then Panic ''create dots'' else Ok s6)))
               else Ok s3) (\<lambda>s7.
     bind_res (dirlink dp name (i_inum (fs_ic s7 ! ip)) s7) (\<lambda>(k, s8).
     if k < 0 then Panic ''create: dirlink''
     else bind_res (iunlockput dp s8) (\<lambda>s9. Ok (Some ip, s9)))))))"

definition create :: "nat \<Rightarrow> byte list \<Rightarrow> ushort \<Rightarrow> ushort \<Rightarrow> ushort \<Rightarrow> fs \<Rightarrow> (nat option \<times> fs) res" where
  "create cwd path type major minor s =
     bind_res (nameiparent cwd path name_buf s) (\<lambda>(r, s1).
     case r of
       None \<Rightarrow> Ok (None, s1)
     | Some (dp, name) \<Rightarrow>
         bind_res (ilock (Some dp) s1) (\<lambda>s2.
         bind_res (dirlookup dp name s2) (\<lambda>(e, s3).
         case e of
           Some (ip, off) \<Rightarrow>
             bind_res (iunlockput dp s3) (\<lambda>s4.
             bind_res (ilock (Some ip) s4) (\<lambda>s5.
             if type = T_FILE \<and> i_type (fs_ic s5 ! ip) = T_FILE then Ok (Some ip, s5)
             else bind_res (iunlockput ip s5) (\<lambda>s6. Ok (None, s6))))
         | None \<Rightarrow> create_new dp name type major minor s3)))"

text \<open>\<^verbatim>\<open>sys_open\<close> once the inode is found and locked.\<close>

definition open_inode :: "nat \<Rightarrow> uint \<Rightarrow> kst \<Rightarrow> (int \<times> kst) res" where
  "open_inode ip omode s =
     (let fail = (\<lambda>s. bind_res (on_fs (iunlockput ip) s) (\<lambda>s1. Ok (-1, op_end s1)))
      in case filealloc s of
           (None, s1) \<Rightarrow> fail s1
         | (Some f, s1) \<Rightarrow>
             (case fdalloc f s1 of
                (None, s2) \<Rightarrow> bind_res (fileclose f s2) fail
              | (Some fd, s2) \<Rightarrow>
                  bind_res (on_fs (iunlock (Some ip)) s2) (\<lambda>s3.
                  Ok (int fd, set_file f (\<lambda>x. x\<lparr>f_type := FD_INODE, f_ip := ip, f_off := 0,
                        f_readable := (omode AND O_WRONLY = 0),
                        f_writable := (omode AND O_WRONLY \<noteq> 0 \<or> omode AND O_RDWR \<noteq> 0)\<rparr>) (op_end s3)))))"

definition sys_open :: "kst \<Rightarrow> (int \<times> kst) res" where
  "sys_open s =
     (case (path_arg 0 s, argint 1 (k_user s)) of
        (Some path, Some omode) \<Rightarrow>
          if omode AND O_CREATE \<noteq> 0
          then bind_res (on_fs_val (create (k_cwd s) path T_FILE 0 0) (op_begin s)) (\<lambda>(r, s1).
               case r of None \<Rightarrow> Ok (-1, op_end s1) | Some ip \<Rightarrow> open_inode ip omode s1)
          else bind_res (on_fs_val (namei (k_cwd s) path) (op_begin s)) (\<lambda>(r, s1).
               case r of
                 None \<Rightarrow> Ok (-1, op_end s1)
               | Some ip \<Rightarrow>
                   bind_res (on_fs (ilock (Some ip)) s1) (\<lambda>s2.
                   if i_type (fs_ic (k_fs s2) ! ip) = T_DIR \<and> omode \<noteq> O_RDONLY
                   then bind_res (on_fs (iunlockput ip) s2) (\<lambda>s3. Ok (-1, op_end s3))
                   else open_inode ip omode s2))
      | _ \<Rightarrow> Ok (-1, s))"

definition make_node :: "byte list \<Rightarrow> ushort \<Rightarrow> ushort \<Rightarrow> ushort \<Rightarrow> kst \<Rightarrow> (int \<times> kst) res" where
  "make_node path type major minor s =
     bind_res (on_fs_val (create (k_cwd s) path type major minor) s) (\<lambda>(r, s1).
     case r of
       None \<Rightarrow> Ok (-1, op_end s1)
     | Some ip \<Rightarrow> bind_res (on_fs (iunlockput ip) s1) (\<lambda>s2. Ok (0, op_end s2)))"

definition sys_mkdir :: "kst \<Rightarrow> (int \<times> kst) res" where
  "sys_mkdir s =
     (case path_arg 0 s of
        None \<Rightarrow> Ok (-1, op_end (op_begin s))
      | Some path \<Rightarrow> make_node path T_DIR 0 0 (op_begin s))"

definition sys_mknod :: "kst \<Rightarrow> (int \<times> kst) res" where
  "sys_mknod s =
     (case (path_arg 0 s, argint 1 (k_user s), argint 2 (k_user s)) of
        (Some path, Some major, Some minor) \<Rightarrow> make_node path T_DEV (ucast major) (ucast minor) (op_begin s)
      | _ \<Rightarrow> Ok (-1, op_end (op_begin s)))"

definition sys_chdir :: "kst \<Rightarrow> (int \<times> kst) res" where
  "sys_chdir s =
     (case path_arg 0 s of
        None \<Rightarrow> Ok (-1, op_end (op_begin s))
      | Some path \<Rightarrow>
          bind_res (on_fs_val (namei (k_cwd s) path) (op_begin s)) (\<lambda>(r, s1).
          case r of
            None \<Rightarrow> Ok (-1, op_end s1)
          | Some ip \<Rightarrow>
              bind_res (on_fs (ilock (Some ip)) s1) (\<lambda>s2.
              if i_type (fs_ic (k_fs s2) ! ip) \<noteq> T_DIR
              then bind_res (on_fs (iunlockput ip) s2) (\<lambda>s3. Ok (-1, op_end s3))
              else bind_res (on_fs (iunlock (Some ip)) s2) (\<lambda>s3.
                   bind_res (on_fs (iput (k_cwd s3)) s3) (\<lambda>s4.
                   Ok (0, (op_end s4)\<lparr>k_cwd := ip\<rparr>))))))"

text \<open>The arguments from the \<open>i\<close>-th on; \<open>k\<close> is the room left in \<^verbatim>\<open>argv\<close>.\<close>

fun exec_args :: "nat \<Rightarrow> nat \<Rightarrow> uint \<Rightarrow> uproc \<Rightarrow> byte list list option" where
  "exec_args 0 i uargv u = None"
| "exec_args (Suc k) i uargv u =
     (case fetchint (uargv + 4 * word_of_nat i) u of
        None \<Rightarrow> None
      | Some uarg \<Rightarrow>
          if uarg = 0 then Some []
          else case fetchstr uarg u of
                 None \<Rightarrow> None
               | Some (l, a) \<Rightarrow> map_option (\<lambda>rest. ubytes u a l # rest) (exec_args k (Suc i) uargv u))"

text \<open>None: the call returns -1.\<close>

definition sys_exec :: "kst \<Rightarrow> (byte list \<times> byte list list) option" where
  "sys_exec s =
     (case (path_arg 0 s, argint 1 (k_user s)) of
        (Some path, Some uargv) \<Rightarrow> map_option (Pair path) (exec_args MAXARG 0 uargv (k_user s))
      | _ \<Rightarrow> None)"

definition sys_pipe :: "kst \<Rightarrow> (int \<times> kst) res" where
  "sys_pipe s =
     (case argptr 0 8 (k_user s) of
        None \<Rightarrow> Ok (-1, s)
      | Some fd \<Rightarrow>
          bind_res (pipealloc s) (\<lambda>(r, s1).
          case r of
            None \<Rightarrow> Ok (-1, s1)
          | Some (r_f, w_f) \<Rightarrow>
              let fail = (\<lambda>s. bind_res (fileclose r_f s) (\<lambda>s3. bind_res (fileclose w_f s3) (\<lambda>s4. Ok (-1, s4))))
              in case fdalloc r_f s1 of
                   (None, s2) \<Rightarrow> fail s2
                 | (Some fd0, s2) \<Rightarrow>
                     (case fdalloc w_f s2 of
                        (None, s3) \<Rightarrow> fail (s3\<lparr>k_ofile := (k_ofile s3)[fd0 := None]\<rparr>)
                      | (Some fd1, s3) \<Rightarrow>
                          Ok (0, s3\<lparr>k_user := ustore (fd + 4) (bytes32 (word_of_nat fd1)) (ustore fd (bytes32 (word_of_nat fd0)) (k_user s3))\<rparr>))))"

end
