(* ===== verification/Fs_Locks.thy ===== *)
theory Fs_Locks
  imports Fs
begin

text \<open>
  What the operations of fs.c do to the sleep locks of the inodes: \<^verbatim>\<open>ilock\<close> takes a lock that was free, \<^verbatim>\<open>iunlock\<close> and \<^verbatim>\<open>iunlockput\<close> give it
  back, and every other operation that returns leaves all locks as they were.
\<close>

definition lockmap :: "fs \<Rightarrow> bool list" where
  "lockmap s = map i_held (fs_ic s)"

named_theorems keeps

lemma lockmap_disk [simp]: "lockmap (s\<lparr>fs_dk := d\<rparr>) = lockmap s" "lockmap (s\<lparr>fs_sb := b\<rparr>) = lockmap s"
  by (simp_all add: lockmap_def)

lemma lockmap_set_inode: "lockmap (set_inode i f s) = (lockmap s)[i := i_held (f (fs_ic s ! i))]"
  by (simp add: lockmap_def set_inode_def map_update)

lemma lockmap_set_same [simp]: "i_held (f (fs_ic s ! i)) = i_held (fs_ic s ! i) \<Longrightarrow> lockmap (set_inode i f s) = lockmap s"
  by (cases "i < length (fs_ic s)") (simp_all add: lockmap_set_inode, simp_all add: lockmap_def list_update_same_conv list_update_beyond)

lemma up_blk_keeps [keeps]: "up_blk dev n f s = Ok s' \<Longrightarrow> lockmap s' = lockmap s"
  by (auto simp: up_blk_def elim!: bind_res_OkE)

lemma bzero_keeps [keeps]: "bzero dev b s = Ok s' \<Longrightarrow> lockmap s' = lockmap s"
  by (auto simp: bzero_def dest: keeps)

lemma balloc_from_keeps [keeps]: "balloc_from dev k b s = Ok (a, s') \<Longrightarrow> lockmap s' = lockmap s"
  by (induction dev k b s rule: balloc_from.induct) (auto elim!: bind_res_OkE dest!: keeps split: option.splits)

lemma balloc_keeps [keeps]: "balloc dev s = Ok (a, s') \<Longrightarrow> lockmap s' = lockmap s"
  by (auto simp: balloc_def dest: keeps)

lemma bfree_keeps [keeps]: "bfree dev b s = Ok s' \<Longrightarrow> lockmap s' = lockmap s"
  by (auto simp: bfree_def Let_def elim!: bind_res_OkE dest!: keeps split: if_splits)

lemma iget_keeps [keeps]: "iget dev inum s = Ok (i, s') \<Longrightarrow> lockmap s' = lockmap s"
  by (auto simp: iget_def split: option.splits)

lemma ialloc_from_keeps [keeps]: "ialloc_from dev t ns s = Ok (i, s') \<Longrightarrow> lockmap s' = lockmap s"
  by (induction dev t ns s rule: ialloc_from.induct) (auto simp: Let_def elim!: bind_res_OkE dest!: keeps split: if_splits)

lemma ialloc_keeps [keeps]: "ialloc dev t s = Ok (i, s') \<Longrightarrow> lockmap s' = lockmap s"
  by (auto simp: ialloc_def dest: keeps)

lemma iupdate_keeps [keeps]: "iupdate i s = Ok s' \<Longrightarrow> lockmap s' = lockmap s"
  by (auto simp: iupdate_def Let_def dest: keeps)

lemma idup_keeps [simp]: "lockmap (idup i s) = lockmap s"
  by (simp add: idup_def)

lemma trunc_direct_keeps [keeps]: "trunc_direct i ks s = Ok s' \<Longrightarrow> lockmap s' = lockmap s"
  by (induction i ks s rule: trunc_direct.induct) (auto simp: Let_def elim!: bind_res_OkE dest: keeps split: if_splits)

lemma trunc_indirect_keeps [keeps]: "trunc_indirect dev as s = Ok s' \<Longrightarrow> lockmap s' = lockmap s"
  by (induction dev as s rule: trunc_indirect.induct) (auto elim!: bind_res_OkE dest: keeps split: if_splits)

lemma itrunc_keeps [keeps]: "itrunc i s = Ok s' \<Longrightarrow> lockmap s' = lockmap s"
  by (auto simp: itrunc_def Let_def elim!: bind_res_OkE dest!: keeps split: if_splits)

text \<open>Taking and giving back.\<close>

definition free_at :: "bool list \<Rightarrow> nat \<Rightarrow> bool" where
  "free_at h i \<longleftrightarrow> (i < length h \<longrightarrow> \<not> h ! i)"

lemma free_at_cancel [simp]: "free_at h i \<Longrightarrow> h[i := False] = h"
  by (cases "i < length h") (auto simp: free_at_def list_update_beyond intro: list_update_same_conv [THEN iffD2])

text \<open>Two locks, given back in either order.\<close>

lemma two_locks:
  assumes "free_at h d" "free_at (h[d := True]) i"
  shows "free_at h i" "h[d := True, i := True, d := False] = h[i := True]" "h[d := True, i := True, i := False] = h[d := True]"
proof -
  have e: "(h[j := v]) ! k = (if j = k \<and> j < length h then v else h ! k)" for h :: "bool list" and j v k
    by (cases "j < length h") (simp_all add: nth_list_update list_update_beyond)
  show "free_at h i" "h[d := True, i := True, d := False] = h[i := True]" "h[d := True, i := True, i := False] = h[d := True]"
    using assms by (auto simp: free_at_def list_eq_iff_nth_eq e split: if_splits)
qed

lemma acquire_inode_takes [keeps]: "acquire_inode i s = Ok s' \<Longrightarrow> lockmap s' = (lockmap s)[i := True] \<and> free_at (lockmap s) i"
  by (auto simp: acquire_inode_def free_at_def lockmap_set_inode split: if_splits) (simp add: lockmap_def)

lemma ilock_takes [keeps]: "ilock (Some i) s = Ok s' \<Longrightarrow> lockmap s' = (lockmap s)[i := True] \<and> free_at (lockmap s) i"
  by (auto simp: ilock_def Let_def read_dinode_def elim!: bind_res_OkE dest!: keeps split: if_splits)

lemma release_inode_gives [simp]: "lockmap (release_inode i s) = (lockmap s)[i := False]"
  by (simp add: release_inode_def lockmap_set_inode)

lemma iunlock_gives [keeps]: "iunlock (Some i) s = Ok s' \<Longrightarrow> lockmap s' = (lockmap s)[i := False]"
  by (auto simp: iunlock_def split: if_splits)

lemma iput_keeps [keeps]: "iput i s = Ok s' \<Longrightarrow> lockmap s' = lockmap s"
  by (auto simp: iput_def elim!: bind_res_OkE dest!: keeps split: if_splits)

lemma iunlockput_gives [keeps]: "iunlockput i s = Ok s' \<Longrightarrow> lockmap s' = (lockmap s)[i := False]"
  by (auto simp: iunlockput_def elim!: bind_res_OkE dest!: keeps)

lemma bmap_keeps [keeps]: "bmap i bn s = Ok (a, s') \<Longrightarrow> lockmap s' = lockmap s"
  by (auto simp: bmap_def Let_def elim!: bind_res_OkE dest!: keeps split: if_splits)

lemma readi_loop_keeps [keeps]: "readi_loop i off n s = Ok (ds, s') \<Longrightarrow> lockmap s' = lockmap s"
proof (induction n arbitrary: off s ds rule: less_induct)
  case (less n)
  show ?case using less.prems
    by (subst (asm) readi_loop.simps) (auto simp: Let_def elim!: bind_res_OkE dest!: keeps less.IH [rotated] split: if_splits)
qed

lemma readi_keeps [keeps]: "readi i off n s = Ok (r, s') \<Longrightarrow> lockmap s' = lockmap s"
  by (auto simp: readi_def Let_def elim!: bind_res_OkE dest!: keeps split: if_splits)

lemma writei_loop_keeps [keeps]: "writei_loop i src off s = Ok s' \<Longrightarrow> lockmap s' = lockmap s"
proof (induction "length src" arbitrary: src off s rule: less_induct)
  case less
  show ?case using less.prems
    by (subst (asm) writei_loop.simps) (auto simp: Let_def elim!: bind_res_OkE dest!: keeps less.hyps [rotated] split: if_splits)
qed

lemma writei_keeps [keeps]: "writei i src off n s = Ok (r, s') \<Longrightarrow> lockmap s' = lockmap s"
  by (auto simp: writei_def Let_def elim!: bind_res_OkE dest!: keeps split: if_splits)

lemma dirlookup_from_keeps [keeps]: "dirlookup_from i nm off s = Ok (r, s') \<Longrightarrow> lockmap s' = lockmap s"
proof (induction "4294967296 - off" arbitrary: off s rule: less_induct)
  case less
  show ?case using less.prems
    by (subst (asm) dirlookup_from.simps)
      (auto simp: DIRENT_def elim!: bind_res_OkE dest!: keeps less.hyps [rotated] split: if_splits rw.splits option.splits)
qed

lemma dirlookup_keeps [keeps]: "dirlookup i nm s = Ok (r, s') \<Longrightarrow> lockmap s' = lockmap s"
  by (auto simp: dirlookup_def dest: keeps split: if_splits)

lemma empty_from_keeps [keeps]: "empty_from i off s = Ok (k, s') \<Longrightarrow> lockmap s' = lockmap s"
proof (induction "4294967296 - off" arbitrary: off s rule: less_induct)
  case less
  show ?case using less.prems
    by (subst (asm) empty_from.simps) (auto simp: DIRENT_def elim!: bind_res_OkE dest!: keeps less.hyps [rotated] split: if_splits rw.splits)
qed

lemma dirlink_keeps [keeps]: "dirlink i nm inum s = Ok (k, s') \<Longrightarrow> lockmap s' = lockmap s"
  by (auto simp: dirlink_def elim!: bind_res_OkE dest!: keeps split: if_splits rw.splits option.splits)

lemma namex_from_keeps [keeps]: "namex_from i path parent nm s = Ok (r, s') \<Longrightarrow> lockmap s' = lockmap s"
proof (induction "length path" arbitrary: i path parent nm s rule: less_induct)
  case less
  show ?case using less.prems
    by (subst (asm) namex_from.simps)
      (auto elim!: bind_res_OkE dest!: keeps skipelem_shorter less.hyps [rotated] split: if_splits option.splits)
qed

lemma namex_keeps [keeps]: "namex cwd path parent nm s = Ok (r, s') \<Longrightarrow> lockmap s' = lockmap s"
  by (auto simp: namex_def elim!: bind_res_OkE dest!: keeps split: if_splits)

lemma namei_keeps [keeps]: "namei cwd path s = Ok (r, s') \<Longrightarrow> lockmap s' = lockmap s"
  by (auto simp: namei_def elim!: bind_res_OkE dest!: keeps)

lemma nameiparent_keeps [keeps]: "nameiparent cwd path nm s = Ok (r, s') \<Longrightarrow> lockmap s' = lockmap s"
  by (auto simp: nameiparent_def dest: keeps)

end
