(* ===== verification/Sysfile_Props.thy ===== *)
theory Sysfile_Props
  imports Sysfile Fs_Locks Fs_Blocks "HOL-Library.Multiset"
begin

text \<open>
  Properties of the file system calls: every call gives back the inode locks it takes and closes the transaction it opens, on all
  its paths, and keeps the reference counts of the open files equal to the number of descriptors that name them.
\<close>

section \<open>Locks, transactions and references\<close>

definition klocks :: "kst \<Rightarrow> bool list" where "klocks s = lockmap (k_fs s)"
definition krefs :: "kst \<Rightarrow> int list" where "krefs s = map f_ref (k_files s)"

text \<open>What an operation leaves alone: the reference counts and the descriptors.\<close>

definition same_fds :: "kst \<Rightarrow> kst \<Rightarrow> bool" where
  "same_fds s s' \<longleftrightarrow> krefs s' = krefs s \<and> k_ofile s' = k_ofile s"

lemma same_fds_simps [simp]: "same_fds s s" "same_fds s (op_begin s') = same_fds s s'" "same_fds s (op_end s') = same_fds s s'"
    "same_fds (op_begin s) s' = same_fds s s'" "same_fds s (s'\<lparr>k_fs := t\<rparr>) = same_fds s s'" "same_fds s (kset_inode i f s') = same_fds s s'"
    "same_fds (kset_inode i f s) s' = same_fds s s'"
  by (simp_all add: same_fds_def op_begin_def op_end_def krefs_def kset_inode_def)

lemma k_simps [simp]:
  "klocks (op_begin s) = klocks s" "klocks (op_end s) = klocks s" "k_ops (op_begin s) = k_ops s + 1" "k_ops (op_end s) = k_ops s - 1"
  "klocks (set_file f g s) = klocks s" "k_ops (set_file f g s) = k_ops s" "k_ofile (set_file f g s) = k_ofile s"
  "klocks (s\<lparr>k_fs := t\<rparr>) = lockmap t" "k_ops (kset_inode i h s) = k_ops s"
  "klocks (s\<lparr>k_user := u\<rparr>) = klocks s" "klocks (s\<lparr>k_pipes := ps\<rparr>) = klocks s" "klocks (s\<lparr>k_pages := n\<rparr>) = klocks s"
  "klocks (s\<lparr>k_ofile := fds\<rparr>) = klocks s" "klocks (s\<lparr>k_cwd := c\<rparr>) = klocks s"
  by (simp_all add: klocks_def op_begin_def op_end_def set_file_def kset_inode_def)

lemma klocks_kset [simp]: "(\<And>x. i_held (f x) = i_held x) \<Longrightarrow> klocks (kset_inode i f s) = klocks s"
  by (simp add: klocks_def kset_inode_def)

lemma krefs_set_file: "krefs (set_file f g s) = (krefs s)[f := f_ref (g (k_files s ! f))]"
  by (simp add: krefs_def set_file_def map_update)

lemma krefs_set_same [simp]: "(\<And>x. f_ref (g x) = f_ref x) \<Longrightarrow> krefs (set_file f g s) = krefs s"
  by (cases "f < length (k_files s)") (simp_all add: krefs_set_file, simp_all add: krefs_def list_update_same_conv list_update_beyond)

lemma on_fsE:
  assumes "on_fs f s = Ok s'"
  obtains t where "f (k_fs s) = Ok t" "s' = s\<lparr>k_fs := t\<rparr>"
  using assms by (auto simp: on_fs_def elim!: bind_res_OkE)

lemma on_fs_valE:
  assumes "on_fs_val f s = Ok (v, s')"
  obtains t where "f (k_fs s) = Ok (v, t)" "s' = s\<lparr>k_fs := t\<rparr>"
  using assms by (auto simp: on_fs_val_def elim!: bind_res_OkE)

text \<open>A routine of a device gives back what it takes.\<close>

definition dev_op_ok :: "dev_op \<Rightarrow> bool" where
  "dev_op_ok f \<longleftrightarrow> (\<forall>i a n s r s'. f i a n s = Ok (r, s') \<longrightarrow> klocks s' = klocks s \<and> k_ops s' = k_ops s \<and> same_fds s s')"

definition devs_ok :: "(nat \<Rightarrow> devsw) \<Rightarrow> bool" where
  "devs_ok dv \<longleftrightarrow> (\<forall>m. dev_op_ok (dev_read (dv m)) \<and> dev_op_ok (dev_write (dv m)))"

definition balanced :: "kst \<Rightarrow> kst \<Rightarrow> bool" where
  "balanced s s' \<longleftrightarrow> klocks s' = klocks s \<and> k_ops s' = k_ops s"

lemma isdirempty_from_keeps [keeps]: "isdirempty_from i off s = Ok (k, s') \<Longrightarrow> lockmap s' = lockmap s"
proof (induction "4294967296 - off" arbitrary: off s rule: less_induct)
  case less
  show ?case using less.prems
    by (subst (asm) isdirempty_from.simps) (auto simp: DIRENT_def elim!: bind_res_OkE dest!: keeps less.hyps [rotated] split: if_splits rw.splits)
qed

lemma isdirempty_keeps [keeps]: "isdirempty i s = Ok (k, s') \<Longrightarrow> lockmap s' = lockmap s"
  by (auto simp: isdirempty_def dest: keeps)

text \<open>The same for operations on the whole state.\<close>

lemma k_ilock: "on_fs (ilock (Some i)) s = Ok s' \<Longrightarrow>
    klocks s' = (klocks s)[i := True] \<and> free_at (klocks s) i \<and> k_ops s' = k_ops s \<and> same_fds s s'"
  by (auto simp: klocks_def elim!: on_fsE dest!: keeps)

lemma k_iunlock: "on_fs (iunlock (Some i)) s = Ok s' \<Longrightarrow> klocks s' = (klocks s)[i := False] \<and> k_ops s' = k_ops s \<and> same_fds s s'"
  by (auto simp: klocks_def elim!: on_fsE dest!: keeps)

lemma k_iunlockput: "on_fs (iunlockput i) s = Ok s' \<Longrightarrow> klocks s' = (klocks s)[i := False] \<and> k_ops s' = k_ops s \<and> same_fds s s'"
  by (auto simp: klocks_def elim!: on_fsE dest!: keeps)

lemma k_iput: "on_fs (iput i) s = Ok s' \<Longrightarrow> klocks s' = klocks s \<and> k_ops s' = k_ops s \<and> same_fds s s'"
  by (auto simp: klocks_def elim!: on_fsE dest!: keeps)

lemma k_iupdate: "on_fs (iupdate i) s = Ok s' \<Longrightarrow> klocks s' = klocks s \<and> k_ops s' = k_ops s \<and> same_fds s s'"
  by (auto simp: klocks_def elim!: on_fsE dest!: keeps)

lemma k_vals:
  "on_fs_val (namei c p) s = Ok (v, s') \<Longrightarrow> klocks s' = klocks s \<and> k_ops s' = k_ops s \<and> same_fds s s' \<and> k_cwd s' = k_cwd s"
  "on_fs_val (nameiparent c p nm) s = Ok (w, s') \<Longrightarrow> klocks s' = klocks s \<and> k_ops s' = k_ops s \<and> same_fds s s' \<and> k_cwd s' = k_cwd s"
  "on_fs_val (dirlookup i nm) s = Ok (x, s') \<Longrightarrow> klocks s' = klocks s \<and> k_ops s' = k_ops s \<and> same_fds s s'"
  "on_fs_val (dirlink i nm j) s = Ok (y, s') \<Longrightarrow> klocks s' = klocks s \<and> k_ops s' = k_ops s \<and> same_fds s s'"
  "on_fs_val (isdirempty i) s = Ok (z, s') \<Longrightarrow> klocks s' = klocks s \<and> k_ops s' = k_ops s \<and> same_fds s s'"
  "on_fs_val (readi i off n) s = Ok (r, s') \<Longrightarrow> klocks s' = klocks s \<and> k_ops s' = k_ops s \<and> same_fds s s'"
  "on_fs_val (writei i src off n) s = Ok (r, s') \<Longrightarrow> klocks s' = klocks s \<and> k_ops s' = k_ops s \<and> same_fds s s'"
  by (auto simp: klocks_def elim!: on_fs_valE dest!: keeps)

lemmas k_keeps = k_ilock k_iunlock k_iunlockput k_iput k_iupdate k_vals

lemma same_fds_trans [trans]: "same_fds s s1 \<Longrightarrow> same_fds s1 s2 \<Longrightarrow> same_fds s s2"
  by (simp add: same_fds_def)

lemma balanced_refl [simp]: "balanced s s"
  by (simp add: balanced_def)

text \<open>An operation that keeps everything: locks, transactions, reference counts and descriptors.\<close>

definition still :: "kst \<Rightarrow> kst \<Rightarrow> bool" where
  "still s s' \<longleftrightarrow> balanced s s' \<and> same_fds s s'"

lemma still_iff: "still s s' \<longleftrightarrow> klocks s' = klocks s \<and> k_ops s' = k_ops s \<and> krefs s' = krefs s \<and> k_ofile s' = k_ofile s"
  by (auto simp: still_def balanced_def same_fds_def)

lemma same_fdsD: "same_fds s s' \<Longrightarrow> krefs s' = krefs s \<and> k_ofile s' = k_ofile s"
  by (simp add: same_fds_def)

lemma k_op_simps [simp]:
  "krefs (op_begin s) = krefs s" "krefs (op_end s) = krefs s" "k_ofile (op_begin s) = k_ofile s" "k_ofile (op_end s) = k_ofile s"
  "krefs (kset_inode i f s) = krefs s" "k_ofile (kset_inode i f s) = k_ofile s" "krefs (s\<lparr>k_fs := t\<rparr>) = krefs s"
  "krefs (s\<lparr>k_user := u\<rparr>) = krefs s" "krefs (s\<lparr>k_pipes := ps\<rparr>) = krefs s" "krefs (s\<lparr>k_pages := n\<rparr>) = krefs s"
  "krefs (s\<lparr>k_ofile := fds\<rparr>) = krefs s" "krefs (s\<lparr>k_cwd := c\<rparr>) = krefs s" "k_cwd (op_begin s) = k_cwd s"
  by (simp_all add: op_begin_def op_end_def krefs_def kset_inode_def)

section \<open>Each operation\<close>

lemma advance_still [simp]: "klocks (advance f r s) = klocks s" "k_ops (advance f r s) = k_ops s" "krefs (advance f r s) = krefs s"
    "k_ofile (advance f r s) = k_ofile s"
  by (simp_all add: advance_def)

lemma filestat_still: "filestat f a s = Ok (r, s') \<Longrightarrow> still s s'"
  by (auto simp: filestat_def Let_def still_iff elim!: bind_res_OkE dest!: k_keeps same_fdsD split: if_splits)

lemma dev_still: "dev_read (dv m) i a n s = Ok (r, s') \<Longrightarrow> devs_ok dv \<Longrightarrow> still s s'"
    "dev_write (dv m) i a n s = Ok (r, s') \<Longrightarrow> devs_ok dv \<Longrightarrow> still s s'"
  by (auto simp: devs_ok_def dev_op_ok_def still_def balanced_def)

lemma read_inode_still: "read_inode dv i a off n s = Ok (r, s') \<Longrightarrow> devs_ok dv \<Longrightarrow> still s s'"
  by (auto simp: read_inode_def elim!: bind_res_OkE dest!: k_keeps split: rw.splits) (auto simp: still_iff dest!: dev_still same_fdsD)

lemma write_inode_still: "write_inode dv i a off n s = Ok (r, s') \<Longrightarrow> devs_ok dv \<Longrightarrow> still s s'"
  by (auto simp: write_inode_def elim!: bind_res_OkE dest!: k_keeps split: rw.splits) (auto simp: still_iff dest!: dev_still same_fdsD)

lemma fileread_still: "fileread dv f a n s = Ok (r, s') \<Longrightarrow> devs_ok dv \<Longrightarrow> still s s'"
  by (auto simp: fileread_def Let_def still_iff elim!: bind_res_OkE dest!: k_keeps same_fdsD read_inode_still
      split: if_splits fdtype.splits option.splits prod.splits ptry.splits)

lemma filewrite_step_still: "filewrite_step dv f a n s = Ok (r, s') \<Longrightarrow> devs_ok dv \<Longrightarrow> still s s'"
  by (auto simp: filewrite_step_def Let_def still_iff elim!: bind_res_OkE dest!: k_keeps same_fdsD write_inode_still)

lemma still_trans: "still s s1 \<Longrightarrow> still s1 s2 \<Longrightarrow> still s s2"
  by (simp add: still_iff)

lemma filewrite_loop_still: "filewrite_loop dv f a n i s = Ok (r, s') \<Longrightarrow> devs_ok dv \<Longrightarrow> still s s'"
proof (induction "nat (n - i)" arbitrary: i s rule: less_induct)
  case less
  let ?m = "min (n - i) filewrite_max"
  show ?case
  proof (cases "i \<ge> n")
    case True
    then show ?thesis using less.prems by (simp add: filewrite_loop.simps still_iff)
  next
    case False
    obtain k s1 where k: "filewrite_step dv f (a + word_of_int i) ?m s = Ok (k, s1)"
        "k < 0 \<and> s' = s1 \<or> filewrite_loop dv f a n (i + ?m) s1 = Ok (r, s')"
      using less.prems(1) False by (subst (asm) filewrite_loop.simps) (auto simp: Let_def elim!: bind_res_OkE split: if_splits)
    have "nat (n - (i + ?m)) < nat (n - i)" using False by (auto simp: filewrite_max_def LOGSIZE_def)
    note IH = less.hyps [OF this _ less.prems(2)]
    show ?thesis using filewrite_step_still [OF k(1) less.prems(2)] k(2) by (auto intro: still_trans dest: IH)
  qed
qed

lemma filewrite_still: "filewrite dv f a n s = Ok (r, s') \<Longrightarrow> devs_ok dv \<Longrightarrow> still s s'"
  by (auto simp: filewrite_def Let_def still_iff dest!: filewrite_loop_still split: if_splits fdtype.splits option.splits prod.splits ptry.splits)

lemma set_file_refs:
  "krefs (set_file f (\<lambda>x. x\<lparr>f_ref := h x\<rparr>) s) = (krefs s)[f := h (k_files s ! f)]"
  "krefs (set_file f (\<lambda>x. x\<lparr>f_ref := h x, f_type := t\<rparr>) s) = (krefs s)[f := h (k_files s ! f)]"
  by (simp_all add: krefs_set_file)

lemma close_pipe_still: "close_pipe p w s = Ok s' \<Longrightarrow> still s s'"
  by (auto simp: close_pipe_def Let_def still_iff split: option.splits prod.splits)

lemma fileclose_effect:
  "fileclose f s = Ok s' \<Longrightarrow> balanced s s' \<and> k_ofile s' = k_ofile s \<and> krefs s' = (krefs s)[f := f_ref (k_files s ! f) - 1]"
  by (auto simp: fileclose_def Let_def balanced_def set_file_refs still_iff elim!: bind_res_OkE
      dest!: k_keeps same_fdsD close_pipe_still split: if_splits fdtype.splits)

lemma filealloc_effect:
  "filealloc s = (r, s') \<Longrightarrow> balanced s s' \<and> k_ofile s' = k_ofile s \<and> k_fs s' = k_fs s \<and>
     (case r of None \<Rightarrow> s' = s | Some f \<Rightarrow> f < length (krefs s) \<and> krefs s ! f = 0 \<and> krefs s' = (krefs s)[f := 1])"
  by (auto simp: filealloc_def balanced_def set_file_refs find_index_Some split: option.splits) (auto simp: set_file_def krefs_def)

lemma fdalloc_effect:
  "fdalloc f s = (r, s') \<Longrightarrow> balanced s s' \<and> krefs s' = krefs s \<and> k_files s' = k_files s \<and> k_fs s' = k_fs s \<and>
     (case r of None \<Rightarrow> s' = s | Some fd \<Rightarrow> fd < length (k_ofile s) \<and> k_ofile s ! fd = None \<and> k_ofile s' = (k_ofile s)[fd := Some f])"
  by (auto simp: fdalloc_def balanced_def dest: find_index_SomeD split: option.splits)

section \<open>Reference counts\<close>

text \<open>The count of every open file is the number of this process's descriptors for it plus \<open>oth\<close>, the references of others.\<close>

definition file_refs_ok :: "(nat \<Rightarrow> nat) \<Rightarrow> int list \<Rightarrow> nat option list \<Rightarrow> bool" where
  "file_refs_ok oth refs fds \<longleftrightarrow>
     (\<forall>f < length refs. refs ! f = int (oth f + count (mset fds) (Some f))) \<and> (\<forall>f. Some f \<in> set fds \<longrightarrow> f < length refs)"

definition bump :: "nat \<Rightarrow> (nat \<Rightarrow> nat) \<Rightarrow> nat \<Rightarrow> nat" where
  "bump f oth = oth(f := Suc (oth f))"

lemma count_update: "i < length xs \<Longrightarrow> count (mset (xs[i := v])) x + of_bool (xs ! i = x) = count (mset xs) x + of_bool (v = x)"
  by (auto simp: mset_update count_mset_0_iff in_set_conv_nth Suc_diff_le dest: nth_mem)

lemma refs_bump: "file_refs_ok oth refs fds \<Longrightarrow> f < length refs \<Longrightarrow> file_refs_ok (bump f oth) (refs[f := refs ! f + 1]) fds"
  by (auto simp: file_refs_ok_def bump_def nth_list_update)

lemma refs_drop: "file_refs_ok (bump f oth) refs fds \<Longrightarrow> file_refs_ok oth (refs[f := refs ! f - 1]) fds"
  by (cases "f < length refs") (auto simp: file_refs_ok_def bump_def nth_list_update list_update_beyond)

lemma refs_assign:
  assumes "file_refs_ok (bump f oth) refs fds" "fd < length fds" "fds ! fd = None" "f < length refs"
  shows "file_refs_ok oth refs (fds[fd := Some f])"
proof -
  have "count (mset (fds[fd := Some f])) (Some g) = count (mset fds) (Some g) + of_bool (f = g)" for g
    using count_update [OF assms(2), of "Some f" "Some g"] assms(3) by simp
  then show ?thesis using assms set_update_subset_insert [of fds fd "Some f"] by (auto simp: file_refs_ok_def bump_def)
qed

lemma refs_clear:
  assumes "file_refs_ok oth refs fds" "fd < length fds" "fds ! fd = Some f"
  shows "file_refs_ok (bump f oth) refs (fds[fd := None])"
proof -
  have "bump f oth g + count (mset (fds[fd := None])) (Some g) = oth g + count (mset fds) (Some g)" for g
    using count_update [OF assms(2), of None "Some g"] assms(3) by (cases "f = g") (auto simp: bump_def)
  moreover have "Some g \<in> set fds" if "Some g \<in> set (fds[fd := None])" for g using that set_update_subset_insert [of fds fd None] by auto
  ultimately show ?thesis using assms(1) by (simp add: file_refs_ok_def)
qed

lemma refs_alloc:
  assumes "file_refs_ok oth refs fds" "f < length refs" "refs ! f = 0"
  shows "file_refs_ok (bump f oth) (refs[f := 1]) fds"
  using refs_bump [OF assms(1,2)] assms(3) by simp

lemma krefs_nth: "f < length (krefs s) \<Longrightarrow> krefs s ! f = f_ref (k_files s ! f)" "length (krefs s) = length (k_files s)"
  by (simp_all add: krefs_def)

text \<open>\<^verbatim>\<open>fileclose\<close> gives up a reference.\<close>

lemma fileclose_refs:
  assumes "fileclose f s = Ok s'" "file_refs_ok (bump f oth) (krefs s) (k_ofile s)"
  shows "file_refs_ok oth (krefs s') (k_ofile s')"
proof (cases "f < length (krefs s)")
  case True
  then show ?thesis using fileclose_effect [OF assms(1)] refs_drop [OF assms(2)] by (simp add: krefs_nth)
next
  case False
  then show ?thesis using fileclose_effect [OF assms(1)] refs_drop [OF assms(2)] by (simp add: list_update_beyond)
qed

lemma filealloc_refs:
  assumes "filealloc s = (Some f, s')" "file_refs_ok oth (krefs s) (k_ofile s)"
  shows "file_refs_ok (bump f oth) (krefs s') (k_ofile s')" "f < length (krefs s')"
  using filealloc_effect [OF assms(1)] refs_alloc [OF assms(2)] by auto

lemma fdalloc_refs:
  assumes "fdalloc f s = (Some fd, s')" "file_refs_ok (bump f oth) (krefs s) (k_ofile s)" "f < length (krefs s)"
  shows "file_refs_ok oth (krefs s') (k_ofile s')"
  using fdalloc_effect [OF assms(1)] refs_assign [OF assms(2) _ _ assms(3)] by auto

lemma argfdD: "argfd n s = Some (fd, f) \<Longrightarrow> length (k_ofile s) = NOFILE \<Longrightarrow> fd < length (k_ofile s) \<and> k_ofile s ! fd = Some f"
  by (auto simp: argfd_def Let_def split: option.splits if_splits)

section \<open>Links and paths\<close>

lemma link_bad_still: "link_bad ip s = Ok (r, s') \<Longrightarrow> klocks s' = klocks s \<and> k_ops s' = k_ops s - 1 \<and> same_fds s s'"
  by (auto simp: link_bad_def same_fds_def elim!: bind_res_OkE dest!: k_keeps same_fdsD)

lemma link_entry_still: "link_entry ip new s = Ok (r, s') \<Longrightarrow> klocks s' = klocks s \<and> k_ops s' = k_ops s - 1 \<and> same_fds s s'"
  by (auto simp: link_entry_def same_fds_def elim!: bind_res_OkE dest!: k_keeps same_fdsD link_bad_still split: if_splits option.splits)

lemma sys_link_still: "sys_link s = Ok (r, s') \<Longrightarrow> still s s'"
  by (auto simp: sys_link_def still_iff elim!: bind_res_OkE dest!: k_keeps same_fdsD link_entry_still split: if_splits option.splits)

lemma unlink_bad_still: "unlink_bad dp s = Ok (r, s') \<Longrightarrow> klocks s' = (klocks s)[dp := False] \<and> k_ops s' = k_ops s - 1 \<and> same_fds s s'"
  by (auto simp: unlink_bad_def same_fds_def elim!: bind_res_OkE dest!: k_keeps same_fdsD)

lemma unlink_entry_still:
  "unlink_entry dp ip off s = Ok (r, s') \<Longrightarrow> klocks s' = (klocks s)[dp := False, ip := False] \<and> k_ops s' = k_ops s - 1 \<and> same_fds s s'"
  by (auto simp: unlink_entry_def same_fds_def elim!: bind_res_OkE dest!: k_keeps same_fdsD split: if_splits)

lemma sys_unlink_still: "sys_unlink s = Ok (r, s') \<Longrightarrow> still s s'"
  by (auto simp: sys_unlink_def still_iff Let_def two_locks(2) elim!: bind_res_OkE
      dest!: k_keeps same_fdsD unlink_entry_still unlink_bad_still split: if_splits option.splits)
    (meson free_at_cancel two_locks(1))+

lemma create_new_locks:
  "create_new dp name t ma mi s = Ok (r, s') \<Longrightarrow> \<exists>ip. r = Some ip \<and> lockmap s' = (lockmap s)[ip := True, dp := False] \<and> free_at (lockmap s) ip"
  by (auto simp: create_new_def elim!: bind_res_OkE dest!: keeps split: if_splits)

lemma create_locks:
  "create cwd path t ma mi s = Ok (r, s') \<Longrightarrow>
     (case r of None \<Rightarrow> lockmap s' = lockmap s | Some ip \<Rightarrow> lockmap s' = (lockmap s)[ip := True] \<and> free_at (lockmap s) ip)"
  by (auto simp: create_def two_locks(2) elim!: bind_res_OkE dest!: keeps create_new_locks split: if_splits option.splits)
    (meson two_locks(1))

lemma k_create:
  "on_fs_val (create cwd path t ma mi) s = Ok (r, s') \<Longrightarrow> k_ops s' = k_ops s \<and> same_fds s s' \<and>
     (case r of None \<Rightarrow> klocks s' = klocks s | Some ip \<Rightarrow> klocks s' = (klocks s)[ip := True] \<and> free_at (klocks s) ip)"
  by (auto simp: klocks_def elim!: on_fs_valE dest!: create_locks split: option.splits)

lemma make_node_still: "make_node path t ma mi s = Ok (r, s') \<Longrightarrow> klocks s' = klocks s \<and> k_ops s' = k_ops s - 1 \<and> same_fds s s'"
  by (auto simp: make_node_def same_fds_def elim!: bind_res_OkE dest!: k_create k_keeps same_fdsD split: option.splits)

lemma sys_mkdir_still: "sys_mkdir s = Ok (r, s') \<Longrightarrow> still s s'"
  by (auto simp: sys_mkdir_def still_iff dest!: make_node_still same_fdsD split: option.splits)

lemma sys_mknod_still: "sys_mknod s = Ok (r, s') \<Longrightarrow> still s s'"
  by (auto simp: sys_mknod_def still_iff dest!: make_node_still same_fdsD split: option.splits)

lemma sys_chdir_still: "sys_chdir s = Ok (r, s') \<Longrightarrow> still s s'"
  by (auto simp: sys_chdir_def still_iff elim!: bind_res_OkE dest!: k_keeps same_fdsD split: if_splits option.splits)

section \<open>Descriptors\<close>

lemma balanced_trans: "balanced s s1 \<Longrightarrow> balanced s1 s2 \<Longrightarrow> balanced s s2"
  by (simp add: balanced_def)

lemma pipealloc_balanced: "pipealloc s = Ok (r, s') \<Longrightarrow> balanced s s' \<and> k_ofile s' = k_ofile s"
  by (auto simp: pipealloc_def Let_def balanced_def elim!: bind_res_OkE dest!: filealloc_effect fileclose_effect
      split: prod.splits option.splits if_splits)

lemma bump_commute: "bump f (bump g oth) = bump g (bump f oth)"
  by (auto simp: bump_def)

lemma close_two_refs:
  assumes "fileclose f s = Ok s1" "fileclose g s1 = Ok s2" "file_refs_ok (bump g (bump f oth)) (krefs s) (k_ofile s)"
  shows "file_refs_ok oth (krefs s2) (k_ofile s2)"
  using fileclose_refs [OF assms(2) fileclose_refs [OF assms(1)]] assms(3) by (simp add: bump_commute)

lemma pipealloc_refs:
  assumes "pipealloc s = Ok (r, s')" "file_refs_ok oth (krefs s) (k_ofile s)"
  shows "case r of None \<Rightarrow> file_refs_ok oth (krefs s') (k_ofile s')
    | Some (a, b) \<Rightarrow> file_refs_ok (bump b (bump a oth)) (krefs s') (k_ofile s') \<and> a < length (krefs s') \<and> b < length (krefs s')"
proof (cases "filealloc s")
  case (Pair r0 s0)
  show ?thesis
  proof (cases r0)
    case None
    then show ?thesis using assms Pair filealloc_effect [OF Pair] by (simp add: pipealloc_def)
  next
    case (Some f0)
    note A = filealloc_refs [OF Pair [unfolded Some] assms(2)]
    obtain r1 s1 where b: "filealloc s0 = (r1, s1)" by (metis surj_pair)
    show ?thesis
    proof (cases r1)
      case None
      then show ?thesis using assms(1) Pair Some b filealloc_effect [OF b] fileclose_refs [OF _ A(1)]
        by (auto simp: pipealloc_def elim!: bind_res_OkE)
    next
      case (Some f1)
      note B = filealloc_refs [OF b [unfolded Some] A(1)] and E = filealloc_effect [OF b]
      have f0: "f0 < length (krefs s1)" using A(2) E Some by simp
      show ?thesis using assms(1) Pair \<open>r0 = Some f0\<close> Some b close_two_refs [OF _ _ B(1)] B f0
        by (auto simp: pipealloc_def Let_def elim!: bind_res_OkE split: if_splits)
    qed
  qed
qed

lemma sys_dup_effect:
  assumes "sys_dup s = Ok (r, s')"
  shows "balanced s s'" "length (k_ofile s) = NOFILE \<Longrightarrow> file_refs_ok oth (krefs s) (k_ofile s) \<Longrightarrow> file_refs_ok oth (krefs s') (k_ofile s')"
proof -
  show "balanced s s'" using assms
    by (auto simp: sys_dup_def balanced_def filedup_def elim!: bind_res_OkE dest!: fdalloc_effect split: option.splits prod.splits if_splits)
  assume h: "length (k_ofile s) = NOFILE" "file_refs_ok oth (krefs s) (k_ofile s)"
  show "file_refs_ok oth (krefs s') (k_ofile s')"
  proof (cases "\<exists>fd f nfd s1. argfd 0 s = Some (fd, f) \<and> fdalloc f s = (Some nfd, s1)")
    case True
    then obtain fd f nfd s1 where f: "argfd 0 s = Some (fd, f)" "fdalloc f s = (Some nfd, s1)" by blast
    note F = fdalloc_effect [OF f(2)]
    have lf: "f < length (krefs s)" using argfdD [OF f(1) h(1)] h(2) by (auto simp: file_refs_ok_def in_set_conv_nth)
    have "krefs s' = (krefs s)[f := krefs s ! f + 1]" "k_ofile s' = k_ofile s1"
      using assms f F lf by (auto simp: sys_dup_def filedup_def set_file_refs krefs_nth split: if_splits)
    then show ?thesis using refs_assign [OF refs_bump [OF h(2) lf]] F lf by simp
  next
    case False
    then have "s' = s" using assms fdalloc_effect by (fastforce simp: sys_dup_def split: option.splits prod.splits)
    then show ?thesis using h(2) by simp
  qed
qed

lemma sys_close_effect:
  assumes "sys_close s = Ok (r, s')"
  shows "balanced s s'" "length (k_ofile s) = NOFILE \<Longrightarrow> file_refs_ok oth (krefs s) (k_ofile s) \<Longrightarrow> file_refs_ok oth (krefs s') (k_ofile s')"
proof -
  show "balanced s s'" using assms
    by (auto simp: sys_close_def balanced_def elim!: bind_res_OkE dest!: fileclose_effect split: option.splits)
  assume h: "length (k_ofile s) = NOFILE" "file_refs_ok oth (krefs s) (k_ofile s)"
  show "file_refs_ok oth (krefs s') (k_ofile s')"
  proof (cases "argfd 0 s")
    case None
    then show ?thesis using assms h(2) by (simp add: sys_close_def)
  next
    case (Some p)
    obtain fd f where p: "argfd 0 s = Some (fd, f)" using Some by (cases p) auto
    have "file_refs_ok (bump f oth) (krefs s) ((k_ofile s)[fd := None])" using argfdD [OF p h(1)] by (intro refs_clear [OF h(2)]) auto
    then show ?thesis using assms p fileclose_refs [of f "s\<lparr>k_ofile := (k_ofile s)[fd := None]\<rparr>"]
      by (auto simp: sys_close_def elim!: bind_res_OkE)
  qed
qed

lemma open_inode_balanced:
  "open_inode ip omode s = Ok (r, s') \<Longrightarrow> klocks s' = (klocks s)[ip := False] \<and> k_ops s' = k_ops s - 1"
  by (auto simp: open_inode_def Let_def balanced_def elim!: bind_res_OkE dest!: k_keeps filealloc_effect fdalloc_effect fileclose_effect
      split: prod.splits option.splits)

lemma open_inode_refs:
  assumes "open_inode ip omode s = Ok (r, s')" "file_refs_ok oth (krefs s) (k_ofile s)"
  shows "file_refs_ok oth (krefs s') (k_ofile s')"
proof (cases "filealloc s")
  case (Pair r0 s0)
  show ?thesis
  proof (cases r0)
    case None
    then show ?thesis using assms Pair filealloc_effect [OF Pair]
      by (auto simp: open_inode_def Let_def elim!: bind_res_OkE dest!: k_keeps same_fdsD)
  next
    case (Some f)
    note A = filealloc_refs [OF Pair [unfolded Some] assms(2)]
    obtain r1 s1 where b: "fdalloc f s0 = (r1, s1)" by (metis surj_pair)
    show ?thesis
    proof (cases r1)
      case None
      then show ?thesis using assms(1) Pair Some b fdalloc_effect [OF b] fileclose_refs [OF _ A(1)]
        by (auto simp: open_inode_def Let_def elim!: bind_res_OkE dest!: k_keeps same_fdsD)
    next
      case (Some fd)
      then show ?thesis using assms(1) Pair \<open>r0 = Some f\<close> b fdalloc_refs [OF b [unfolded Some] A]
        by (auto simp: open_inode_def Let_def elim!: bind_res_OkE dest!: k_keeps same_fdsD)
    qed
  qed
qed

lemma open_inode_refs_imp:
  "open_inode ip omode s = Ok (r, s') \<Longrightarrow> file_refs_ok oth (krefs s) (k_ofile s) \<longrightarrow> file_refs_ok oth (krefs s') (k_ofile s')"
  using open_inode_refs by blast

lemma sys_open_effect:
  assumes "sys_open s = Ok (r, s')"
  shows "balanced s s'" "file_refs_ok oth (krefs s) (k_ofile s) \<Longrightarrow> file_refs_ok oth (krefs s') (k_ofile s')"
proof -
  show "balanced s s'" using assms
    by (auto simp: sys_open_def balanced_def elim!: bind_res_OkE dest!: k_create k_keeps open_inode_balanced split: option.splits if_splits)
  show "file_refs_ok oth (krefs s) (k_ofile s) \<Longrightarrow> file_refs_ok oth (krefs s') (k_ofile s')" using assms
    by (auto simp: sys_open_def elim!: bind_res_OkE dest!: k_create k_keeps same_fdsD open_inode_refs_imp [where oth = oth] split: option.splits if_splits)
qed

lemma sys_pipe_effect:
  assumes "sys_pipe s = Ok (r, s')"
  shows "balanced s s'" "file_refs_ok oth (krefs s) (k_ofile s) \<Longrightarrow> file_refs_ok oth (krefs s') (k_ofile s')"
proof -
  show "balanced s s'" using assms
    by (auto simp: sys_pipe_def Let_def balanced_def elim!: bind_res_OkE dest!: pipealloc_balanced fdalloc_effect fileclose_effect
        split: option.splits prod.splits)
  assume h: "file_refs_ok oth (krefs s) (k_ofile s)"
  show "file_refs_ok oth (krefs s') (k_ofile s')"
  proof (cases "argptr 0 8 (k_user s)")
    case None
    then show ?thesis using assms h by (simp add: sys_pipe_def)
  next
    case (Some p)
    obtain v s1 where a: "pipealloc s = Ok (v, s1)" using assms Some by (auto simp: sys_pipe_def elim!: bind_res_OkE)
    note A = pipealloc_refs [OF a h]
    show ?thesis
    proof (cases v)
      case None
      then show ?thesis using assms Some a A by (simp add: sys_pipe_def)
    next
      case (Some ab)
      then obtain f g where v: "v = Some (f, g)" by (cases ab) auto
      have R: "file_refs_ok (bump g (bump f oth)) (krefs s1) (k_ofile s1)" "f < length (krefs s1)" "g < length (krefs s1)" using A v by auto
      obtain r2 s2 where b: "fdalloc f s1 = (r2, s2)" by (metis surj_pair)
      show ?thesis
      proof (cases r2)
        case None
        then show ?thesis using assms \<open>argptr 0 8 (k_user s) = Some p\<close> a v b fdalloc_effect [OF b] close_two_refs [OF _ _ R(1)]
          by (auto simp: sys_pipe_def Let_def elim!: bind_res_OkE)
      next
        case (Some fd0)
        note B = fdalloc_effect [OF b]
        have R2: "file_refs_ok (bump g oth) (krefs s2) (k_ofile s2)" "g < length (krefs s2)"
          using fdalloc_refs [OF b [unfolded Some], of "bump g oth"] R B by (simp_all add: bump_commute)
        obtain r3 s3 where c: "fdalloc g s2 = (r3, s3)" by (metis surj_pair)
        note C = fdalloc_effect [OF c]
        show ?thesis
        proof (cases r3)
          case None
          have "(k_ofile s2)[fd0 := None] = k_ofile s1" using B Some by (simp add: list_update_same_conv)
          then show ?thesis using assms \<open>argptr 0 8 (k_user s) = Some p\<close> a v b Some None c B C
              close_two_refs [of f "s2\<lparr>k_ofile := (k_ofile s2)[fd0 := None]\<rparr>" _ g _ oth] R(1)
            by (auto simp: sys_pipe_def Let_def elim!: bind_res_OkE)
        next
          case (Some fd1)
          then show ?thesis using assms \<open>argptr 0 8 (k_user s) = Some p\<close> a v b \<open>r2 = Some fd0\<close> c
              fdalloc_refs [OF c [unfolded Some] R2] by (auto simp: sys_pipe_def Let_def)
        qed
      qed
    qed
  qed
qed

lemma fd_table_size:
  "sys_dup s = Ok (r, s') \<Longrightarrow> length (k_ofile s') = length (k_ofile s)"
  "sys_close s = Ok (r, s') \<Longrightarrow> length (k_ofile s') = length (k_ofile s)"
  "sys_open s = Ok (r, s') \<Longrightarrow> length (k_ofile s') = length (k_ofile s)"
  "sys_pipe s = Ok (r, s') \<Longrightarrow> length (k_ofile s') = length (k_ofile s)"
proof -
  show "sys_dup s = Ok (r, s') \<Longrightarrow> length (k_ofile s') = length (k_ofile s)"
    by (auto simp: sys_dup_def filedup_def elim!: bind_res_OkE dest!: fdalloc_effect split: option.splits prod.splits if_splits)
  show "sys_close s = Ok (r, s') \<Longrightarrow> length (k_ofile s') = length (k_ofile s)"
    by (auto simp: sys_close_def elim!: bind_res_OkE dest!: fileclose_effect split: option.splits)
  have o: "open_inode ip omode s = Ok (r, s') \<Longrightarrow> length (k_ofile s') = length (k_ofile s)" for ip omode s
    by (auto simp: open_inode_def Let_def elim!: bind_res_OkE dest!: k_keeps same_fdsD filealloc_effect fdalloc_effect fileclose_effect
        split: prod.splits option.splits)
  show "sys_open s = Ok (r, s') \<Longrightarrow> length (k_ofile s') = length (k_ofile s)"
    by (auto simp: sys_open_def elim!: bind_res_OkE dest!: k_create k_keeps same_fdsD o split: option.splits if_splits)
  show "sys_pipe s = Ok (r, s') \<Longrightarrow> length (k_ofile s') = length (k_ofile s)"
    by (auto simp: sys_pipe_def Let_def elim!: bind_res_OkE dest!: pipealloc_balanced fdalloc_effect fileclose_effect
        split: option.splits prod.splits)
qed

lemma sys_rw_still:
  "sys_read dv s = Ok (r, s') \<Longrightarrow> devs_ok dv \<Longrightarrow> still s s'"
  "sys_write dv s = Ok (r, s') \<Longrightarrow> devs_ok dv \<Longrightarrow> still s s'"
  "sys_fstat s = Ok (r, s') \<Longrightarrow> still s s'"
  by (auto simp: sys_read_def sys_write_def sys_fstat_def still_iff split: option.splits prod.splits
      dest!: fileread_still filewrite_still filestat_still)

section \<open>Sequences of calls\<close>

definition file_calls :: "(nat \<Rightarrow> devsw) \<Rightarrow> (kst \<Rightarrow> (int \<times> kst) res) list" where
  "file_calls dv = [sys_dup, sys_read dv, sys_write dv, sys_close, sys_fstat, sys_link, sys_unlink, sys_open, sys_mkdir, sys_mknod,
     sys_chdir, sys_pipe]"

fun run_calls :: "(kst \<Rightarrow> (int \<times> kst) res) list \<Rightarrow> kst \<Rightarrow> kst res" where
  "run_calls [] s = Ok s"
| "run_calls (c # cs) s = bind_res (c s) (\<lambda>(r, s1). run_calls cs s1)"

text \<open>A call changes the descriptors consistently, or not at all.\<close>

definition fds_ok :: "(nat \<Rightarrow> nat) \<Rightarrow> kst \<Rightarrow> bool" where
  "fds_ok oth s \<longleftrightarrow> length (k_ofile s) = NOFILE \<and> file_refs_ok oth (krefs s) (k_ofile s)"

lemma still_fds: "still s s' \<Longrightarrow> balanced s s' \<and> (fds_ok oth s \<longrightarrow> fds_ok oth s')"
  by (simp add: still_iff balanced_def fds_ok_def)

lemma file_call_ok:
  assumes "c \<in> set (file_calls dv)" "c s = Ok (r, s')" "devs_ok dv"
  shows "balanced s s' \<and> (fds_ok oth s \<longrightarrow> fds_ok oth s')"
proof -
  consider "c = sys_dup" | "c = sys_close" | "c = sys_open" | "c = sys_pipe" | "still s s'"
    using assms by (auto simp: file_calls_def dest: sys_rw_still sys_link_still sys_unlink_still sys_mkdir_still sys_mknod_still sys_chdir_still)
  then show ?thesis
  proof cases
    case 1
    then show ?thesis using assms(2) sys_dup_effect fd_table_size(1) by (auto simp: fds_ok_def)
  next
    case 2
    then show ?thesis using assms(2) sys_close_effect fd_table_size(2) by (auto simp: fds_ok_def)
  next
    case 3
    then show ?thesis using assms(2) sys_open_effect fd_table_size(3) by (auto simp: fds_ok_def)
  next
    case 4
    then show ?thesis using assms(2) sys_pipe_effect fd_table_size(4) by (auto simp: fds_ok_def)
  next
    case 5
    then show ?thesis by (rule still_fds)
  qed
qed

lemma run_calls_ok:
  assumes "set cs \<subseteq> set (file_calls dv)" "run_calls cs s = Ok s'" "devs_ok dv"
  shows "balanced s s' \<and> (fds_ok oth s \<longrightarrow> fds_ok oth s')"
  using assms
proof (induction cs arbitrary: s)
  case (Cons c cs)
  obtain r s1 where c: "c s = Ok (r, s1)" "run_calls cs s1 = Ok s'" using Cons.prems(2) by (auto elim!: bind_res_OkE)
  show ?case using file_call_ok [of c dv s r s1 oth] Cons.IH [of s1] Cons.prems c by (auto intro: balanced_trans)
qed simp

text \<open>C25: the file system calls keep the discipline of locks and transactions. After any sequence of calls that return, on
  success and on every error path alike, exactly the inode locks are held that were held before, and as many transactions are
  open as before: no call leaves a lock or a transaction behind.\<close>

theorem file_calls_balanced:
  assumes "set cs \<subseteq> set (file_calls dv)" "run_calls cs s = Ok s'" "devs_ok dv"
  shows "lockmap (k_fs s') = lockmap (k_fs s) \<and> k_ops s' = k_ops s"
  using run_calls_ok [OF assms] by (simp add: balanced_def klocks_def)

definition small_dev :: "nat \<Rightarrow> devsw" where
  "small_dev m = \<lparr>dev_read = (\<lambda>i a n s. Ok (0, s)), dev_write = (\<lambda>i a n s. Ok (n, s))\<rparr>"

definition small_open :: open_file where
  "small_open = \<lparr>f_type = FD_NONE, f_ref = 0, f_readable = False, f_writable = False, f_pipe = 0, f_ip = 0, f_off = 0\<rparr>"

definition small_kst :: "fs \<Rightarrow> kst" where
  "small_kst t = \<lparr>k_fs = t, k_files = [small_open\<lparr>f_ref := 1\<rparr>, small_open], k_pipes = [], k_pages = 1, k_ops = 0,
     k_ofile = Some 0 # replicate 15 None, k_cwd = 0, k_user = \<lparr>u_mem = (\<lambda>_. 0), u_sz = 4096, u_esp = 0\<rparr>, k_killed = False\<rparr>"

lemma small_devs_ok: "devs_ok small_dev"
  by (simp add: devs_ok_def dev_op_ok_def small_dev_def)

lemma small_argfd: "k_user s = \<lparr>u_mem = (\<lambda>_. 0), u_sz = 4096, u_esp = 0\<rparr> \<Longrightarrow> k_ofile s = Some f # fds \<Longrightarrow> argfd 0 s = Some (0, f)"
  by (simp add: argfd_def argint_def fetchint_def load32_def NOFILE_def Let_def)

lemma small_run: "\<exists>s'. run_calls [sys_dup, sys_close] (small_kst t) = Ok s' \<and> k_ofile s' = None # Some 0 # replicate 14 None"
proof -
  let ?s1 = "set_file 0 (\<lambda>x. x\<lparr>f_ref := f_ref x + 1\<rparr>) ((small_kst t)\<lparr>k_ofile := Some 0 # Some 0 # replicate 14 None\<rparr>)"
  have a: "argfd 0 (small_kst t) = Some (0, 0)" "argfd 0 ?s1 = Some (0, 0)" by (rule small_argfd; simp add: small_kst_def set_file_def)+
  have "replicate 15 None = None # replicate 14 (None :: nat option)" by (simp add: numeral_eq_Suc)
  then have "sys_dup (small_kst t) = Ok (1, ?s1)"
    using a(1) by (simp add: sys_dup_def fdalloc_def filedup_def small_kst_def)
  then show ?thesis using a(2) by (simp add: sys_close_def fileclose_def set_file_def small_kst_def)
qed

theorem file_calls_balanced_witness:
  "\<exists>s'. run_calls [sys_dup, sys_close] (small_kst small_fs) = Ok s' \<and> lockmap (k_fs s') = lockmap small_fs \<and> k_ops s' = 0"
proof -
  obtain s' where r: "run_calls [sys_dup, sys_close] (small_kst small_fs) = Ok s'" using small_run by blast
  have "set [sys_dup, sys_close] \<subseteq> set (file_calls small_dev)" by (simp add: file_calls_def)
  from file_calls_balanced [OF this r small_devs_ok] r show ?thesis by (simp add: small_kst_def)
qed

text \<open>C26: the reference counts of open files stay exact. If before a sequence of file system calls every open file is counted once for each
  descriptor of the process and once for each reference of others, then so it is after: no call, on no path, frees a file that is still
  open or leaves one behind without a descriptor.\<close>

theorem file_calls_refs:
  assumes "set cs \<subseteq> set (file_calls dv)" "run_calls cs s = Ok s'" "devs_ok dv" "length (k_ofile s) = NOFILE"
    "file_refs_ok oth (map f_ref (k_files s)) (k_ofile s)"
  shows "file_refs_ok oth (map f_ref (k_files s')) (k_ofile s') \<and> length (k_ofile s') = NOFILE"
  using run_calls_ok [OF assms(1-3), of oth] assms(4,5) by (simp add: fds_ok_def krefs_def)

theorem file_calls_refs_witness:
  "\<exists>s'. run_calls [sys_dup, sys_close] (small_kst small_fs) = Ok s' \<and> file_refs_ok (\<lambda>_. 0) (map f_ref (k_files s')) (None # Some 0 # replicate 14 None)"
proof -
  obtain s' where r: "run_calls [sys_dup, sys_close] (small_kst small_fs) = Ok s'" "k_ofile s' = None # Some 0 # replicate 14 None"
    using small_run by blast
  have a: "set [sys_dup, sys_close] \<subseteq> set (file_calls small_dev)" by (simp add: file_calls_def)
  have b: "file_refs_ok (\<lambda>_. 0) (map f_ref (k_files (small_kst small_fs))) (k_ofile (small_kst small_fs))"
    by (auto simp: file_refs_ok_def small_kst_def small_open_def less_Suc_eq numeral_2_eq_2)
  have "length (k_ofile (small_kst small_fs)) = NOFILE" by (simp add: small_kst_def NOFILE_def)
  from file_calls_refs [OF a r(1) small_devs_ok this b] r show ?thesis by simp
qed

end
