(* ===== verification/Proc.thy ===== *)
theory Proc
  imports Shm Sysfile_Props
begin

text \<open>
  The life of a process (proc.c): \<^verbatim>\<open>userinit\<close>, \<^verbatim>\<open>growproc\<close>, \<^verbatim>\<open>fork\<close>, \<^verbatim>\<open>exit\<close> and \<^verbatim>\<open>wait\<close>, and the system calls of sysproc.c. These routines
  bring the components together: process table, memory, shared pages and open files. Descriptors and current directory of a
  process are those of its entry in the table; the state of the file layer has a copy of the running process's for the file calls.
  Critical sections under \<^verbatim>\<open>ptable.lock\<close> are one step; a routine that sleeps is \<open>Block\<close>.
\<close>

section \<open>Definitions\<close>

record kernel =
  kn_pt :: ptable
  kn_mem :: kmem
  kn_shm :: shm_table
  kn_mach :: mach
  kn_io :: kst

text \<open>
  What the linker and the hardware fix: the addresses of \<^verbatim>\<open>trapret\<close>, \<^verbatim>\<open>forkret\<close> and of the process structures (the argument
  \<open>None\<close> is the null pointer), the code of the first process, the bytes at the literal \<^verbatim>\<open>"-1"\<close> in \<^verbatim>\<open>exit\<close> and in \<^verbatim>\<open>shmrem\<close>,
  and the stack that \<^verbatim>\<open>acquire\<close> records.
\<close>

record arch =
  a_trapret :: addr
  a_forkret :: addr
  a_proc :: "nat option \<Rightarrow> addr"
  a_initcode :: "byte list"
  a_exit_lit :: "byte list"
  a_shm_lit :: "byte list"
  a_stack :: stack

definition set_proc :: "nat \<Rightarrow> (proc \<Rightarrow> proc) \<Rightarrow> kernel \<Rightarrow> kernel" where
  "set_proc i f s = s\<lparr>kn_pt := update_proc i f (kn_pt s)\<rparr>"

abbreviation the_proc :: "kernel \<Rightarrow> nat \<Rightarrow> proc" where
  "the_proc s i \<equiv> procs (kn_pt s) ! i"

text \<open>Offsets in \<^verbatim>\<open>struct trapframe\<close>.\<close>

definition TF_SIZE :: uint where "TF_SIZE = 76"
definition TF_EAX :: uint where "TF_EAX = 28"

definition user_frame :: "addr \<Rightarrow> mem \<Rightarrow> mem" where
  "user_frame tf m =
     (let m1 = memset m tf 0 TF_SIZE;
          ucode = bytes16 (push_bit 3 3 OR 3);
          udata = bytes16 (push_bit 3 4 OR 3);
          m2 = write_bytes (write_bytes m1 (tf + 60) ucode) (tf + 44) udata;
          m3 = write_bytes (write_bytes m2 (tf + 40) udata) (tf + 72) udata
      in store32 (store32 (store32 m3 (tf + 64) 0x200) (tf + 68) PGSIZE) (tf + 56) 0)"

definition userinit :: "arch \<Rightarrow> kernel \<Rightarrow> kernel res" where
  "userinit ar s =
     (let (np, t1, m1) = allocproc (a_trapret ar) (a_forkret ar) (kn_pt s) (kn_mem s)
      in case np of
           None \<Rightarrow> Fault
         | Some p \<Rightarrow>
             bind_res (setupkvm m1) (\<lambda>(d, m2).
             if d = 0 then Panic ''userinit: out of memory?''
             else bind_res (inituvm d (a_initcode ar) m2) (\<lambda>m3.
                  let m4 = m3\<lparr>kmem_mem := user_frame (p_tf (procs t1 ! p)) (kmem_mem m3)\<rparr>
                  in case safestrcpy (p_name (procs t1 ! p)) [105, 110, 105, 116, 99, 111, 100, 101, 0] 16 of
                       None \<Rightarrow> Fault
                     | Some nm \<Rightarrow>
                         bind_res (on_fs_val (namei 0 [47]) (kn_io s)) (\<lambda>(c, io).
                         Ok (s\<lparr>kn_pt := (update_proc p (\<lambda>x. x\<lparr>p_pgdir := d, p_sz := PGSIZE, p_name := nm, p_cwd := c,
                               p_state := RUNNABLE\<rparr>) t1)\<lparr>initproc := Some p\<rparr>, kn_mem := m4, kn_io := io\<rparr>)))))"

definition growproc :: "nat \<Rightarrow> int \<Rightarrow> kernel \<Rightarrow> (int \<times> kernel) res" where
  "growproc i n s =
     (let p = the_proc s i;
          sz = p_sz p
      in bind_res (if n > 0 then allocuvm (p_pgdir p) sz (sz + word_of_int n) (kn_mem s)
                   else if n < 0 then deallocuvm (p_pgdir p) sz (sz + word_of_int n) (kn_mem s)
                   else Ok (sz, kn_mem s)) (\<lambda>(sz', m).
         if n \<noteq> 0 \<and> sz' = 0 then Ok (-1, s\<lparr>kn_mem := m\<rparr>)
         else Ok (0, set_proc i (\<lambda>x. x\<lparr>p_sz := sz'\<rparr>) (s\<lparr>kn_mem := m\<rparr>))))"

subsection \<open>Leaving\<close>

fun close_all :: "nat \<Rightarrow> nat list \<Rightarrow> kernel \<Rightarrow> kernel res" where
  "close_all i [] s = Ok s"
| "close_all i (fd # fds) s =
     (case p_ofile (the_proc s i) ! fd of
        None \<Rightarrow> close_all i fds s
      | Some f \<Rightarrow>
          bind_res (fileclose f (kn_io s)) (\<lambda>io.
          close_all i fds (set_proc i (\<lambda>x. x\<lparr>p_ofile := (p_ofile x)[fd := None]\<rparr>) (s\<lparr>kn_io := io\<rparr>))))"

definition exit_shm :: "arch \<Rightarrow> nat \<Rightarrow> kernel \<Rightarrow> kernel res" where
  "exit_shm ar i s =
     bind_res (shmrem (a_shm_lit ar) (a_stack ar) (a_exit_lit ar)
                 \<lparr>shk = kn_mem s, sh_table = kn_shm s, sh_mach = kn_mach s, cur = the_proc s i\<rparr>) (\<lambda>(_, h).
     Ok (set_proc i (\<lambda>_. cur h) (s\<lparr>kn_mem := shk h, kn_shm := sh_table h, kn_mach := sh_mach h\<rparr>)))"

text \<open>The children of the process, in table order, go to the first process.\<close>

fun reparent :: "arch \<Rightarrow> nat \<Rightarrow> nat list \<Rightarrow> ptable \<Rightarrow> ptable" where
  "reparent ar i [] t = t"
| "reparent ar i (j # js) t =
     (if p_parent (procs t ! j) = Some i
      then let t1 = update_proc j (\<lambda>x. x\<lparr>p_parent := initproc t\<rparr>) t
           in reparent ar i js
                (if p_state (procs t1 ! j) = ZOMBIE then t1\<lparr>procs := wakeup1 (a_proc ar (initproc t1)) (procs t1)\<rparr> else t1)
      else reparent ar i js t)"

definition exit_ptable :: "arch \<Rightarrow> nat \<Rightarrow> ptable \<Rightarrow> ptable" where
  "exit_ptable ar i t =
     (let t1 = t\<lparr>procs := wakeup1 (a_proc ar (p_parent (procs t ! i))) (procs t)\<rparr>
      in update_proc i (\<lambda>x. x\<lparr>p_state := ZOMBIE\<rparr>) (reparent ar i [0..<length (procs t)] t1))"

text \<open>The state when the process switches to the scheduler for the last time.\<close>

definition exit :: "arch \<Rightarrow> nat \<Rightarrow> kernel \<Rightarrow> kernel res" where
  "exit ar i s =
     (if initproc (kn_pt s) = Some i then Panic ''init exiting''
      else bind_res (close_all i [0..<NOFILE] s) (\<lambda>s1.
           bind_res (exit_shm ar i s1) (\<lambda>s2.
           bind_res (case p_cwd (the_proc s2 i) of None \<Rightarrow> Fault | Some c \<Rightarrow> on_fs (iput c) (op_begin (kn_io s2))) (\<lambda>io.
           let s3 = set_proc i (\<lambda>x. x\<lparr>p_cwd := None\<rparr>) (s2\<lparr>kn_io := op_end io\<rparr>)
           in Ok (s3\<lparr>kn_pt := exit_ptable ar i (kn_pt s3)\<rparr>)))))"

definition is_zombie_child :: "nat \<Rightarrow> proc \<Rightarrow> bool" where
  "is_zombie_child i p = (p_parent p = Some i \<and> p_state p = ZOMBIE)"

datatype wait_choice = Reap nat | NoChild | SleepOn

text \<open>One scan of the table, and what is done with a child that has exited.\<close>

definition wait_scan :: "nat \<Rightarrow> ptable \<Rightarrow> wait_choice" where
  "wait_scan i t =
     (case find_index (is_zombie_child i) (procs t) of
        Some j \<Rightarrow> Reap j
      | None \<Rightarrow> if (\<forall>p \<in> set (procs t). p_parent p \<noteq> Some i) \<or> p_killed (procs t ! i) then NoChild else SleepOn)"

definition reap :: "nat \<Rightarrow> kernel \<Rightarrow> (int \<times> kernel) res" where
  "reap j s =
     (let p = the_proc s j
      in bind_res (kfree (p_kstack p) (kn_mem s)) (\<lambda>m1.
         bind_res (freevm (p_pgdir p) m1) (\<lambda>m2.
         Ok (p_pid p, set_proc j (\<lambda>x. x\<lparr>p_kstack := 0, p_pid := 0, p_parent := None, p_name := (p_name x)[0 := 0],
               p_killed := False, p_state := UNUSED\<rparr>) (s\<lparr>kn_mem := m2\<rparr>)))))"

definition wait :: "nat \<Rightarrow> kernel \<Rightarrow> (int \<times> kernel) res" where
  "wait i s = (case wait_scan i (kn_pt s) of Reap j \<Rightarrow> reap j s | NoChild \<Rightarrow> Ok (-1, s) | SleepOn \<Rightarrow> Block)"

subsection \<open>Fork\<close>

fun dup_files :: "nat \<Rightarrow> nat \<Rightarrow> nat list \<Rightarrow> kernel \<Rightarrow> kernel res" where
  "dup_files i np [] s = Ok s"
| "dup_files i np (fd # fds) s =
     (case p_ofile (the_proc s i) ! fd of
        None \<Rightarrow> dup_files i np fds s
      | Some f \<Rightarrow>
          bind_res (filedup f (kn_io s)) (\<lambda>io.
          dup_files i np fds (set_proc np (\<lambda>x. x\<lparr>p_ofile := (p_ofile x)[fd := Some f]\<rparr>) (s\<lparr>kn_io := io\<rparr>))))"

text \<open>\<^verbatim>\<open>fork\<close> once the child has its memory and shared pages.\<close>

definition fork_finish :: "nat \<Rightarrow> nat \<Rightarrow> kernel \<Rightarrow> (int \<times> kernel) res" where
  "fork_finish i np s =
     (let m = kn_mem s;
          s1 = s\<lparr>kn_mem := m\<lparr>kmem_mem := store32 (kmem_mem m) (p_tf (the_proc s np) + TF_EAX) 0\<rparr>\<rparr>
      in bind_res (dup_files i np [0..<NOFILE] s1) (\<lambda>s2.
         case p_cwd (the_proc s2 i) of
           None \<Rightarrow> Fault
         | Some c \<Rightarrow>
             (case safestrcpy (p_name (the_proc s2 np)) (p_name (the_proc s2 i)) 16 of
                None \<Rightarrow> Fault
              | Some nm \<Rightarrow>
                  let s3 = s2\<lparr>kn_io := (kn_io s2)\<lparr>k_fs := idup c (k_fs (kn_io s2))\<rparr>\<rparr>
                  in Ok (p_pid (the_proc s3 np), set_proc np (\<lambda>x. x\<lparr>p_cwd := Some c, p_name := nm, p_state := RUNNABLE\<rparr>) s3))))"

definition fork :: "arch \<Rightarrow> nat \<Rightarrow> kernel \<Rightarrow> (int \<times> kernel) res" where
  "fork ar i s =
     (let (r, t1, m1) = allocproc (a_trapret ar) (a_forkret ar) (kn_pt s) (kn_mem s)
      in case r of
           None \<Rightarrow> Ok (-1, s\<lparr>kn_pt := t1, kn_mem := m1\<rparr>)
         | Some np \<Rightarrow>
             let p = procs t1 ! i
             in bind_res (copyuvm (p_pgdir p) (p_sz p) m1) (\<lambda>(d, m2).
                if d = 0
                then bind_res (kfree (p_kstack (procs t1 ! np)) m2) (\<lambda>m3.
                     Ok (-1, s\<lparr>kn_pt := update_proc np (\<lambda>x. x\<lparr>p_pgdir := 0, p_kstack := 0, p_state := UNUSED\<rparr>) t1, kn_mem := m3\<rparr>))
                else let t2 = update_proc np (\<lambda>x. x\<lparr>p_pgdir := d, p_sz := p_sz p, p_parent := Some i\<rparr>) t1;
                         m3 = m2\<lparr>kmem_mem := memcpy (kmem_mem m2) (p_tf (procs t2 ! np)) (p_tf p) TF_SIZE\<rparr>
                     in bind_res (manage_fork [0..<SHMEM_PAGES] p (procs t2 ! np) (shp_array (kn_shm s)) m3) (\<lambda>(ex, c, arr, m4).
                        let s1 = s\<lparr>kn_pt := update_proc np (\<lambda>_. c) t2, kn_mem := m4, kn_shm := (kn_shm s)\<lparr>shp_array := arr\<rparr>\<rparr>
                        in if ex then bind_res (exit ar i s1) (\<lambda>_. Block) else fork_finish i np s1)))"

subsection \<open>System calls\<close>

definition sys_fork :: "arch \<Rightarrow> nat \<Rightarrow> kernel \<Rightarrow> (int \<times> kernel) res" where
  "sys_fork ar i s = fork ar i s"

text \<open>\<^verbatim>\<open>exit\<close> does not return.\<close>

definition sys_exit :: "arch \<Rightarrow> nat \<Rightarrow> kernel \<Rightarrow> kernel res" where
  "sys_exit ar i s = exit ar i s"

definition sys_wait :: "nat \<Rightarrow> kernel \<Rightarrow> (int \<times> kernel) res" where
  "sys_wait i s = wait i s"

definition sys_kill :: "kernel \<Rightarrow> int \<times> kernel" where
  "sys_kill s =
     (case argint 0 (k_user (kn_io s)) of
        None \<Rightarrow> (-1, s)
      | Some w \<Rightarrow> let (r, t) = kill (sint w) (kn_pt s) in (r, s\<lparr>kn_pt := t\<rparr>))"

definition sys_getpid :: "nat \<Rightarrow> kernel \<Rightarrow> int" where
  "sys_getpid i s = p_pid (the_proc s i)"

definition sys_sbrk :: "nat \<Rightarrow> kernel \<Rightarrow> (int \<times> kernel) res" where
  "sys_sbrk i s =
     (case argint 0 (k_user (kn_io s)) of
        None \<Rightarrow> Ok (-1, s)
      | Some w \<Rightarrow>
          bind_res (growproc i (sint w) s) (\<lambda>(r, s1).
          Ok (if r < 0 then -1 else sint (p_sz (the_proc s i)), s1)))"

text \<open>One pass of the loop of \<^verbatim>\<open>sys_sleep\<close>, that began at \<open>ticks0\<close>; \<open>None\<close> sleeps until the next tick.\<close>

definition sys_sleep :: "uint \<Rightarrow> uint \<Rightarrow> nat \<Rightarrow> kernel \<Rightarrow> int option" where
  "sys_sleep ticks ticks0 i s =
     (case argint 0 (k_user (kn_io s)) of
        None \<Rightarrow> Some (-1)
      | Some n \<Rightarrow> if ticks - ticks0 < n then if p_killed (the_proc s i) then Some (-1) else None else Some 0)"

definition sys_uptime :: "uint \<Rightarrow> int" where
  "sys_uptime ticks = sint ticks"

text \<open>The key of the calls on shared pages: 1 to 16 characters, with the NUL behind them and the bytes that follow.\<close>

definition key_argument :: "kernel \<Rightarrow> byte list option" where
  "key_argument s =
     (case argstr 0 (k_user (kn_io s)) of
        None \<Rightarrow> None
      | Some (l, a) \<Rightarrow> if l = 0 \<or> l > 16 then None else Some (ubytes (k_user (kn_io s)) a 17))"

definition shm_call :: "nat \<Rightarrow> (shm_state \<Rightarrow> ('a \<times> shm_state) res) \<Rightarrow> kernel \<Rightarrow> ('a \<times> kernel) res" where
  "shm_call i f s =
     bind_res (f \<lparr>shk = kn_mem s, sh_table = kn_shm s, sh_mach = kn_mach s, cur = the_proc s i\<rparr>) (\<lambda>(r, h).
     Ok (r, set_proc i (\<lambda>_. cur h) (s\<lparr>kn_mem := shk h, kn_shm := sh_table h, kn_mach := sh_mach h\<rparr>)))"

definition sys_shmget :: "arch \<Rightarrow> nat \<Rightarrow> kernel \<Rightarrow> (shm_ret option \<times> kernel) res" where
  "sys_shmget ar i s =
     (case key_argument s of
        None \<Rightarrow> Ok (None, s)
      | Some key \<Rightarrow> bind_res (shm_call i (shmget (a_stack ar) key) s) (\<lambda>(r, s1). Ok (Some r, s1)))"

definition sys_shmrem :: "arch \<Rightarrow> nat \<Rightarrow> kernel \<Rightarrow> (int \<times> kernel) res" where
  "sys_shmrem ar i s =
     (case key_argument s of
        None \<Rightarrow> Ok (-1, s)
      | Some key \<Rightarrow> shm_call i (shmrem (a_shm_lit ar) (a_stack ar) key) s)"

text \<open>The calls on semaphores: \<open>sems\<close> are the semaphores at the addresses of the process. \<open>None\<close> as a result sleeps. The size they check is that of a
  pointer.\<close>

definition sys_sem_init :: "kernel \<Rightarrow> (addr \<Rightarrow> sem_t) \<Rightarrow> int \<times> (addr \<Rightarrow> sem_t)" where
  "sys_sem_init s sems =
     (case argptr 0 4 (k_user (kn_io s)) of
        None \<Rightarrow> (-1, sems)
      | Some a \<Rightarrow>
          (case argint 1 (k_user (kn_io s)) of
             None \<Rightarrow> (-1, sems)
           | Some v \<Rightarrow> (1, sems(a := sem_init (sems a) (sint v)))))"

definition sys_sem_up :: "kernel \<Rightarrow> (addr \<Rightarrow> sem_t) \<Rightarrow> int \<times> kernel \<times> (addr \<Rightarrow> sem_t)" where
  "sys_sem_up s sems =
     (case argptr 0 4 (k_user (kn_io s)) of
        None \<Rightarrow> (-1, s, sems)
      | Some a \<Rightarrow> let (m, t) = sem_up a (sems a) (kn_pt s) in (1, s\<lparr>kn_pt := t\<rparr>, sems(a := m)))"

definition sys_sem_down :: "kernel \<Rightarrow> (addr \<Rightarrow> sem_t) \<Rightarrow> (int \<times> (addr \<Rightarrow> sem_t)) option" where
  "sys_sem_down s sems =
     (case argptr 0 4 (k_user (kn_io s)) of
        None \<Rightarrow> Some (-1, sems)
      | Some a \<Rightarrow> map_option (\<lambda>m. (1, sems(a := m))) (sem_down (sems a)))"

definition sys_isActive :: "kernel \<Rightarrow> (addr \<Rightarrow> sem_t) \<Rightarrow> int" where
  "sys_isActive s sems = (case argptr 0 4 (k_user (kn_io s)) of None \<Rightarrow> -1 | Some a \<Rightarrow> isActive (sems a))"

section \<open>Exit and wait\<close>

text \<open>Only the entry of process \<open>i\<close> changes, and not its parent.\<close>

definition same_but :: "nat \<Rightarrow> ptable \<Rightarrow> ptable \<Rightarrow> bool" where
  "same_but i t t' \<longleftrightarrow> initproc t' = initproc t \<and> length (procs t') = length (procs t) \<and> (\<forall>j. j \<noteq> i \<longrightarrow> procs t' ! j = procs t ! j)
     \<and> p_parent (procs t' ! i) = p_parent (procs t ! i)"

lemma same_but_trans: "same_but i t t1 \<Longrightarrow> same_but i t1 t2 \<Longrightarrow> same_but i t t2"
  by (simp add: same_but_def)

lemma same_but_update: "i < length (procs t) \<Longrightarrow> p_parent (f (procs t ! i)) = p_parent (procs t ! i) \<Longrightarrow> same_but i t (update_proc i f t)"
  by (simp add: same_but_def update_proc_def)

lemma close_all_same:
  "close_all i fds s = Ok s' \<Longrightarrow> i < length (procs (kn_pt s)) \<Longrightarrow> same_but i (kn_pt s) (kn_pt s')"
proof (induction i fds s rule: close_all.induct)
  case (2 i fd fds s)
  show ?case
  proof (cases "p_ofile (the_proc s i) ! fd")
    case None
    then show ?thesis using 2 by simp
  next
    case (Some f)
    obtain io where io: "fileclose f (kn_io s) = Ok io" using 2(3) Some by (auto elim!: bind_res_OkE)
    let ?s = "set_proc i (\<lambda>x. x\<lparr>p_ofile := (p_ofile x)[fd := None]\<rparr>) (s\<lparr>kn_io := io\<rparr>)"
    have "same_but i (kn_pt s) (kn_pt ?s)" using 2(4) by (simp add: set_proc_def same_but_update)
    moreover from this have "same_but i (kn_pt ?s) (kn_pt s')" using 2(2) [OF Some io] 2(3,4) Some io by (simp add: same_but_def)
    ultimately show ?thesis by (rule same_but_trans)
  qed
qed (simp add: same_but_def)

lemma shm_steps_parent:
  "clear_pte va h = Ok h' \<Longrightarrow> p_parent (cur h') = p_parent (cur h)"
  "free_slot y h = Ok h' \<Longrightarrow> p_parent (cur h') = p_parent (cur h)"
  "sh_acquire kv h = Ok h' \<Longrightarrow> cur h' = cur h"
  "sh_release h = Ok h' \<Longrightarrow> cur h' = cur h"
  by (auto simp: clear_pte_def free_slot_def set_info_def sh_acquire_def sh_release_def split_beta elim!: bind_res_OkE split: if_splits)

lemma shm_set_parent [simp]: "p_parent (cur (set_phy i a h)) = p_parent (cur h)" "cur (set_info y v h) = cur h"
  by (simp_all add: set_phy_def set_info_def)

lemma exit_slots_parent: "exit_slots i ys h = Ok h' \<Longrightarrow> p_parent (cur h') = p_parent (cur h)"
  by (induction ys arbitrary: h) (auto simp: Let_def elim!: bind_res_OkE dest!: shm_steps_parent split: if_splits)

lemma exit_pages_parent: "exit_pages is h = Ok h' \<Longrightarrow> p_parent (cur h') = p_parent (cur h)"
  by (induction "is" arbitrary: h) (auto elim!: bind_res_OkE dest!: exit_slots_parent split: if_splits)

lemma rem_slot_parent: "rem_slot i y h = Ok (r, h') \<Longrightarrow> p_parent (cur h') = p_parent (cur h)"
  by (auto simp: rem_slot_def Let_def elim!: bind_res_OkE dest!: shm_steps_parent split: if_splits)

lemma rem_key_parent: "rem_key key is h = Ok (r, h') \<Longrightarrow> p_parent (cur h') = p_parent (cur h)"
  by (induction "is" arbitrary: h) (auto elim!: bind_res_OkE dest!: rem_slot_parent shm_steps_parent split: if_splits option.splits)

lemma shmrem_parent: "shmrem lit kv key h = Ok (r, h') \<Longrightarrow> p_parent (cur h') = p_parent (cur h)"
  by (auto simp: shmrem_def elim!: bind_res_OkE dest!: shm_steps_parent exit_pages_parent rem_key_parent split: if_splits option.splits)

lemma exit_shm_same: "exit_shm ar i s = Ok s' \<Longrightarrow> i < length (procs (kn_pt s)) \<Longrightarrow> same_but i (kn_pt s) (kn_pt s')"
  by (auto simp: exit_shm_def set_proc_def intro!: same_but_update elim!: bind_res_OkE dest!: shmrem_parent)

lemma wakeup1_nth_if [simp]: "j < length ps \<Longrightarrow> wakeup1 ch ps ! j =
    (if p_state (ps ! j) = SLEEPING \<and> p_chan (ps ! j) = ch then (ps ! j)\<lparr>p_state := RUNNABLE\<rparr> else ps ! j)"
  "length (wakeup1 ch ps) = length ps"
  by (simp_all add: wakeup1_def)

text \<open>A process may be woken on the way, and nothing else happens to the states.\<close>

definition woken :: "procstate \<Rightarrow> procstate \<Rightarrow> bool" where
  "woken x y \<longleftrightarrow> y = x \<or> x = SLEEPING \<and> y = RUNNABLE"

lemma reparent_spec:
  assumes "initproc t \<noteq> Some i" "set js \<subseteq> {0..<length (procs t)}"
  shows "initproc (reparent ar i js t) = initproc t \<and> length (procs (reparent ar i js t)) = length (procs t)
    \<and> (\<forall>j < length (procs t). p_parent (procs (reparent ar i js t) ! j) =
         (if j \<in> set js \<and> p_parent (procs t ! j) = Some i then initproc t else p_parent (procs t ! j))
       \<and> woken (p_state (procs t ! j)) (p_state (procs (reparent ar i js t) ! j))
       \<and> p_pid (procs (reparent ar i js t) ! j) = p_pid (procs t ! j))"
  using assms
proof (induction js arbitrary: t)
  case (Cons k js)
  show ?case
  proof (cases "p_parent (procs t ! k) = Some i")
    case False
    then show ?thesis using Cons.IH [of t] Cons.prems by auto
  next
    case True
    let ?t = "update_proc k (\<lambda>x. x\<lparr>p_parent := initproc t\<rparr>) t"
    define u where "u = (if p_state (procs ?t ! k) = ZOMBIE then ?t\<lparr>procs := wakeup1 (a_proc ar (initproc ?t)) (procs ?t)\<rparr> else ?t)"
    have k: "k < length (procs t)" using Cons.prems(2) by simp
    have u: "initproc u = initproc t" "length (procs u) = length (procs t)" by (simp_all add: u_def update_proc_def)
    have n: "p_parent (procs u ! j) = (if j = k then initproc t else p_parent (procs t ! j))"
        "woken (p_state (procs t ! j)) (p_state (procs u ! j))" "p_pid (procs u ! j) = p_pid (procs t ! j)"
      if "j < length (procs t)" for j
      using that k by (auto simp: u_def update_proc_def woken_def nth_list_update)
    have r: "reparent ar i (k # js) t = reparent ar i js u" using True by (simp add: Let_def u_def)
    have IH: "initproc (reparent ar i js u) = initproc t \<and> length (procs (reparent ar i js u)) = length (procs t)
      \<and> (\<forall>j < length (procs t). p_parent (procs (reparent ar i js u) ! j) =
           (if j \<in> set js \<and> p_parent (procs u ! j) = Some i then initproc t else p_parent (procs u ! j))
         \<and> woken (p_state (procs u ! j)) (p_state (procs (reparent ar i js u) ! j))
         \<and> p_pid (procs (reparent ar i js u) ! j) = p_pid (procs u ! j))"
      using Cons.IH [of u] Cons.prems u by simp
    have w: "woken x z" if "woken x y" "woken y z" for x y z using that by (auto simp: woken_def)
    show ?thesis unfolding r
    proof (intro conjI allI impI)
      show "initproc (reparent ar i js u) = initproc t" "length (procs (reparent ar i js u)) = length (procs t)" using IH by simp_all
      fix j
      assume j: "j < length (procs t)"
      show "p_parent (procs (reparent ar i js u) ! j) =
          (if j \<in> set (k # js) \<and> p_parent (procs t ! j) = Some i then initproc t else p_parent (procs t ! j))"
        using IH j n(1) [OF j] True Cons.prems(1) by simp
      show "woken (p_state (procs t ! j)) (p_state (procs (reparent ar i js u) ! j))"
        using IH j by (intro w [OF n(2) [OF j]]) simp
      show "p_pid (procs (reparent ar i js u) ! j) = p_pid (procs t ! j)" using IH j n(3) [OF j] by simp
    qed
  qed
qed (simp add: woken_def)

lemma exit_ptable_spec:
  assumes "initproc t \<noteq> Some i" "i < length (procs t)" "j < length (procs t)"
  shows "length (procs (exit_ptable ar i t)) = length (procs t)"
    "p_parent (procs (exit_ptable ar i t) ! j) = (if p_parent (procs t ! j) = Some i then initproc t else p_parent (procs t ! j))"
    "p_state (procs (exit_ptable ar i t) ! i) = ZOMBIE"
    "j \<noteq> i \<Longrightarrow> p_state (procs t ! j) = SLEEPING \<Longrightarrow> p_chan (procs t ! j) = a_proc ar (p_parent (procs t ! i)) \<Longrightarrow>
       p_state (procs (exit_ptable ar i t) ! j) = RUNNABLE"
proof -
  let ?t = "t\<lparr>procs := wakeup1 (a_proc ar (p_parent (procs t ! i))) (procs t)\<rparr>"
  note R = reparent_spec [of ?t i "[0..<length (procs t)]" ar]
  have e: "exit_ptable ar i t = update_proc i (\<lambda>x. x\<lparr>p_state := ZOMBIE\<rparr>) (reparent ar i [0..<length (procs t)] ?t)"
    by (simp add: exit_ptable_def Let_def)
  show "length (procs (exit_ptable ar i t)) = length (procs t)" using R assms(1) by (simp add: e update_proc_def)
  show "p_parent (procs (exit_ptable ar i t) ! j) = (if p_parent (procs t ! j) = Some i then initproc t else p_parent (procs t ! j))"
    using R assms by (auto simp: e update_proc_def nth_list_update)
  show "p_state (procs (exit_ptable ar i t) ! i) = ZOMBIE" using R assms by (simp add: e update_proc_def)
  show "p_state (procs (exit_ptable ar i t) ! j) = RUNNABLE" if "j \<noteq> i" "p_state (procs t ! j) = SLEEPING"
      "p_chan (procs t ! j) = a_proc ar (p_parent (procs t ! i))"
    using R assms that by (auto simp: e update_proc_def woken_def)
qed

lemma exit_spec:
  assumes "exit ar i s = Ok s'" "i < length (procs (kn_pt s))"
  obtains t where "same_but i (kn_pt s) t" "kn_pt s' = exit_ptable ar i t" "initproc t \<noteq> Some i"
proof -
  have ni: "initproc (kn_pt s) \<noteq> Some i" using assms(1) by (auto simp: exit_def)
  obtain s1 s2 io where h: "close_all i [0..<NOFILE] s = Ok s1" "exit_shm ar i s1 = Ok s2"
      "kn_pt s' = exit_ptable ar i (kn_pt (set_proc i (\<lambda>x. x\<lparr>p_cwd := None\<rparr>) (s2\<lparr>kn_io := op_end io\<rparr>)))"
    using assms(1) ni by (auto simp: exit_def Let_def elim!: bind_res_OkE)
  have a: "same_but i (kn_pt s) (kn_pt s1)" by (rule close_all_same [OF h(1) assms(2)])
  have b: "same_but i (kn_pt s1) (kn_pt s2)" by (rule exit_shm_same [OF h(2)]) (use a assms(2) in \<open>simp add: same_but_def\<close>)
  let ?t = "kn_pt (set_proc i (\<lambda>x. x\<lparr>p_cwd := None\<rparr>) (s2\<lparr>kn_io := op_end io\<rparr>))"
  have "i < length (procs (kn_pt s2))" using a b assms(2) by (simp add: same_but_def)
  then have "same_but i (kn_pt s2) ?t" by (simp add: set_proc_def same_but_update)
  then have c: "same_but i (kn_pt s) ?t" using a b by (blast intro: same_but_trans)
  then have "initproc ?t \<noteq> Some i" using ni by (simp add: same_but_def)
  then show thesis using that c h(3) by blast
qed

lemma wait_scan_finds:
  assumes "j < length (procs t)" "is_zombie_child i (procs t ! j)"
  obtains k where "wait_scan i t = Reap k" "k < length (procs t)" "is_zombie_child i (procs t ! k)"
proof -
  obtain k where k: "find_index (is_zombie_child i) (procs t) = Some k"
    using assms by (cases "find_index (is_zombie_child i) (procs t)") (auto simp: find_index_None)
  then show thesis using that [of k] find_index_SomeD [OF k] by (simp add: wait_scan_def)
qed

lemma reap_spec: "reap j s = Ok (r, s') \<Longrightarrow> j < length (procs (kn_pt s)) \<Longrightarrow> r = p_pid (the_proc s j) \<and> p_state (the_proc s' j) = UNUSED
    \<and> (\<forall>k. k \<noteq> j \<longrightarrow> the_proc s' k = the_proc s k)"
  by (auto simp: reap_def Let_def set_proc_def update_proc_def elim!: bind_res_OkE)

text \<open>C27: \<^verbatim>\<open>exit\<close> and \<^verbatim>\<open>wait\<close> do not miss each other. When a process exits, its parent sleeping in \<^verbatim>\<open>wait\<close> becomes runnable, no process is left with
  the exiting one as its parent, and the parent's next scan finds a child that has exited instead of going to sleep again; the \<^verbatim>\<open>wait\<close> that
  returns gives the process number of such a child and frees its entry, and only that.\<close>

theorem exit_then_wait:
  assumes "exit ar i s = Ok s'" "i < length (procs (kn_pt s))" "p_parent (the_proc s i) = Some par" "par \<noteq> i"
    "par < length (procs (kn_pt s))" "p_state (the_proc s par) = SLEEPING" "p_chan (the_proc s par) = a_proc ar (Some par)"
  shows "p_state (the_proc s' par) = RUNNABLE \<and> (\<forall>j < length (procs (kn_pt s')). p_parent (the_proc s' j) \<noteq> Some i)
    \<and> (\<exists>k. wait_scan par (kn_pt s') = Reap k \<and> is_zombie_child par (the_proc s' k)
         \<and> (\<forall>r s''. wait par s' = Ok (r, s'') \<longrightarrow> r = p_pid (the_proc s' k) \<and> p_state (the_proc s'' k) = UNUSED
              \<and> (\<forall>j. j \<noteq> k \<longrightarrow> the_proc s'' j = the_proc s' j)))"
proof -
  obtain t where t: "same_but i (kn_pt s) t" "kn_pt s' = exit_ptable ar i t" "initproc t \<noteq> Some i"
    by (rule exit_spec [OF assms(1,2)])
  have l: "length (procs t) = length (procs (kn_pt s))" and pa: "procs t ! par = the_proc s par" "p_parent (procs t ! i) = Some par"
    using t(1) assms(3,4) by (simp_all add: same_but_def)
  note E = exit_ptable_spec [OF t(3), of _ ar]
  have ls: "length (procs (kn_pt s')) = length (procs t)" using E(1) assms(2) l t(2) by simp
  have a: "p_state (the_proc s' par) = RUNNABLE" unfolding t(2) by (rule E(4)) (use assms l pa in simp_all)
  have b: "p_parent (the_proc s' j) \<noteq> Some i" if "j < length (procs (kn_pt s'))" for j
    unfolding t(2) using E(2) [of j] that t(3) assms(2) l ls by simp
  have "is_zombie_child par (the_proc s' i)"
    unfolding is_zombie_child_def t(2) using E(2) [of i] E(3) [of i] assms(2,4) l pa(2) by simp
  then obtain k where k: "wait_scan par (kn_pt s') = Reap k" "k < length (procs (kn_pt s'))" "is_zombie_child par (the_proc s' k)"
    using wait_scan_finds [of i "kn_pt s'" par] assms(2) l ls by metis
  have "r = p_pid (the_proc s' k) \<and> p_state (the_proc s'' k) = UNUSED \<and> (\<forall>j. j \<noteq> k \<longrightarrow> the_proc s'' j = the_proc s' j)"
    if "wait par s' = Ok (r, s'')" for r s''
    using reap_spec [of k s' r s''] that k(1,2) by (simp add: wait_def)
  then show ?thesis using a b k(1,3) by blast
qed

definition small_dir :: inode where
  "small_dir = \<lparr>i_dev = 1, i_inum = 1, i_ref = 2, i_held = False, i_valid = True, i_type = T_DIR, i_major = 0, i_minor = 0, i_nlink = 1,
     i_size = 0, i_addrs = replicate 13 0\<rparr>"

definition small_arch :: arch where
  "small_arch = \<lparr>a_trapret = 0, a_forkret = 0, a_proc = (\<lambda>p. case p of None \<Rightarrow> 0 | Some j \<Rightarrow> 4 + word_of_nat j), a_initcode = [],
     a_exit_lit = key_a, a_shm_lit = key_a, a_stack = (\<lambda>_. 0, 0x80200000)\<rparr>"

definition small_child :: proc where
  "small_child = idle_proc\<lparr>p_parent := Some 0, p_ofile := replicate 16 None, p_cwd := Some 0, p_state := RUNNING\<rparr>"

definition small_family :: kernel where
  "small_family = \<lparr>kn_pt = \<lparr>pt_lock = free_lock, procs = [idle_proc\<lparr>p_state := SLEEPING, p_chan := 4\<rparr>, small_child], nextpid = 3, initproc = Some 0\<rparr>,
     kn_mem = small_kmem, kn_shm = sh_table small_shm, kn_mach = one_cpu, kn_io = small_kst (small_fs\<lparr>fs_ic := [small_dir]\<rparr>)\<rparr>"

lemma small_close_all: "close_all 1 fds small_family = Ok small_family" if "set fds \<subseteq> {0..<16}" for fds
  using that by (induction fds) (simp_all add: small_family_def small_child_def)

lemma exit_pages_none: "\<forall>i \<in> set is. p_bitmap (cur h) ! i \<noteq> 1 \<Longrightarrow> exit_pages is h = Ok h"
  by (induction "is") simp_all

lemma small_exit: "\<exists>s'. exit small_arch 1 small_family = Ok s'"
proof -
  define h where "h = \<lparr>shk = kn_mem small_family, sh_table = kn_shm small_family, sh_mach = kn_mach small_family, cur = the_proc small_family 1\<rparr>"
  have f: "lock_free 0 (sh_lock (sh_table h), sh_mach h)" using small_shm_lock by (simp add: h_def small_family_def small_shm_def)
  obtain lk m where a: "sh_acquire (a_stack small_arch) h = Ok (h\<lparr>sh_table := (sh_table h)\<lparr>sh_lock := lk\<rparr>, sh_mach := m\<rparr>)" "lock_owned 0 (lk, m)"
    by (rule shm_lock [OF f])
  define g where "g = h\<lparr>sh_table := (sh_table h)\<lparr>sh_lock := lk\<rparr>, sh_mach := m\<rparr>"
  have o: "lock_owned 0 (sh_lock (sh_table g), sh_mach g)" using a(2) by (simp add: g_def)
  obtain lk' m' where r: "sh_release g = Ok (g\<lparr>sh_table := (sh_table g)\<lparr>sh_lock := lk'\<rparr>, sh_mach := m'\<rparr>)" by (rule shm_unlock [OF o])
  have e: "exit_pages [0..<SHMEM_PAGES] g = Ok g"
    by (rule exit_pages_none) (simp add: g_def h_def small_family_def small_child_def)
  have lit: "memcmp (a_exit_lit small_arch) (a_shm_lit small_arch) 16 = Some 0" by (simp add: small_arch_def memcmp_zero_iff)
  have "shmrem (a_shm_lit small_arch) (a_stack small_arch) (a_exit_lit small_arch) h = Ok (1, g\<lparr>sh_table := (sh_table g)\<lparr>sh_lock := lk'\<rparr>, sh_mach := m'\<rparr>)"
    unfolding shmrem_def a(1) g_def [symmetric] lit by (simp add: e r)
  moreover have "cur g = small_child" by (simp add: g_def h_def small_family_def)
  ultimately obtain k1 t1 m1 where "exit_shm small_arch 1 small_family =
      Ok (set_proc 1 (\<lambda>_. small_child) (small_family\<lparr>kn_mem := k1, kn_shm := t1, kn_mach := m1\<rparr>))"
    unfolding exit_shm_def h_def [symmetric] by simp
  then obtain s2 where s2: "exit_shm small_arch 1 small_family = Ok s2" "p_cwd (the_proc s2 1) = Some 0" "kn_io s2 = kn_io small_family"
    by (rule that) (simp_all add: set_proc_def update_proc_def small_family_def small_child_def)
  have "\<exists>io. on_fs (iput 0) (op_begin (kn_io small_family)) = Ok io"
    by (simp add: on_fs_def op_begin_def small_family_def small_kst_def iput_def acquire_inode_def set_inode_def small_dir_def)
  then obtain io where "on_fs (iput 0) (op_begin (kn_io small_family)) = Ok io" by blast
  then show ?thesis using s2 small_close_all [of "[0..<NOFILE]"]
    by (simp add: exit_def NOFILE_def) (simp add: small_family_def Let_def)
qed

theorem exit_then_wait_witness:
  "\<exists>s'. exit small_arch 1 small_family = Ok s' \<and> p_state (the_proc s' 0) = RUNNABLE \<and> (\<exists>k. wait_scan 0 (kn_pt s') = Reap k)"
proof -
  obtain s' where s': "exit small_arch 1 small_family = Ok s'" using small_exit by blast
  have p: "1 < length (procs (kn_pt small_family))" "p_parent (the_proc small_family 1) = Some 0" "(0 :: nat) \<noteq> 1"
    "0 < length (procs (kn_pt small_family))" "p_state (the_proc small_family 0) = SLEEPING"
    "p_chan (the_proc small_family 0) = a_proc small_arch (Some 0)"
    by (simp_all add: small_family_def small_child_def small_arch_def)
  from exit_then_wait [OF s' p] s' show ?thesis by blast
qed

end
