(* ===== verification/Ulib.thy ===== *)
theory Ulib
  imports Prelude
begin

text \<open>
  The C library of user programs (ulib.c, printf.c). A buffer or string is the list of bytes from a pointer on; reading or writing past
  its end is \<open>None\<close>. Output is the list of bytes written. \<^verbatim>\<open>read\<close> of one byte is a list of what the calls give, \<open>None\<close> when a call gives
  nothing. The words on the stack behind a format are a function \<open>ap\<close>, and \<open>str\<close> gives the string at an address.
\<close>

section \<open>Definitions\<close>

fun strcpy :: "byte list \<Rightarrow> byte list \<Rightarrow> byte list option" where
  "strcpy (d # ds) (c # cs) = (if c = 0 then Some (0 # ds) else map_option ((#) c) (strcpy ds cs))"
| "strcpy _ _ = None"

fun strcmp :: "byte list \<Rightarrow> byte list \<Rightarrow> int option" where
  "strcmp (p # ps) (q # qs) = (if p \<noteq> 0 \<and> p = q then strcmp ps qs else Some (uint p - uint q))"
| "strcmp _ _ = None"

fun ulib_strlen :: "byte list \<Rightarrow> nat option" where
  "ulib_strlen [] = None"
| "ulib_strlen (c # s) = (if c = 0 then Some 0 else map_option Suc (ulib_strlen s))"

definition ulib_memset :: "byte list \<Rightarrow> byte \<Rightarrow> nat \<Rightarrow> byte list option" where
  "ulib_memset dst c n = (if n \<le> length dst then Some (replicate n c @ drop n dst) else None)"

text \<open>The index of the character; \<open>Some None\<close> is the null pointer.\<close>

fun strchr :: "byte list \<Rightarrow> byte \<Rightarrow> nat option option" where
  "strchr [] c = None"
| "strchr (x # s) c = (if x = 0 then Some None else if x = c then Some (Some 0) else map_option (map_option Suc) (strchr s c))"

fun gets_from :: "nat \<Rightarrow> byte option list \<Rightarrow> byte list" where
  "gets_from (Suc k) (Some c # inp) = c # (if c = 10 \<or> c = 13 then [] else gets_from k inp)"
| "gets_from _ _ = []"

definition gets :: "byte list \<Rightarrow> int \<Rightarrow> byte option list \<Rightarrow> byte list option" where
  "gets buf mx inp =
     (let cs = gets_from (nat (mx - 1)) inp @ [0]
      in if length cs \<le> length buf then Some (cs @ drop (length cs) buf) else None)"

fun atoi_from :: "uint \<Rightarrow> byte list \<Rightarrow> uint option" where
  "atoi_from n [] = None"
| "atoi_from n (c # s) = (if 48 \<le> c \<and> c \<le> 57 then atoi_from (n * 10 + ucast c - 48) s else Some n)"

definition atoi :: "byte list \<Rightarrow> uint option" where
  "atoi s = atoi_from 0 s"

text \<open>Byte by byte, upwards; the source and the destination are in one memory at offsets \<open>s\<close> and \<open>d\<close>.\<close>

fun ulib_memmove :: "byte list \<Rightarrow> nat \<Rightarrow> nat \<Rightarrow> nat \<Rightarrow> byte list option" where
  "ulib_memmove m d s 0 = Some m"
| "ulib_memmove m d s (Suc n) = (if d < length m \<and> s < length m then ulib_memmove (m[d := m ! s]) (Suc d) (Suc s) n else None)"

definition digits :: "byte list" where
  "digits = [48, 49, 50, 51, 52, 53, 54, 55, 56, 57, 65, 66, 67, 68, 69, 70]"

text \<open>The digits in the order they are put into the buffer.\<close>

function printint_buf :: "uint \<Rightarrow> uint \<Rightarrow> byte list" where
  "printint_buf x b = digits ! unat (x mod b) # (if x div b = 0 \<or> b \<le> 1 then [] else printint_buf (x div b) b)"
  by pat_completeness auto
termination
proof (relation "measure (\<lambda>(x, b). unat x)", goal_cases)
  case (2 x b)
  then have "x \<noteq> 0" "1 < b" by auto
  then have "unat x div unat b < unat x" by (intro div_less_dividend) (simp_all add: word_less_nat_alt unat_gt_0)
  then show ?case by (simp add: unat_div)
qed simp

declare printint_buf.simps [simp del]

definition printint :: "uint \<Rightarrow> uint \<Rightarrow> bool \<Rightarrow> byte list" where
  "printint xx b sg =
     (let neg = sg \<and> sint xx < 0;
          x = (if neg then - xx else xx)
      in rev (printint_buf x b @ (if neg then [45] else [])))"

fun printf_from :: "(uint \<Rightarrow> byte list) \<Rightarrow> (nat \<Rightarrow> uint) \<Rightarrow> nat \<Rightarrow> bool \<Rightarrow> byte list \<Rightarrow> byte list option" where
  "printf_from str ap i st [] = None"
| "printf_from str ap i st (c # fmt) =
     (if c = 0 then Some []
      else if \<not> st
      then if c = 37 then printf_from str ap i True fmt
           else map_option ((#) c) (printf_from str ap i False fmt)
      else if c = 100 then map_option ((@) (printint (ap i) 10 True)) (printf_from str ap (Suc i) False fmt)
      else if c = 120 \<or> c = 112 then map_option ((@) (printint (ap i) 16 False)) (printf_from str ap (Suc i) False fmt)
      else if c = 115
      then map_option ((@) (if ap i = 0 then [40, 110, 117, 108, 108, 41] else str (ap i))) (printf_from str ap (Suc i) False fmt)
      else if c = 99 then map_option ((#) (ucast (ap i))) (printf_from str ap (Suc i) False fmt)
      else if c = 37 then map_option ((#) c) (printf_from str ap i False fmt)
      else map_option ((@) [37, c]) (printf_from str ap i False fmt))"

definition printf :: "(uint \<Rightarrow> byte list) \<Rightarrow> (nat \<Rightarrow> uint) \<Rightarrow> byte list \<Rightarrow> byte list option" where
  "printf str ap fmt = printf_from str ap 0 False fmt"

section \<open>Properties\<close>

lemma strcpy_string:
  "0 \<notin> set s \<Longrightarrow> strcpy ds (s @ 0 # r) = (if length s < length ds then Some (s @ 0 # drop (Suc (length s)) ds) else None)"
proof (induction s arbitrary: ds)
  case Nil
  then show ?case by (cases ds) simp_all
next
  case (Cons c s)
  then show ?case by (cases ds) auto
qed

lemma strcmp_eq_iff: "0 \<notin> set s \<Longrightarrow> 0 \<notin> set t \<Longrightarrow> strcmp (s @ 0 # r) (t @ 0 # q) = Some 0 \<longleftrightarrow> s = t"
proof (induction s arbitrary: t)
  case Nil
  then show ?case by (cases t) (auto simp: uint_0_iff)
next
  case (Cons c s)
  then show ?case by (cases t) (auto simp: uint_0_iff dest!: unsigned_word_eqI)
qed

lemma digits_decimal: "n < 10 \<Longrightarrow> digits ! n = 48 + word_of_nat n"
proof -
  assume "n < 10"
  then have "n = 0 \<or> n = 1 \<or> n = 2 \<or> n = 3 \<or> n = 4 \<or> n = 5 \<or> n = 6 \<or> n = 7 \<or> n = 8 \<or> n = 9" by auto
  then show ?thesis by (elim disjE) (simp_all add: digits_def)
qed

text \<open>\<^verbatim>\<open>atoi\<close> after the leading digits.\<close>

lemma atoi_digit: "n < 10 \<Longrightarrow> atoi_from v ((48 + word_of_nat n) # s) = atoi_from (v * 10 + word_of_nat n) s"
proof -
  assume n: "n < 10"
  have u: "unat (48 + word_of_nat n :: byte) = 48 + n" using n by (simp add: unat_word_ariths unat_of_nat)
  have "48 \<le> (48 + word_of_nat n :: byte)" "(48 + word_of_nat n :: byte) \<le> 57" using n by (simp_all add: word_le_nat_alt u)
  moreover have "ucast (48 + word_of_nat n :: byte) = (48 + word_of_nat n :: uint)"
    by (rule word_unat_eq_iff [THEN iffD2]) (use n in \<open>simp add: unsigned_ucast_eq u unat_word_ariths unat_of_nat take_bit_nat_eq_self\<close>)
  ultimately show ?thesis by simp
qed

lemma atoi_printint_buf: "atoi_from 0 (rev (printint_buf x 10) @ s) = atoi_from x s"
proof (induction "unat x" arbitrary: x s rule: less_induct)
  case less
  have d: "unat (x mod 10) = unat x mod 10" "unat (x div 10) = unat x div 10" by (simp_all add: unat_mod unat_div)
  have dig: "digits ! unat (x mod 10) = 48 + word_of_nat (unat x mod 10)" using digits_decimal [of "unat x mod 10"] d by simp
  have "word_of_nat (unat (x mod 10)) = x mod 10" by simp
  then have m: "x div 10 * 10 + word_of_nat (unat x mod 10) = x" unfolding d(1) by (simp add: div_mult_mod_eq)
  show ?case
  proof (cases "x div 10 = 0")
    case True
    then show ?thesis using m by (subst printint_buf.simps) (simp add: dig atoi_digit del: atoi_from.simps)
  next
    case False
    then have "unat (x div 10) < unat x" 
      using d(2) div_less_dividend [of 10 "unat x"] unat_gt_0 [of x] by (cases "x = 0") simp_all
    moreover have "\<not> (10 :: uint) \<le> 1" by (simp add: word_le_nat_alt)
    ultimately show ?thesis using less [of "x div 10"] False m by (subst printint_buf.simps) (simp add: dig atoi_digit del: atoi_from.simps)
  qed
qed

lemma printint_buf_length: "unat x < 10 ^ Suc k \<Longrightarrow> 10 \<le> b \<Longrightarrow> length (printint_buf x b) \<le> Suc k"
proof (induction k arbitrary: x)
  case 0
  then have "x div b = 0" by (simp add: unat_div word_unat_eq_iff word_le_nat_alt)
  then show ?case by (subst printint_buf.simps) simp
next
  case (Suc k)
  have "unat (x div b) \<le> unat x div 10" using Suc.prems(2) by (simp add: unat_div div_le_mono2 word_le_nat_alt)
  also have "\<dots> < 10 ^ Suc k" using Suc.prems(1) by (simp add: less_mult_imp_div_less)
  finally show ?case using Suc.IH [of "x div b"] Suc.prems(2) by (subst printint_buf.simps) simp
qed



end
