(* ===== verification/Grep.thy ===== *)
theory Grep
  imports Prelude
begin

text \<open>
  The program grep (grep.c): the regular expression matcher and the loop over the lines of its input. Strings are the bytes before
  their NUL. The input of the loop is the list of what the calls of \<^verbatim>\<open>read\<close> give, each at most as long as the room in the buffer; the output is the
  bytes written.
\<close>

section \<open>Definitions\<close>

function (sequential) matchhere :: "byte list \<Rightarrow> byte list \<Rightarrow> bool" and matchstar :: "byte \<Rightarrow> byte list \<Rightarrow> byte list \<Rightarrow> bool" where
  "matchhere [] t = True"
| "matchhere (c # re) t =
     (if re \<noteq> [] \<and> hd re = 42 then matchstar c (tl re) t
      else if c = 36 \<and> re = [] then t = []
      else if t \<noteq> [] \<and> (c = 46 \<or> c = hd t) then matchhere re (tl t)
      else False)"
| "matchstar c re t =
     (if matchhere re t then True
      else if t \<noteq> [] \<and> (hd t = c \<or> c = 46) then matchstar c re (tl t)
      else False)"
  by pat_completeness auto
termination
  by (relation "measures [\<lambda>x. case x of Inl (re, t) \<Rightarrow> length re | Inr (c, re, t) \<Rightarrow> Suc (length re),
      \<lambda>x. case x of Inl (re, t) \<Rightarrow> length t | Inr (c, re, t) \<Rightarrow> length t]") (auto simp: neq_Nil_conv)

declare matchhere.simps [simp del] matchstar.simps [simp del]

fun match_from :: "byte list \<Rightarrow> byte list \<Rightarrow> bool" where
  "match_from re [] = matchhere re []"
| "match_from re (c # t) = (matchhere re (c # t) \<or> match_from re t)"

definition match :: "byte list \<Rightarrow> byte list \<Rightarrow> bool" where
  "match re t = (if re \<noteq> [] \<and> hd re = 94 then matchhere (tl re) t else match_from re t)"

text \<open>The lines in the buffer from \<^verbatim>\<open>p\<close> on: the output and what is left behind the last newline. \<^verbatim>\<open>strchr\<close> stops at a NUL.\<close>

function grep_lines :: "byte list \<Rightarrow> byte list \<Rightarrow> byte list \<times> byte list" where
  "grep_lines pat p =
     (if 10 \<in> set (takeWhile (\<lambda>c. c \<noteq> 0) p)
      then let line = takeWhile (\<lambda>c. c \<noteq> 10) p;
               (out, rest) = grep_lines pat (drop (Suc (length line)) p)
           in ((if match pat line then line @ [10] else []) @ out, rest)
      else ([], p))"
  by pat_completeness auto
termination
proof (relation "measure (\<lambda>(pat, p). length p)", goal_cases)
  case (2 pat p x)
  then show ?case by (cases p) auto
qed simp

declare grep_lines.simps [simp del]

text \<open>\<open>m\<close> is what the buffer holds of an unfinished line.\<close>

fun grep_from :: "byte list \<Rightarrow> byte list \<Rightarrow> byte list list \<Rightarrow> byte list" where
  "grep_from pat m [] = []"
| "grep_from pat m (c # cs) =
     (if c = [] then []
      else let (out, rest) = grep_lines pat (m @ c)
           in out @ grep_from pat (if length rest = length (m @ c) then [] else rest) cs)"

definition grep :: "byte list \<Rightarrow> byte list list \<Rightarrow> byte list" where
  "grep pat cs = grep_from pat [] cs"

section \<open>What an expression denotes\<close>

datatype item = One byte | Star byte

text \<open>A pattern without the anchor at its start: its items, and whether it is anchored at the end.\<close>

fun items :: "byte list \<Rightarrow> item list \<times> bool" where
  "items [] = ([], False)"
| "items (c # re) =
     (if re \<noteq> [] \<and> hd re = 42 then (let (is, e) = items (tl re) in (Star c # is, e))
      else if c = 36 \<and> re = [] then ([], True)
      else (let (is, e) = items re in (One c # is, e)))"

definition fits :: "byte \<Rightarrow> byte \<Rightarrow> bool" where
  "fits c x \<longleftrightarrow> c = 46 \<or> x = c"

fun lang :: "item list \<Rightarrow> byte list set" where
  "lang [] = {[]}"
| "lang (One c # is) = {x # u |x u. fits c x \<and> u \<in> lang is}"
| "lang (Star c # is) = {v @ u |v u. (\<forall>x \<in> set v. fits c x) \<and> u \<in> lang is}"

definition accepts :: "item list \<times> bool \<Rightarrow> byte list \<Rightarrow> bool" where
  "accepts r t \<longleftrightarrow> (\<exists>u v. t = u @ v \<and> u \<in> lang (fst r) \<and> (snd r \<longrightarrow> v = []))"

lemma accepts_One: "accepts (One c # is, e) t \<longleftrightarrow> t \<noteq> [] \<and> fits c (hd t) \<and> accepts (is, e) (tl t)"
  by (cases t) (auto simp: accepts_def Cons_eq_append_conv)

lemma accepts_Star_iff:
  "accepts (Star c # is, e) t \<longleftrightarrow> (\<exists>v u w. t = v @ u @ w \<and> (\<forall>x \<in> set v. fits c x) \<and> u \<in> lang is \<and> (e \<longrightarrow> w = []))"
    (is "_ \<longleftrightarrow> ?R")
proof
  assume "accepts (Star c # is, e) t"
  then obtain x w where x: "t = x @ w" "x \<in> lang (Star c # is)" "e \<longrightarrow> w = []" unfolding accepts_def fst_conv snd_conv by blast
  from x(2) obtain v u where "x = v @ u" "\<forall>x \<in> set v. fits c x" "u \<in> lang is" by auto
  then show ?R using x(1,3) by (intro exI [of _ v] exI [of _ u] exI [of _ w]) simp
next
  assume ?R
  then obtain v u w where "t = v @ u @ w" "\<forall>x \<in> set v. fits c x" "u \<in> lang is" "e \<longrightarrow> w = []" by blast
  then show "accepts (Star c # is, e) t" unfolding accepts_def by (intro exI [of _ "v @ u"] exI [of _ w]) auto
qed

lemma accepts_Star: "accepts (Star c # is, e) t \<longleftrightarrow> accepts (is, e) t \<or> (t \<noteq> [] \<and> fits c (hd t) \<and> accepts (Star c # is, e) (tl t))"
proof
  assume "accepts (Star c # is, e) t"
  then obtain v u w where h: "t = v @ u @ w" "\<forall>x \<in> set v. fits c x" "u \<in> lang is" "e \<longrightarrow> w = []"
    unfolding accepts_Star_iff by blast
  show "accepts (is, e) t \<or> (t \<noteq> [] \<and> fits c (hd t) \<and> accepts (Star c # is, e) (tl t))"
  proof (cases v)
    case Nil
    then show ?thesis using h by (auto simp: accepts_def)
  next
    case (Cons x v')
    then have "accepts (Star c # is, e) (tl t)" using h unfolding accepts_Star_iff by (intro exI [of _ v'] exI [of _ u] exI [of _ w]) auto
    then show ?thesis using h Cons by simp
  qed
next
  assume "accepts (is, e) t \<or> (t \<noteq> [] \<and> fits c (hd t) \<and> accepts (Star c # is, e) (tl t))"
  then show "accepts (Star c # is, e) t"
  proof
    assume "accepts (is, e) t"
    then obtain u w where "t = u @ w" "u \<in> lang is" "e \<longrightarrow> w = []" by (auto simp: accepts_def)
    then show ?thesis unfolding accepts_Star_iff by (intro exI [of _ "[]"] exI [of _ u] exI [of _ w]) simp
  next
    assume a: "t \<noteq> [] \<and> fits c (hd t) \<and> accepts (Star c # is, e) (tl t)"
    then obtain v u w where h: "tl t = v @ u @ w" "\<forall>x \<in> set v. fits c x" "u \<in> lang is" "e \<longrightarrow> w = []"
      unfolding accepts_Star_iff by blast
    have "t = (hd t # v) @ u @ w" using a h(1) by (cases t) auto
    then show ?thesis using a h unfolding accepts_Star_iff by (intro exI [of _ "hd t # v"] exI [of _ u] exI [of _ w]) auto
  qed
qed

lemma match_accepts:
  "matchhere re t \<longleftrightarrow> accepts (items re) t"
  "matchstar c re t \<longleftrightarrow> accepts (Star c # fst (items re), snd (items re)) t"
proof (induction re t and c re t rule: matchhere_matchstar.induct)
  case (1 t)
  then show ?case by (simp add: matchhere.simps accepts_def)
next
  case (2 c re t)
  show ?case
  proof (cases "re \<noteq> [] \<and> hd re = 42")
    case True
    then show ?thesis using 2(1) by (simp add: matchhere.simps split_beta)
  next
    case False
    then show ?thesis using 2(2) by (auto simp: matchhere.simps split_beta accepts_One fits_def) (auto simp: accepts_def)
  qed
next
  case (3 c re t)
  then show ?case by (subst matchstar.simps, subst accepts_Star) (auto simp: fits_def)
qed

lemma match_from_accepts: "match_from re t \<longleftrightarrow> (\<exists>pre post. t = pre @ post \<and> accepts (items re) post)"
proof (induction t)
  case Nil
  then show ?case by (simp add: match_accepts)
next
  case (Cons c t)
  then show ?case by (auto simp: match_accepts Cons_eq_append_conv)
qed

section \<open>Properties\<close>

text \<open>C28: \<^verbatim>\<open>match\<close> decides the language of the expression: it accepts a text exactly if the text has a part, at the start of the text
  when the expression begins with a caret, at the end when it ends with a dollar sign, that is a concatenation of characters for the single
  items and of runs of characters for the starred ones.\<close>

theorem match_correct:
  "match re t \<longleftrightarrow>
     (let anchored = re \<noteq> [] \<and> hd re = 94;
          (is, at_end) = items (if anchored then tl re else re)
      in \<exists>pre u post. t = pre @ u @ post \<and> u \<in> lang is \<and> (anchored \<longrightarrow> pre = []) \<and> (at_end \<longrightarrow> post = []))"
  by (auto simp: match_def Let_def match_accepts match_from_accepts accepts_def split_beta)

theorem match_correct_witness:
  "match [94, 97, 42, 98] [97, 97, 98, 99] \<and> (\<exists>pre u post. [97, 97, 98, 99] = pre @ u @ post \<and> u \<in> lang [Star 97, One 98] \<and> pre = [])"
proof -
  have "match [94, 97, 42, 98] [97, 97, 98, 99]" by (simp add: match_def matchhere.simps matchstar.simps)
  then show ?thesis using match_correct [of "[94, 97, 42, 98]" "[97, 97, 98, 99]"] by (simp add: Let_def del: lang.simps)
qed

text \<open>C36: what \<^verbatim>\<open>read\<close> gives before the first newline is lost. When a read ends inside a line that has not been finished, which pipes and the
  console do, and the buffer holds no newline, \<^verbatim>\<open>grep\<close> goes on with an empty buffer: the line is matched and printed without its first part.\<close>

theorem grep_loses_partial_line:
  assumes "c \<noteq> []" "10 \<notin> set (takeWhile (\<lambda>x. x \<noteq> 0) c)"
  shows "grep pat (c # cs) = grep pat cs"
  using assms by (simp add: grep_def grep_lines.simps)

theorem grep_loses_partial_line_witness: "grep [94, 98] [[97], [98, 10]] = [98, 10] \<and> \<not> match [94, 98] [97, 98]"
proof -
  have "grep [94, 98] [[97], [98, 10]] = grep [94, 98] [[98, 10]]" by (rule grep_loses_partial_line) simp_all
  then show ?thesis by (simp add: grep_def grep_lines.simps match_def matchhere.simps)
qed

end
