(* ===== verification/Spec2Isabelle.thy ===== *)
theory Spec2Isabelle
  imports Vm_Props Semaphore Shm Fs_Dirs Proc Ulib Grep
begin

text \<open>
  A verification development for the xv6 kernel with shared pages and semaphores.

  The program is an xv6 kernel for 32-bit x86 (the C sources of the repository), extended with
  pages shared between processes under a 16-byte key (shm.c) and with counting semaphores
  (semaphores.c).

  \<^bold>\<open>Common to all theories.\<close> C's \<^verbatim>\<open>uint\<close> is a 32-bit word; a pointer into kernel memory is an
  address, 0 the null pointer; kernel memory is a function from addresses to bytes. A call
  either returns a value (\<open>Ok\<close>), calls \<^verbatim>\<open>panic\<close> (\<open>Panic\<close> with the message), uses a null
  pointer or leaves an object (\<open>Fault\<close>), or does not return by itself (\<open>Block\<close>: it sleeps,
  spins or its loop counter has wrapped around). State is passed explicitly.

  \<^bold>\<open>Theories.\<close> \<^verbatim>\<open>Prelude\<close> (types, the outcome type), \<^verbatim>\<open>Mmu\<close> (mmu.h, memlayout.h), \<^verbatim>\<open>Memory\<close>
  (loads and stores), \<^verbatim>\<open>Cstring\<close> (string.c), \<^verbatim>\<open>Kalloc\<close> (kalloc.c), \<^verbatim>\<open>Vm\<close> (vm.c).
\<close>

end
